(* ===== verification/Prelude.thy ===== *)
theory Prelude
  imports Main "HOL-Library.Word" "HOL-Library.Signed_Division"
begin

text \<open>
  Shared vocabulary of the development: how a C++ statement can end (\<open>fault\<close>), the type
  of an operation on a state (\<open>op\<close>), sequencing and range-\<open>for\<close> loops over operations,
  indexing of a \<open>std::vector\<close>, decimal printing, reachability of a step relation, and the
  collection \<open>op_simps\<close>, which holds what the tracker's database operations do when the mutex is free.
\<close>

named_theorems op_simps "unfolding rules for sequenced operations"

section \<open>How a computation ends\<close>

text \<open>
  \<open>Undefined\<close> is behaviour the C++ standard (or the documented contract of a called
  library) leaves undefined: the model stops there instead of inventing a continuation.
  \<open>Thrown\<close> is a C++ exception, \<open>Exited\<close> a call of \<open>exit\<close>, \<open>Terminated\<close> a call of
  \<open>std::terminate\<close>.
\<close>

datatype undefined_behaviour =
    OutOfBounds        \<comment> \<open>\<open>operator[]\<close> or a raw read past the end\<close>
  | NullPointer        \<comment> \<open>member access through a null pointer\<close>
  | SelfLock           \<comment> \<open>locking a mutex the calling thread already owns\<close>
  | Indeterminate      \<comment> \<open>use of an uninitialised value\<close>
  | InvalidIterator    \<comment> \<open>use of an invalidated or foreign iterator\<close>
  | MissingReturn      \<comment> \<open>flowing off the end of a value-returning function\<close>
  | RepeatedIndex      \<comment> \<open>Get or Set past the size of a repeated protobuf field\<close>
  | SignedOverflow     \<comment> \<open>overflow of a signed integer\<close>

datatype fault =
    Undefined undefined_behaviour
  | Thrown string
  | Exited int
  | Terminated

type_synonym 'a outcome = "fault + 'a"

text \<open>
  An operation maps a state to an outcome and the state it leaves behind. The state is
  kept next to a fault, because a C++ exception does not roll back earlier writes.
\<close>

type_synonym ('s, 'a) op = "'s \<Rightarrow> 'a outcome \<times> 's"

definition ret :: "'a \<Rightarrow> ('s, 'a) op" where
  "ret x s = (Inr x, s)"

definition raise :: "fault \<Rightarrow> ('s, 'a) op" where
  "raise e s = (Inl e, s)"

definition gets :: "('s \<Rightarrow> 'a) \<Rightarrow> ('s, 'a) op" where
  "gets f s = (Inr (f s), s)"

definition modify :: "('s \<Rightarrow> 's) \<Rightarrow> ('s, unit) op" where
  "modify f s = (Inr (), f s)"

definition andThen :: "('s, 'a) op \<Rightarrow> ('a \<Rightarrow> ('s, 'b) op) \<Rightarrow> ('s, 'b) op" where
  "andThen m f s = (case m s of (Inl e, s') \<Rightarrow> (Inl e, s') | (Inr x, s') \<Rightarrow> f x s')"

lemma andThen_Inr [simp]: "m s = (Inr x, s') \<Longrightarrow> andThen m f s = f x s'"
  by (simp add: andThen_def)

lemma andThen_Inl [simp]: "m s = (Inl e, s') \<Longrightarrow> andThen m f s = (Inl e, s')"
  by (simp add: andThen_def)

lemma ret_apply [simp]: "ret x s = (Inr x, s)"
  by (simp add: ret_def)

lemma raise_apply [simp]: "raise e s = (Inl e, s)"
  by (simp add: raise_def)

lemma gets_apply [simp]: "gets f s = (Inr (f s), s)"
  by (simp add: gets_def)

lemma modify_apply [simp]: "modify f s = (Inr (), f s)"
  by (simp add: modify_def)

lemma andThen_InrE:
  assumes "andThen m f s = (Inr y, t)"
  obtains x s' where "m s = (Inr x, s')" and "f x s' = (Inr y, t)"
  using assms by (auto simp: andThen_def split: prod.splits sum.splits)

text \<open>A fault escapes unless a handler catches it; \<open>ok\<close> says that none occurred.\<close>

definition ok :: "'a outcome \<times> 's \<Rightarrow> bool" where
  "ok r = (case fst r of Inl _ \<Rightarrow> False | Inr _ \<Rightarrow> True)"

lemma ok_Inr [simp]: "ok (Inr x, s)"
  by (simp add: ok_def)

lemma ok_Inl [simp]: "\<not> ok (Inl e, s)"
  by (simp add: ok_def)

lemma ok_iff: "ok r \<longleftrightarrow> (\<exists>x s. r = (Inr x, s))"
  by (cases r) (auto simp: ok_def split: sum.splits)

section \<open>Range-for loops\<close>

primrec forEach :: "('x \<Rightarrow> ('s, unit) op) \<Rightarrow> 'x list \<Rightarrow> ('s, unit) op" where
  "forEach f [] = ret ()"
| "forEach f (x # xs) = andThen (f x) (\<lambda>_. forEach f xs)"

lemma forEach_invariant:
  assumes step: "\<And>x s. x \<in> set xs \<Longrightarrow> P s \<Longrightarrow> P (snd (f x s))"
    and start: "P s"
  shows "P (snd (forEach f xs s))"
  using assms
proof (induction xs arbitrary: s)
  case Nil
  then show ?case by simp
next
  case (Cons x xs)
  obtain r s' where fx: "f x s = (r, s')" by (cases "f x s")
  have P: "P s'" using Cons.prems(1)[of x s] Cons.prems(2) fx by simp
  show ?case
  proof (cases r)
    case (Inl e)
    with fx P show ?thesis by simp
  next
    case (Inr u)
    have "P (snd (forEach f xs s'))"
      by (rule Cons.IH) (use Cons.prems(1) P in auto)
    with fx Inr show ?thesis by simp
  qed
qed

lemma forEach_unchanged:
  assumes "\<And>x. x \<in> set xs \<Longrightarrow> f x s = (Inr (), s)"
  shows "forEach f xs s = (Inr (), s)"
  using assms by (induction xs) auto

section \<open>Vectors\<close>

text \<open>\<open>v[i]\<close> with a signed index: the index converts to \<open>size_t\<close>, so a negative one is out of range too.\<close>

definition inRange :: "int \<Rightarrow> 'a list \<Rightarrow> bool" where
  "inRange i xs \<longleftrightarrow> 0 \<le> i \<and> i < int (length xs)"

lemma inRange_update [simp]: "inRange i (xs[j := x]) = inRange i xs"
  by (simp add: inRange_def)

lemma inRange_nth: "inRange i xs \<Longrightarrow> nat i < length xs"
  by (auto simp: inRange_def)

lemma inRange_Nil [simp]: "\<not> inRange i []"
  by (simp add: inRange_def)

section \<open>Conversion to a 32-bit int\<close>

lemma signed_take_bit_31:
  fixes n :: int
  shows "signed_take_bit 31 n =
    (if n mod 4294967296 < 2147483648 then n mod 4294967296 else n mod 4294967296 - 4294967296)"
proof -
  define m where "m = n mod 4294967296"
  have m_bounds: "0 \<le> m" "m < 4294967296" by (simp_all add: m_def)
  have "signed_take_bit 31 n = (n + 2147483648) mod 4294967296 - 2147483648"
    by (simp add: signed_take_bit_eq_take_bit_shift take_bit_eq_mod)
  also have "(n + 2147483648) mod 4294967296 = (m + 2147483648) mod 4294967296"
    by (simp add: m_def mod_add_left_eq)
  also have "\<dots> = (if m < 2147483648 then m + 2147483648 else m - 2147483648)"
  proof (cases "m < 2147483648")
    case True
    with m_bounds show ?thesis by simp
  next
    case False
    have "(m + 2147483648) mod 4294967296 = (m + 2147483648 - 4294967296) mod 4294967296"
      by (simp only: minus_mod_self2)
    also have "\<dots> = m - 2147483648" using False m_bounds by simp
    finally show ?thesis using False by simp
  qed
  finally show ?thesis by (simp add: m_def)
qed

section \<open>Decimal printing\<close>

text \<open>\<open>std::to_string\<close> of an unsigned number.\<close>

fun to_string :: "nat \<Rightarrow> string" where
  "to_string n =
     (if n < 10 then [char_of (48 + n)] else to_string (n div 10) @ [char_of (48 + n mod 10)])"

declare to_string.simps [simp del]

lemma to_string_nonempty [simp]: "to_string n \<noteq> []"
  by (subst to_string.simps) simp

section \<open>Reachable states of a step relation\<close>

inductive reachable :: "('s \<Rightarrow> bool) \<Rightarrow> ('s \<Rightarrow> 's \<Rightarrow> bool) \<Rightarrow> 's \<Rightarrow> bool"
  for init :: "'s \<Rightarrow> bool" and step :: "'s \<Rightarrow> 's \<Rightarrow> bool" where
  reachable_init: "init s \<Longrightarrow> reachable init step s"
| reachable_step: "reachable init step s \<Longrightarrow> step s t \<Longrightarrow> reachable init step t"

lemma reachable_starts: "reachable init step s \<Longrightarrow> \<exists>s. init s"
  by (induction rule: reachable.induct) auto

text \<open>The contract of an inductive invariant, and what it buys.\<close>

locale invariant_system =
  fixes init :: "'s \<Rightarrow> bool" and step :: "'s \<Rightarrow> 's \<Rightarrow> bool" and inv :: "'s \<Rightarrow> bool"
  assumes inv_init: "init s \<Longrightarrow> inv s"
    and inv_step: "inv s \<Longrightarrow> step s t \<Longrightarrow> inv t"
begin

lemma reachable_inv: "reachable init step s \<Longrightarrow> inv s"
  by (induction rule: reachable.induct) (auto intro: inv_init inv_step)

end

lemma rtranclp_keeps:
  assumes "step\<^sup>*\<^sup>* s t" and "P s" and "\<And>s t. step s t \<Longrightarrow> P s \<Longrightarrow> P t"
  shows "P t"
  using assms by (induction rule: rtranclp_induct) auto

section \<open>Steps of threads in a list\<close>

text \<open>A thread with less left to do.\<close>

lemma sum_list_update_less:
  fixes g :: "'a \<Rightarrow> nat"
  shows "w < length ps \<Longrightarrow> g p < g (ps ! w) \<Longrightarrow>
    Suc (sum_list (map g (ps[w := p]))) \<le> sum_list (map g ps)"
proof (induction ps arbitrary: w)
  case (Cons q ps)
  then show ?case by (cases w) (auto simp: add.assoc[symmetric] simp flip: add_Suc_right)
qed simp

text \<open>Steps that make a measure smaller are no more than the measure.\<close>

lemma relpow_measure:
  fixes g :: "'s \<Rightarrow> nat"
  assumes "(step ^^ n) s t" and "\<And>s t. step s t \<Longrightarrow> Suc (g t) \<le> g s"
  shows "n + g t \<le> g s"
  using assms(1)
proof (induction n arbitrary: t)
  case (Suc n)
  then obtain u where "(step ^^ n) s u" "step u t" by auto
  with Suc.IH[of u] assms(2)[of u t] show ?case by linarith
qed simp

lemma relpow_ends:
  fixes g :: "'s \<Rightarrow> nat"
  assumes "\<And>s t. step s t \<Longrightarrow> Suc (g t) \<le> g s"
  shows "\<exists>n t. (step ^^ n) s t \<and> (\<nexists>u. step t u)"
proof (induction "g s" arbitrary: s rule: less_induct)
  case less
  show ?case
  proof (cases "\<exists>u. step s u")
    case True
    then obtain u where u: "step s u" by blast
    then obtain n t where run: "(step ^^ n) u t" "\<nexists>v. step t v" using less[of u] assms[OF u] by auto
    have "(step ^^ Suc n) s t" using u run(1) by (rule relpowp_Suc_I2)
    with run(2) show ?thesis by blast
  next
    case False
    then show ?thesis by (intro exI[of _ 0] exI[of _ s]) simp
  qed
qed

section \<open>Lists with a key\<close>

text \<open>
  Several vectors of the program are searched by a key (a torrent by its hash, a client by
  its address). \<open>lookupBy\<close> is the common "first element with this key" loop.
\<close>

definition lookupBy :: "('a \<Rightarrow> 'k) \<Rightarrow> 'k \<Rightarrow> 'a list \<Rightarrow> 'a option" where
  "lookupBy key k xs = List.find (\<lambda>x. key x = k) xs"

lemma lookupBy_Nil [simp]: "lookupBy key k [] = None"
  by (simp add: lookupBy_def)

lemma lookupBy_Cons [simp]:
  "lookupBy key k (x # xs) = (if key x = k then Some x else lookupBy key k xs)"
  by (simp add: lookupBy_def)

lemma lookupBy_append:
  "lookupBy key k (xs @ ys) =
     (case lookupBy key k xs of None \<Rightarrow> lookupBy key k ys | Some x \<Rightarrow> Some x)"
  by (induction xs) auto

lemma lookupBy_None_iff: "lookupBy key k xs = None \<longleftrightarrow> k \<notin> key ` set xs"
  by (induction xs) auto

lemma lookupBy_SomeD: "lookupBy key k xs = Some x \<Longrightarrow> x \<in> set xs \<and> key x = k"
  by (induction xs) (auto split: if_splits)

lemma lookupBy_Some_key: "lookupBy key k xs = Some x \<Longrightarrow> k \<in> key ` set xs"
  by (metis lookupBy_None_iff option.distinct(1))

lemma lookupBy_distinct:
  assumes "distinct (map key xs)" and "x \<in> set xs"
  shows "lookupBy key (key x) xs = Some x"
  using assms by (induction xs) auto

end
