(* ===== verification/Streams.thy ===== *)
theory Streams
  imports Prelude
begin

text \<open>
  Files and binary file streams. A file is its sequence of \<open>char\<close>s, a file system maps path
  names to files and says which paths the process may open. An input stream has a reading position and the flags \<open>eofbit\<close> and
  \<open>failbit\<close>; \<open>istream_read\<close>, \<open>istream_seekg\<close> and \<open>istream_tellg\<close> follow the standard's unformatted input
  functions. Integers are stored as the host stores them, least significant byte first
  (x86-64, the platform of the Dockerfiles).
\<close>

abbreviation NUL :: char where
  "NUL \<equiv> CHR 0x00"

record file_system =
  files :: "string \<Rightarrow> string option"
  accessible :: "string \<Rightarrow> bool"   \<comment> \<open>the process may open this path\<close>

section \<open>Little-endian integers\<close>

primrec le_bytes :: "nat \<Rightarrow> nat \<Rightarrow> string" where
  "le_bytes 0 v = []"
| "le_bytes (Suc n) v = char_of (v mod 256) # le_bytes n (v div 256)"

primrec of_le :: "string \<Rightarrow> nat" where
  "of_le [] = 0"
| "of_le (c # cs) = of_char c + 256 * of_le cs"

lemma length_le_bytes [simp]: "length (le_bytes n v) = n"
  by (induction n arbitrary: v) auto

lemma le_bytes_4: "le_bytes 4 v =
    [char_of (v mod 256), char_of (v div 256 mod 256), char_of (v div 256 div 256 mod 256),
     char_of (v div 256 div 256 div 256 mod 256)]"
proof -
  have "4 = Suc (Suc (Suc (Suc 0)))" by simp
  then show ?thesis by (simp only: le_bytes.simps)
qed

lemma of_char_less: "(of_char (c :: char) :: nat) < 256"
  by (cases c) simp

lemma of_le_bytes: "of_le (le_bytes n v) = v mod 256 ^ n"
proof (induction n arbitrary: v)
  case 0
  then show ?case by simp
next
  case (Suc n)
  have "of_le (le_bytes (Suc n) v) = v mod 256 + 256 * (v div 256 mod 256 ^ n)"
    using Suc.IH[of "v div 256"] by simp
  also have "\<dots> = v mod (256 * 256 ^ n)"
    by (simp add: mod_mult2_eq)
  finally show ?case by simp
qed

lemma le_bytes_of_le: "length cs = n \<Longrightarrow> le_bytes n (of_le cs) = cs"
proof (induction cs arbitrary: n)
  case Nil
  then show ?case by simp
next
  case (Cons c cs)
  then obtain m where m: "n = Suc m" and len: "length cs = m" by (cases n) auto
  have "(of_char c + 256 * of_le cs) mod 256 = (of_char c :: nat)"
    using of_char_less[of c] by simp
  moreover have "(of_char c + 256 * of_le cs) div 256 = of_le cs"
    using of_char_less[of c] by simp
  ultimately show ?case using m Cons.IH[OF len] by simp
qed

section \<open>Object representations\<close>

text \<open>
  The contract the (de)serialisers rely on: an object has a fixed size in bytes, and reading
  back the bytes written for it gives the object, while every block of that size is the image
  of the object it decodes to.
\<close>

locale byte_codec =
  fixes enc :: "'a \<Rightarrow> string" and dec :: "string \<Rightarrow> 'a" and width :: nat
  assumes width_enc: "length (enc x) = width"
    and dec_enc: "dec (enc x) = x"
    and enc_dec: "length bs = width \<Longrightarrow> enc (dec bs) = bs"
begin

lemma enc_inject: "enc x = enc y \<longleftrightarrow> x = y"
  by (metis dec_enc)

lemma dec_take_enc: "dec (take width (enc x @ rest)) = x"
  by (simp add: width_enc dec_enc)

lemma drop_enc: "drop width (enc x @ rest) = rest"
  by (simp add: width_enc)

lemma enc_append_inject: "enc x @ r = enc y @ r' \<longleftrightarrow> x = y \<and> r = r'"
  by (metis append_eq_append_conv enc_inject width_enc)

end

definition enc64 :: "64 word \<Rightarrow> string" where
  "enc64 w = le_bytes 8 (unat w)"

definition dec64 :: "string \<Rightarrow> 64 word" where
  "dec64 bs = of_nat (of_le bs)"

definition enc32 :: "32 word \<Rightarrow> string" where
  "enc32 w = le_bytes 4 (unat w)"

definition dec32 :: "string \<Rightarrow> 32 word" where
  "dec32 bs = of_nat (of_le bs)"

definition enc16 :: "16 word \<Rightarrow> string" where
  "enc16 w = le_bytes 2 (unat w)"

definition dec16 :: "string \<Rightarrow> 16 word" where
  "dec16 bs = of_nat (of_le bs)"

lemma of_le_less: "of_le bs < 256 ^ length bs"
proof -
  have "of_le bs = of_le (le_bytes (length bs) (of_le bs))"
    by (simp add: le_bytes_of_le)
  also have "\<dots> = of_le bs mod 256 ^ length bs"
    by (rule of_le_bytes)
  also have "\<dots> < 256 ^ length bs" by simp
  finally show ?thesis .
qed

lemma unat_of_le:
  assumes "256 ^ length bs = (2 :: nat) ^ LENGTH('a :: len)"
  shows "unat (of_nat (of_le bs) :: 'a word) = of_le bs"
  using of_le_less[of bs] assms by (simp add: unsigned_of_nat take_bit_nat_eq_self)

lemma codec_word:
  fixes w :: "'a :: len word"
  assumes "256 ^ n = (2 :: nat) ^ LENGTH('a)"
  shows "of_nat (of_le (le_bytes n (unat w))) = w"
  using unsigned_less[of w] by (simp add: of_le_bytes assms)

interpretation codec64: byte_codec enc64 dec64 8
proof unfold_locales
  fix x :: "64 word" and bs :: string
  show "length (enc64 x) = 8" by (simp add: enc64_def)
  show "dec64 (enc64 x) = x" unfolding enc64_def dec64_def by (rule codec_word) simp
  show "enc64 (dec64 bs) = bs" if "length bs = 8"
    using that unat_of_le[of bs, where 'a = 64] by (simp add: enc64_def dec64_def le_bytes_of_le)
qed

interpretation codec32: byte_codec enc32 dec32 4
proof unfold_locales
  fix x :: "32 word" and bs :: string
  show "length (enc32 x) = 4" by (simp add: enc32_def)
  show "dec32 (enc32 x) = x" unfolding enc32_def dec32_def by (rule codec_word) simp
  show "enc32 (dec32 bs) = bs" if "length bs = 4"
    using that unat_of_le[of bs, where 'a = 32] by (simp add: enc32_def dec32_def le_bytes_of_le)
qed

interpretation codec16: byte_codec enc16 dec16 2
proof unfold_locales
  fix x :: "16 word" and bs :: string
  show "length (enc16 x) = 2" by (simp add: enc16_def)
  show "dec16 (enc16 x) = x" unfolding enc16_def dec16_def by (rule codec_word) simp
  show "enc16 (dec16 bs) = bs" if "length bs = 2"
    using that unat_of_le[of bs, where 'a = 16] by (simp add: enc16_def dec16_def le_bytes_of_le)
qed

section \<open>Input streams\<close>

record istream =
  content :: string
  gpos :: nat
  eofbit :: bool
  failbit :: bool

definition istream_open :: "string \<Rightarrow> istream" where
  "istream_open bs = \<lparr>content = bs, gpos = 0, eofbit = False, failbit = False\<rparr>"

text \<open>
  \<open>in.read(buf, n)\<close>: with a flag set the sentry fails, nothing is stored and \<open>failbit\<close> is set;
  otherwise the available characters, at most \<open>n\<close>, are stored, and a short read sets both flags.
  The result is the stored prefix of the buffer.
\<close>

definition istream_read :: "nat \<Rightarrow> istream \<Rightarrow> string \<times> istream" where
  "istream_read n s =
     (if eofbit s \<or> failbit s then ([], s\<lparr>failbit := True\<rparr>)
      else let got = take n (drop (gpos s) (content s));
               s' = s\<lparr>gpos := gpos s + length got\<rparr>
           in (got, if length got < n then s'\<lparr>eofbit := True, failbit := True\<rparr> else s'))"

text \<open>
  \<open>in.seekg(p)\<close> clears \<open>eofbit\<close>, then does nothing on a failed stream; a negative position fails,
  one past the end does not. \<open>in.tellg()\<close> is \<open>-1\<close> on a failed stream.
\<close>

definition istream_seekg :: "int \<Rightarrow> istream \<Rightarrow> istream" where
  "istream_seekg p s =
     (let s = s\<lparr>eofbit := False\<rparr>
      in if failbit s then s else if p < 0 then s\<lparr>failbit := True\<rparr> else s\<lparr>gpos := nat p\<rparr>)"

definition istream_tellg :: "istream \<Rightarrow> int" where
  "istream_tellg s = (if failbit s then -1 else int (gpos s))"

text \<open>What a fixed-size read leaves in a variable: the stored prefix over its old bytes.\<close>

definition overlay :: "string \<Rightarrow> string \<Rightarrow> string" where
  "overlay got old = got @ drop (length got) old"

lemma overlay_full: "length got = length old \<Longrightarrow> overlay got old = got"
  by (simp add: overlay_def)

lemma overlay_Nil [simp]: "overlay [] old = old"
  by (simp add: overlay_def)

lemma length_overlay [simp]:
  "length (overlay got old) = max (length got) (length old)"
  by (simp add: overlay_def)

definition good :: "istream \<Rightarrow> bool" where
  "good s \<longleftrightarrow> \<not> eofbit s \<and> \<not> failbit s"

lemma istream_read_full:
  assumes "good s" and "drop (gpos s) (content s) = xs @ ys" and "length xs = n"
  obtains s' where "istream_read n s = (xs, s')" and "good s'"
    and "drop (gpos s') (content s') = ys" and "content s' = content s"
proof -
  have "drop (gpos s + n) (content s) = drop n (drop (gpos s) (content s))"
    by (simp add: add.commute)
  then have "drop (gpos s + n) (content s) = ys" using assms(2,3) by simp
  then show thesis
    using assms by (intro that[of "s\<lparr>gpos := gpos s + n\<rparr>"])
      (simp_all add: istream_read_def good_def Let_def)
qed

section \<open>Opening files\<close>

text \<open>The system sees a path up to its first NUL.\<close>

definition c_str :: "string \<Rightarrow> string" where
  "c_str s = takeWhile (\<lambda>c. c \<noteq> NUL) s"

definition stat_ok :: "string \<Rightarrow> file_system \<Rightarrow> bool" where
  "stat_ok f fs \<longleftrightarrow> files fs (c_str f) \<noteq> None"

text \<open>A stream whose file could not be opened has \<open>failbit\<close> set, so every read on it stores nothing.\<close>

definition ifstream_open :: "string \<Rightarrow> file_system \<Rightarrow> istream" where
  "ifstream_open f fs =
     (case files fs (c_str f) of
        Some bs \<Rightarrow>
          if accessible fs (c_str f) then istream_open bs
          else (istream_open [])\<lparr>failbit := True\<rparr>
      | None \<Rightarrow> (istream_open [])\<lparr>failbit := True\<rparr>)"

text \<open>
  An output stream opened with truncation, written with the concatenation of the program's
  writes and closed: the file holds exactly those bytes, and nothing happens if it could not
  be opened.
\<close>

definition ofstream_store :: "string \<Rightarrow> string \<Rightarrow> file_system \<Rightarrow> file_system" where
  "ofstream_store f bs fs =
     (if accessible fs (c_str f) then fs\<lparr>files := (files fs)(c_str f := Some bs)\<rparr> else fs)"

lemma c_str_id [simp]: "NUL \<notin> set s \<Longrightarrow> c_str s = s"
  by (auto simp: c_str_def takeWhile_eq_all_conv)

lemma c_str_replicate_NUL [simp]: "c_str (replicate n (NUL)) = []"
  by (cases n) (simp_all add: c_str_def)

lemma istream_open_simps [simp]:
  "content (istream_open bs) = bs" "gpos (istream_open bs) = 0" "good (istream_open bs)"
  by (simp_all add: istream_open_def good_def)

lemma ifstream_open_store [simp]:
  "accessible fs (c_str f) \<Longrightarrow> ifstream_open f (ofstream_store f bs fs) = istream_open bs"
  by (simp add: ifstream_open_def ofstream_store_def)

lemma stat_ok_store [simp]:
  "accessible fs (c_str f) \<Longrightarrow> stat_ok g (ofstream_store f bs fs) \<longleftrightarrow> c_str g = c_str f \<or> stat_ok g fs"
  by (simp add: stat_ok_def ofstream_store_def)

lemma accessible_store [simp]: "accessible (ofstream_store f bs fs) = accessible fs"
  by (simp add: ofstream_store_def)

lemma files_store_other [simp]:
  "g \<noteq> c_str f \<Longrightarrow> files (ofstream_store f bs fs) g = files fs g"
  by (simp add: ofstream_store_def)

end
