(* ===== verification/Messages.thy ===== *)
theory Messages
  imports Prelude
begin

unbundle bit_operations_syntax

text \<open>
  The wire vocabulary: \<open>shared/GeneralTypes.h\<close>, the messages of \<open>TcpMessage.proto\<close> and the
  helpers of \<open>shared/sharedUtils.*\<close>. A protobuf message is a record with the fields of the
  schema, a \<open>oneof\<close> a datatype, a \<open>repeated\<close> field a list. As the proto3 language defines it, reading a
  \<open>oneof\<close> member that is not set gives the member's default instance (zero, empty), and an enum
  value outside the schema is kept as its number. How bytes become messages is not in the
  repository (protobuf generates it): wherever the code calls \<open>ParseFromArray\<close> the model takes
  the parser as an argument.
\<close>

section \<open>General types\<close>

type_synonym hash_value = "64 word"
type_synonym id = int
type_synonym ip_string = string
type_synonym filename = string

definition SERVER_DEFAULT_PORT :: int where "SERVER_DEFAULT_PORT = 59095"
definition CLIENT_DEFAULT_PORT :: int where "CLIENT_DEFAULT_PORT = 59096"
definition DEFAULTSEGMENTSIZE :: int where "DEFAULTSEGMENTSIZE = 8000"

text \<open>Conversion of an unsigned value to a 32-bit \<open>int\<close>: modulo \<open>2 ^ 32\<close>, as the compilers of the build do.\<close>

definition int_of_u32 :: "32 word \<Rightarrow> int" where
  "int_of_u32 w = sint w"

definition id_of_hash :: "hash_value \<Rightarrow> id" where
  "id_of_hash h = sint (ucast h :: 32 word)"

lemma int_of_u32_eq:
  "int_of_u32 w = (if uint w < 2147483648 then uint w else uint w - 4294967296)"
proof -
  have "uint w < 4294967296" using uint_bounded[of w] by simp
  then have "uint w mod 4294967296 = uint w" by simp
  then show ?thesis
    unfolding int_of_u32_def by (simp add: sint_uint signed_take_bit_31)
qed

section \<open>Messages\<close>

datatype tcp_code =
    CONNERROR | UNKNOWN_ERROR | OK
  | CS_SEEDLIST_REQUEST | CS_SEEDLIST_RESPONSE | CS_CLIENT_UNAVAILABLE | CS_IM_A_SEED
  | CS_NEW_REQUEST | CS_NEW_RESPONSE
  | CC_LIST_REQUEST | CC_LIST_RESPONSE | CC_FRAGMENT_REQUEST | CC_FRAGMENT_RESPONSE
  | TcpCode_other int

datatype file_code =
    F_ERROR | F_DENY | F_NO_FILE | F_FRAG_MISSING | F_FRAG_COMPLETE | F_FINE
  | FileCode_other int

record torrent_message =
  tm_hashed :: hash_value
  tm_size :: "32 word"
  tm_fileName :: string

record ip_port =
  ipp_ip :: ip_string
  ipp_port :: "32 word"

record seedlist_response =
  sr_hashedTorrent :: hash_value
  ipV4Seeds :: "ip_port list"
  ipV4Peers :: "ip_port list"
  ipV6Seeds :: "ip_port list"
  ipV6Peers :: "ip_port list"

record client_unavailable =
  ipV4Addresses :: "ip_string list"
  ipV6Addresses :: "ip_string list"

record im_a_seed =
  ias_hashedTorrent :: hash_value
  ias_receiverPort :: "32 word"

record new_request =
  nrq_torrentMsg :: torrent_message
  nrq_receiverPort :: "32 word"

record new_response =
  nrs_fileCode :: file_code
  nrs_newHash :: hash_value

record list_response =
  lr_hashedTorrent :: hash_value
  lr_fileCode :: file_code
  lr_fragments :: "32 word list"

record fragment_request =
  frq_hashedTorrent :: hash_value
  frq_fragNum :: "32 word"

record fragment_response =
  frs_hashedTorrent :: hash_value
  frs_fragNum :: "32 word"
  frs_fileCode :: file_code
  frs_fragment :: string

datatype contents =
    NoContents
  | SeedlistRequest hash_value
  | SeedlistResponse seedlist_response
  | ClientUnavailable client_unavailable
  | ImASeed im_a_seed
  | NewRequest new_request
  | NewResponse new_response
  | ListRequest hash_value
  | ListResponse list_response
  | FragmentRequest fragment_request
  | FragmentResponse fragment_response

record tcp_message =
  code :: tcp_code
  contents :: contents

section \<open>Default instances and accessors\<close>

definition default_torrent_message :: torrent_message where
  "default_torrent_message = \<lparr>tm_hashed = 0, tm_size = 0, tm_fileName = []\<rparr>"

definition default_seedlist_response :: seedlist_response where
  "default_seedlist_response =
     \<lparr>sr_hashedTorrent = 0, ipV4Seeds = [], ipV4Peers = [], ipV6Seeds = [], ipV6Peers = []\<rparr>"

definition default_list_response :: list_response where
  "default_list_response = \<lparr>lr_hashedTorrent = 0, lr_fileCode = F_ERROR, lr_fragments = []\<rparr>"

definition default_fragment_response :: fragment_response where
  "default_fragment_response =
     \<lparr>frs_hashedTorrent = 0, frs_fragNum = 0, frs_fileCode = F_ERROR, frs_fragment = []\<rparr>"

definition default_message :: tcp_message where
  "default_message = \<lparr>code = CONNERROR, contents = NoContents\<rparr>"

fun seedlistRequest_hashedTorrent :: "contents \<Rightarrow> hash_value" where
  "seedlistRequest_hashedTorrent (SeedlistRequest h) = h"
| "seedlistRequest_hashedTorrent _ = 0"

fun seedlistResponse_of :: "contents \<Rightarrow> seedlist_response" where
  "seedlistResponse_of (SeedlistResponse r) = r"
| "seedlistResponse_of _ = default_seedlist_response"

fun clientUnavailable_of :: "contents \<Rightarrow> client_unavailable" where
  "clientUnavailable_of (ClientUnavailable u) = u"
| "clientUnavailable_of _ = \<lparr>ipV4Addresses = [], ipV6Addresses = []\<rparr>"

fun imASeed_hashedTorrent :: "contents \<Rightarrow> hash_value" where
  "imASeed_hashedTorrent (ImASeed m) = ias_hashedTorrent m"
| "imASeed_hashedTorrent _ = 0"

fun newRequest_torrentMsg :: "contents \<Rightarrow> torrent_message" where
  "newRequest_torrentMsg (NewRequest r) = nrq_torrentMsg r"
| "newRequest_torrentMsg _ = default_torrent_message"

fun newResponse_newHash :: "contents \<Rightarrow> hash_value" where
  "newResponse_newHash (NewResponse r) = nrs_newHash r"
| "newResponse_newHash _ = 0"

fun listRequest_hashedTorrent :: "contents \<Rightarrow> hash_value" where
  "listRequest_hashedTorrent (ListRequest h) = h"
| "listRequest_hashedTorrent _ = 0"

fun listResponse_of :: "contents \<Rightarrow> list_response" where
  "listResponse_of (ListResponse r) = r"
| "listResponse_of _ = default_list_response"

fun fragmentRequest_of :: "contents \<Rightarrow> fragment_request" where
  "fragmentRequest_of (FragmentRequest r) = r"
| "fragmentRequest_of _ = \<lparr>frq_hashedTorrent = 0, frq_fragNum = 0\<rparr>"

fun fragmentResponse_of :: "contents \<Rightarrow> fragment_response" where
  "fragmentResponse_of (FragmentResponse r) = r"
| "fragmentResponse_of _ = default_fragment_response"

text \<open>
  \<open>Get(i)\<close> and \<open>Set(i, x)\<close> of a repeated field require \<open>i\<close> to be below its size; only \<open>Add\<close> grows
  the field.
\<close>

definition repeated_get :: "nat \<Rightarrow> 'a list \<Rightarrow> 'a outcome" where
  "repeated_get i xs = (if i < length xs then Inr (xs ! i) else Inl (Undefined RepeatedIndex))"

definition repeated_set :: "nat \<Rightarrow> 'a \<Rightarrow> 'a list \<Rightarrow> 'a list outcome" where
  "repeated_set i x xs =
     (if i < length xs then Inr (xs[i := x]) else Inl (Undefined RepeatedIndex))"

lemma repeated_get_Nil [simp]: "repeated_get i [] = Inl (Undefined RepeatedIndex)"
  by (simp add: repeated_get_def)

lemma repeated_set_Nil [simp]: "repeated_set i x [] = Inl (Undefined RepeatedIndex)"
  by (simp add: repeated_set_def)

section \<open>Addresses, sockets and process exit\<close>

record ip_address =
  ip :: ip_string
  port :: "32 word"

definition IpAddress_eq :: "ip_address \<Rightarrow> ip_address \<Rightarrow> bool" where
  "IpAddress_eq a b \<longleftrightarrow> ip a = ip b \<and> port a = port b"

lemma IpAddress_eq_iff [simp]: "IpAddress_eq a b \<longleftrightarrow> a = b"
  by (auto simp: IpAddress_eq_def)

datatype sock_state =
    ERROR | CANNOT_CONNECT | INVALID_ADDRESS | CLOSED | OPEN | TIMED_OUT | SENT | RECVD

record ips =
  ipv4s :: "ip_string list"
  ipv6s :: "ip_string list"

definition guard :: "int \<Rightarrow> int outcome" where
  "guard r = (if r = -1 then Inl (Exited 1) else Inr r)"

text \<open>
  What \<open>getpeername\<close> leaves in \<open>connectedAddress\<close>: the peer's IPv4 address (its four bytes) and port, in host order. In
  \<open>sockaddr_in\<close> the port is in network order, that is byte-swapped on this host. The result of \<open>getpeername\<close> is not
  checked: if it fails, the variable keeps the bytes it had, which are any bytes too.
\<close>

record connection =
  connAddr :: "8 word \<times> 8 word \<times> 8 word \<times> 8 word"
  connPort :: "16 word"

definition example_connection :: connection where
  "example_connection = \<lparr>connAddr = (10, 0, 0, 7), connPort = 40000\<rparr>"

definition htons :: "16 word \<Rightarrow> 16 word" where
  "htons w = (push_bit 8 w OR drop_bit 8 w)"

definition inet_ntoa :: "8 word \<times> 8 word \<times> 8 word \<times> 8 word \<Rightarrow> ip_string" where
  "inet_ntoa a = (case a of (a, b, c, d) \<Rightarrow>
     to_string (unat a) @ ''.'' @ to_string (unat b) @ ''.'' @
     to_string (unat c) @ ''.'' @ to_string (unat d))"

definition getConnectedIp :: "connection \<Rightarrow> ip_string" where
  "getConnectedIp c = inet_ntoa (connAddr c)"

definition getConnectedPort :: "connection \<Rightarrow> 32 word" where
  "getConnectedPort c = (let sin_port = htons (connPort c) in ucast sin_port)"

lemma htons_htons [simp]: "htons (htons w) = w"
  by (rule bit_word_eqI) (auto simp: htons_def bit_simps)

lemma inet_ntoa_nonempty [simp]: "inet_ntoa a \<noteq> []"
  by (cases a) (simp add: inet_ntoa_def)

lemma htons_fixed_iff: "htons w = w \<longleftrightarrow> take_bit 8 w = drop_bit 8 w"
proof
  assume h: "htons w = w"
  show "take_bit 8 w = drop_bit 8 w"
  proof (rule bit_word_eqI)
    fix n
    have "bit (htons w) (8 + n) = bit w (8 + n)" using h by simp
    then show "bit (take_bit 8 w) n = bit (drop_bit 8 w) n"
      by (auto simp: htons_def bit_simps dest: bit_imp_le_length)
  qed
next
  assume t: "take_bit 8 w = drop_bit 8 w"
  show "htons w = w"
  proof (rule bit_word_eqI)
    fix n assume "n < LENGTH(16)"
    have "bit (take_bit 8 w) m = bit (drop_bit 8 w) m" for m
      using t by simp
    from this[of n] this[of "n - 8"] \<open>n < LENGTH(16)\<close>
    show "bit (htons w) n = bit w n"
      by (auto simp: htons_def bit_simps)
  qed
qed

lemma ucast_16_32_16 [simp]: "(ucast (ucast (w :: 16 word) :: 32 word) :: 16 word) = w"
  by (rule bit_word_eqI) (auto simp: bit_simps)

text \<open>
  The address the tracker records for a connection does not carry the peer's port but its
  byte-swapped image (\<open>sin_port\<close> is read without \<open>ntohs\<close>): swapping it back gives the port, and
  the two agree exactly for the ports whose two bytes are equal.
\<close>

theorem getConnectedPort_swapped:
  "htons (ucast (getConnectedPort c)) = connPort c \<and>
   (getConnectedPort c = ucast (connPort c) \<longleftrightarrow>
      take_bit 8 (connPort c) = drop_bit 8 (connPort c))"
proof
  show "htons (ucast (getConnectedPort c)) = connPort c"
    by (simp add: getConnectedPort_def)
  have "getConnectedPort c = ucast (connPort c) \<longleftrightarrow> htons (connPort c) = connPort c"
    by (metis getConnectedPort_def ucast_16_32_16)
  then show "getConnectedPort c = ucast (connPort c) \<longleftrightarrow>
      take_bit 8 (connPort c) = drop_bit 8 (connPort c)"
    by (simp add: htons_fixed_iff)
qed

end
