(* ===== verification/Torrents.thy ===== *)
theory Torrents
  imports Streams Messages
begin

text \<open>
  \<open>shared/Torrent.*\<close>: the torrent descriptor, its constructors and conversions, its hash and
  its file format. \<open>std::hash<std::string>\<close> is implementation-defined, so the hash is an
  argument of the two hashing operations.
\<close>

record torrent =
  hashed :: hash_value
  tsize :: "32 word"
  fileName :: string
  hasPath :: bool
  currentPath :: string

definition Torrent_default :: torrent where
  "Torrent_default =
     \<lparr>hashed = 0, tsize = 0, fileName = [], hasPath = False, currentPath = []\<rparr>"

definition Torrent_sized :: "32 word \<Rightarrow> string \<Rightarrow> torrent" where
  "Torrent_sized sz name =
     \<lparr>hashed = 0, tsize = sz, fileName = name, hasPath = False, currentPath = []\<rparr>"

definition Torrent_hashed :: "hash_value \<Rightarrow> 32 word \<Rightarrow> string \<Rightarrow> torrent" where
  "Torrent_hashed h sz name =
     \<lparr>hashed = h, tsize = sz, fileName = name, hasPath = False, currentPath = []\<rparr>"

definition Torrent_of_msg :: "torrent_message \<Rightarrow> torrent" where
  "Torrent_of_msg msg =
     \<lparr>hashed = tm_hashed msg, tsize = tm_size msg, fileName = tm_fileName msg,
      hasPath = False, currentPath = []\<rparr>"

definition toMsg :: "torrent \<Rightarrow> torrent_message" where
  "toMsg t = \<lparr>tm_hashed = hashed t, tm_size = tsize t, tm_fileName = fileName t\<rparr>"

definition Torrent_copy :: "torrent \<Rightarrow> torrent" where
  "Torrent_copy obj =
     \<lparr>hashed = hashed obj, tsize = tsize obj, fileName = fileName obj,
      hasPath = hasPath obj, currentPath = currentPath obj\<rparr>"

definition Torrent_eq :: "torrent \<Rightarrow> torrent \<Rightarrow> bool" where
  "Torrent_eq a b \<longleftrightarrow> hashed a = hashed b \<and> tsize a = tsize b \<and> fileName a = fileName b"

lemma Torrent_copy_id [simp]: "Torrent_copy t = t"
  by (simp add: Torrent_copy_def)

lemma Torrent_eq_equivp: "equivp Torrent_eq"
  by (auto simp: Torrent_eq_def intro!: equivpI reflpI sympI transpI)

section \<open>Hashes\<close>

definition genDefaultHash :: "(string \<Rightarrow> hash_value) \<Rightarrow> torrent \<Rightarrow> torrent" where
  "genDefaultHash std_hash t = t\<lparr>hashed := std_hash (fileName t)\<rparr>"

text \<open>\<open>fileName.append(...)\<close> changes the torrent's name in place.\<close>

definition genSaltedHash :: "(string \<Rightarrow> hash_value) \<Rightarrow> 32 word \<Rightarrow> torrent \<Rightarrow> torrent" where
  "genSaltedHash std_hash salt t =
     (let name = fileName t @ to_string (unat salt)
      in t\<lparr>fileName := name, hashed := std_hash name\<rparr>)"

section \<open>The torrent file\<close>

definition setPath :: "string \<Rightarrow> torrent \<Rightarrow> torrent" where
  "setPath path t = t\<lparr>hasPath := True, currentPath := path\<rparr>"

definition torrent_bytes :: "torrent \<Rightarrow> string" where
  "torrent_bytes t =
     (let nameSize = (of_nat (length (fileName t)) :: 32 word)
      in enc64 (hashed t) @ enc32 (tsize t) @ enc32 nameSize @ take (unat nameSize) (fileName t))"

definition Torrent_saveToFile ::
  "string \<Rightarrow> torrent \<Rightarrow> file_system \<Rightarrow> torrent \<times> file_system" where
  "Torrent_saveToFile torrentFilename t fs =
     (setPath (fileName t) t, ofstream_store torrentFilename (torrent_bytes t) fs)"

text \<open>
  \<open>nameSize\<close> is an uninitialised local of the constructor: \<open>junk\<close> is the value its memory
  holds, which a short read leaves in place, wholly or in part.
\<close>

definition Torrent_load :: "32 word \<Rightarrow> string \<Rightarrow> file_system \<Rightarrow> torrent" where
  "Torrent_load junk torrentFilename fs =
     (if stat_ok torrentFilename fs then
        let s0 = ifstream_open torrentFilename fs;
            (b1, s1) = istream_read 8 s0;
            (b2, s2) = istream_read 4 s1;
            (b3, s3) = istream_read 4 s2;
            nameSize = dec32 (overlay b3 (enc32 junk));
            (b4, s4) = istream_read (unat nameSize) s3
        in setPath torrentFilename
             (Torrent_default\<lparr>hashed := dec64 (overlay b1 (enc64 0)),
                tsize := dec32 (overlay b2 (enc32 0)),
                fileName := overlay b4 (replicate (unat nameSize) NUL)\<rparr>)
      else Torrent_default\<lparr>tsize := - 1\<rparr>)"

lemma load_layout:
  assumes "files fs (c_str f) = Some (enc64 h @ enc32 sz @ enc32 n @ name @ rest)"
    and "accessible fs (c_str f)" and "length name = unat n"
  shows "Torrent_load junk f fs =
    \<lparr>hashed = h, tsize = sz, fileName = name, hasPath = True, currentPath = f\<rparr>"
proof -
  let ?s0 = "ifstream_open f fs"
  have good0: "good ?s0" and rest0: "drop (gpos ?s0) (content ?s0)
      = enc64 h @ enc32 sz @ enc32 n @ name @ rest"
    using assms(1,2) by (simp_all add: ifstream_open_def)
  obtain s1 where r1: "istream_read 8 ?s0 = (enc64 h, s1)" and g1: "good s1"
    and d1: "drop (gpos s1) (content s1) = enc32 sz @ enc32 n @ name @ rest"
    using istream_read_full[OF good0 rest0 codec64.width_enc] by blast
  obtain s2 where r2: "istream_read 4 s1 = (enc32 sz, s2)" and g2: "good s2"
    and d2: "drop (gpos s2) (content s2) = enc32 n @ name @ rest"
    using istream_read_full[OF g1 d1 codec32.width_enc] by blast
  obtain s3 where r3: "istream_read 4 s2 = (enc32 n, s3)" and g3: "good s3"
    and d3: "drop (gpos s3) (content s3) = name @ rest"
    using istream_read_full[OF g2 d2 codec32.width_enc] by blast
  obtain s4 where r4: "istream_read (unat n) s3 = (name, s4)"
    using istream_read_full[OF g3 d3 assms(3)] by blast
  show ?thesis
    using assms r1 r2 r3 r4
    by (simp add: Torrent_load_def stat_ok_def Let_def overlay_full setPath_def Torrent_default_def
        codec64.width_enc codec64.dec_enc codec32.width_enc codec32.dec_enc)
qed

text \<open>
  C17. Saving a torrent and loading the file back gives the same hash, size and name, whatever
  the uninitialised \<open>nameSize\<close> held, with the path set to the file it was loaded from.
\<close>

theorem torrent_file_roundtrip:
  assumes "accessible fs (c_str f)" and "length (fileName t) < 2 ^ 32"
  shows "Torrent_load junk f (snd (Torrent_saveToFile f t fs)) =
           t\<lparr>hasPath := True, currentPath := f\<rparr>"
proof -
  let ?n = "of_nat (length (fileName t)) :: 32 word"
  have n: "unat ?n = length (fileName t)"
    using assms(2) by (simp add: unsigned_of_nat take_bit_nat_eq_self)
  have "files (ofstream_store f (torrent_bytes t) fs) (c_str f) =
      Some (enc64 (hashed t) @ enc32 (tsize t) @ enc32 ?n @ fileName t @ [])"
    using assms(1) n by (simp add: ofstream_store_def torrent_bytes_def Let_def)
  from load_layout[OF this, of junk] show ?thesis
    using assms(1) n by (simp add: Torrent_saveToFile_def)
qed

theorem torrent_file_roundtrip_witness:
  "Torrent_load 7 ''a.tor''
     (snd (Torrent_saveToFile ''a.tor'' (Torrent_hashed 5 9 ''x'')
       \<lparr>files = (\<lambda>_. None), accessible = (\<lambda>_. True)\<rparr>)) =
   (Torrent_hashed 5 9 ''x'')\<lparr>hasPath := True, currentPath := ''a.tor''\<rparr>"
  by (rule torrent_file_roundtrip) (simp_all add: Torrent_hashed_def)

text \<open>How many bytes three consecutive reads of the header obtain from a file of \<open>n\<close> bytes.\<close>

lemma header_reads:
  assumes "files fs (c_str f) = Some bs" and "accessible fs (c_str f)"
    and "istream_read 8 (ifstream_open f fs) = (b1, s1)" and "istream_read 4 s1 = (b2, s2)"
    and "istream_read 4 s2 = (b3, s3)"
  shows "length b3 = min 4 (length bs - 12)"
  using assms
  by (auto simp: ifstream_open_def istream_open_def istream_read_def Let_def split: if_splits)

lemma length_loaded_name:
  assumes "istream_read n s = (b, s')"
  shows "length (overlay b (replicate n c)) = n"
  using assms by (auto simp: istream_read_def Let_def split: if_splits)

lemma overlay_last_byte:
  assumes "length got < 4"
  shows "dec32 (overlay got (enc32 0)) \<noteq> dec32 (overlay got (enc32 16777216))"
proof -
  have e: "enc32 0 = [char_of (0::nat), char_of (0::nat), char_of (0::nat), char_of (0::nat)]"
    "enc32 16777216 = [char_of (0::nat), char_of (0::nat), char_of (0::nat), char_of (1::nat)]"
    by (simp_all add: enc32_def le_bytes_4)
  have "last (overlay got (enc32 0)) = char_of (0::nat)"
    "last (overlay got (enc32 16777216)) = char_of (1::nat)"
    using assms by (simp_all add: overlay_def e drop_Cons' last_drop)
  moreover have "(char_of (0::nat) :: char) \<noteq> char_of (1::nat)" by simp
  ultimately have "overlay got (enc32 0) \<noteq> overlay got (enc32 16777216)" by metis
  then show ?thesis
    using assms codec32.enc_dec[of "overlay got (enc32 0)"]
      codec32.enc_dec[of "overlay got (enc32 16777216)"]
    by (metis codec32.width_enc length_overlay max_def not_less_iff_gr_or_eq less_imp_le)
qed

text \<open>
  Loading a torrent file reads uninitialised memory exactly when the file is shorter than
  its 16-byte header: otherwise the loaded torrent does not depend on it.
\<close>

theorem Torrent_load_determinate_iff:
  assumes "files fs (c_str f) = Some bs" and "accessible fs (c_str f)"
  shows "(\<forall>j j'. Torrent_load j f fs = Torrent_load j' f fs) \<longleftrightarrow> 16 \<le> length bs"
proof -
  obtain b1 s1 where r1: "istream_read 8 (ifstream_open f fs) = (b1, s1)" by fastforce
  obtain b2 s2 where r2: "istream_read 4 s1 = (b2, s2)" by fastforce
  obtain b3 s3 where r3: "istream_read 4 s2 = (b3, s3)" by fastforce
  have len3: "length b3 = min 4 (length bs - 12)"
    by (rule header_reads[OF assms r1 r2 r3])
  have unfold: "Torrent_load j f fs =
      (case istream_read (unat (dec32 (overlay b3 (enc32 j)))) s3 of (b4, s4) \<Rightarrow>
         setPath f (Torrent_default\<lparr>hashed := dec64 (overlay b1 (enc64 0)),
           tsize := dec32 (overlay b2 (enc32 0)),
           fileName := overlay b4 (replicate (unat (dec32 (overlay b3 (enc32 j)))) NUL)\<rparr>))" for j
    using assms r1 r2 r3 by (simp add: Torrent_load_def stat_ok_def Let_def)
  have name: "length (fileName (Torrent_load j f fs)) = unat (dec32 (overlay b3 (enc32 j)))" for j
    using length_loaded_name by (auto simp: unfold setPath_def split: prod.splits)
  show ?thesis
  proof
    assume "\<forall>j j'. Torrent_load j f fs = Torrent_load j' f fs"
    then have "unat (dec32 (overlay b3 (enc32 0))) = unat (dec32 (overlay b3 (enc32 16777216)))"
      using name by metis
    then have "\<not> length b3 < 4" using overlay_last_byte by (auto simp: word_unat_eq_iff)
    then show "16 \<le> length bs" using len3 by simp
  next
    assume "16 \<le> length bs"
    then have "length b3 = 4" using len3 by simp
    then have "overlay b3 (enc32 j) = b3" for j
      by (simp add: overlay_full codec32.width_enc)
    then show "\<forall>j j'. Torrent_load j f fs = Torrent_load j' f fs"
      by (simp add: unfold)
  qed
qed

theorem Torrent_load_determinate_iff_witness:
  "\<not> (\<forall>j j'. Torrent_load j ''t'' \<lparr>files = [''t'' \<mapsto> ''short''], accessible = (\<lambda>_. True)\<rparr>
            = Torrent_load j' ''t'' \<lparr>files = [''t'' \<mapsto> ''short''], accessible = (\<lambda>_. True)\<rparr>)"
  by (subst Torrent_load_determinate_iff [where bs = "''short''"]) (simp_all add: c_str_def)

end
