(* ===== verification/Client_File.thy ===== *)
theory Client_File
  imports Torrents
begin

text \<open>
  \<open>client/file/Segment.*\<close>, \<open>PeerInfo.h\<close> and \<open>File.*\<close>: a file being shared, cut into segments of
  8000 bytes. Every public operation of \<open>File\<close> that touches the segments holds \<open>fileMutex\<close> through a
  \<open>lock_guard\<close> for its whole body and calls no other locking operation, so each is one step of the model.
  Pointers are addresses, 0 for null.
\<close>

section \<open>Segments\<close>

datatype segment_state = FREE | DOWNLOADING | COMPLETE

text \<open>The order of the enum, in which a segment advances.\<close>

instantiation segment_state :: linorder
begin

fun less_eq_segment_state :: "segment_state \<Rightarrow> segment_state \<Rightarrow> bool" where
  "less_eq_segment_state FREE _ = True"
| "less_eq_segment_state DOWNLOADING x = (x \<noteq> FREE)"
| "less_eq_segment_state COMPLETE x = (x = COMPLETE)"

definition less_segment_state :: "segment_state \<Rightarrow> segment_state \<Rightarrow> bool" where
  "less_segment_state x y = (x \<le> y \<and> \<not> y \<le> x)"

instance
proof
  fix x y z :: segment_state
  show "(x < y) = (x \<le> y \<and> \<not> y \<le> x)" by (rule less_segment_state_def)
  show "x \<le> x" by (cases x) simp_all
  show "x \<le> y \<Longrightarrow> y \<le> z \<Longrightarrow> x \<le> z" by (cases x; cases y; cases z) simp_all
  show "x \<le> y \<Longrightarrow> y \<le> x \<Longrightarrow> x = y" by (cases x; cases y) simp_all
  show "x \<le> y \<or> y \<le> x" by (cases x; cases y) simp_all
qed

end

lemma FREE_least [simp]: "FREE \<le> x" and COMPLETE_greatest [simp]: "x \<le> COMPLETE"
  by (simp_all, cases x, simp_all)

record segment =
  segId :: id
  segData :: int
  segState :: segment_state

definition Segment :: "id \<Rightarrow> int \<Rightarrow> segment_state \<Rightarrow> segment" where
  "Segment i ptr st = \<lparr>segId = i, segData = ptr, segState = st\<rparr>"

definition Segment_copy :: "segment \<Rightarrow> segment" where
  "Segment_copy s = \<lparr>segId = segId s, segData = segData s, segState = segState s\<rparr>"

definition Segment_setState :: "segment_state \<Rightarrow> segment \<Rightarrow> segment" where
  "Segment_setState st s = s\<lparr>segState := st\<rparr>"

definition Segment_tryToSetToDownload :: "segment \<Rightarrow> bool \<times> segment" where
  "Segment_tryToSetToDownload s =
     (if segState s = FREE then (True, s\<lparr>segState := DOWNLOADING\<rparr>) else (False, s))"

lemma segState_set [simp]: "segState (Segment_setState st s) = st"
  by (simp add: Segment_setState_def)

lemma segState_new [simp]: "segState (Segment i ptr st) = st"
  by (simp add: Segment_def)

section \<open>Peers and files\<close>

record peer_info =
  peerId :: id
  ipV4Address :: ip_string
  ipV6Address :: ip_string
  peerPort :: int

definition PeerInfo :: "id \<Rightarrow> ip_string \<Rightarrow> ip_string \<Rightarrow> int \<Rightarrow> peer_info" where
  "PeerInfo i v4 v6 p = \<lparr>peerId = i, ipV4Address = v4, ipV6Address = v6, peerPort = p\<rparr>"

record file_obj =
  fileTorrent :: torrent
  segments :: "segment list"
  numOfSegments :: int
  fileSize :: int
  filePath :: string
  peers :: "peer_info list"
  dataBegin :: int
  isCompleted :: bool

text \<open>The members' default initialisers.\<close>

definition File_default :: file_obj where
  "File_default =
     \<lparr>fileTorrent = Torrent_default, segments = [], numOfSegments = -1, fileSize = -1,
      filePath = [], peers = [], dataBegin = 0, isCompleted = False\<rparr>"

text \<open>\<open>File::File(const File& other) {}\<close> copies nothing.\<close>

definition File_copy :: "file_obj \<Rightarrow> file_obj" where
  "File_copy other = File_default"

text \<open>\<open>%\<close> and \<open>/\<close> on \<open>int\<close> truncate towards zero.\<close>

definition segment_count :: "int \<Rightarrow> int" where
  "segment_count n =
     (if n smod DEFAULTSEGMENTSIZE = 0 then n sdiv DEFAULTSEGMENTSIZE
      else n sdiv DEFAULTSEGMENTSIZE + 1)"

definition generateSegments :: "file_obj \<Rightarrow> file_obj" where
  "generateSegments f =
     (let n = segment_count (fileSize f)
      in f\<lparr>numOfSegments := n,
           segments := segments f @
             map (\<lambda>i. Segment (int i) (dataBegin f + DEFAULTSEGMENTSIZE * int i) FREE) [0..<nat n]\<rparr>)"

definition File :: "torrent \<Rightarrow> string \<Rightarrow> file_obj" where
  "File t path =
     (let f = generateSegments (File_default\<lparr>fileSize := int_of_u32 (tsize t), fileTorrent := t,
                filePath := path, peers := []\<rparr>)
      in f\<lparr>numOfSegments := int (length (segments f)), dataBegin := 0\<rparr>)"

definition File_getId :: "file_obj \<Rightarrow> id" where
  "File_getId f = id_of_hash (hashed (fileTorrent f))"

definition addPeer :: "peer_info \<Rightarrow> (file_obj, unit) op" where
  "addPeer p = modify (\<lambda>f. f\<lparr>peers := peers f @ [p]\<rparr>)"

definition tryToSetStateSegmentStateToDownload :: "id \<Rightarrow> (file_obj, bool) op" where
  "tryToSetStateSegmentStateToDownload i f =
     (if \<not> inRange i (segments f) then (Inl (Undefined OutOfBounds), f)
      else if segState (segments f ! nat i) = FREE then
        (Inr True, f\<lparr>segments := (segments f)
           [nat i := Segment_setState DOWNLOADING (segments f ! nat i)]\<rparr>)
      else (Inr False, f))"

text \<open>The state is written before the check that throws.\<close>

definition setSegmentState :: "id \<Rightarrow> segment_state \<Rightarrow> (file_obj, unit) op" where
  "setSegmentState i st f =
     (if \<not> inRange i (segments f) then (Inl (Undefined OutOfBounds), f)
      else
        let f' = f\<lparr>segments := (segments f)[nat i := Segment_setState st (segments f ! nat i)]\<rparr>
        in if st = DOWNLOADING then (Inl (Thrown ''logic_error''), f') else (Inr (), f'))"

definition getSegmentState :: "id \<Rightarrow> (file_obj, segment_state) op" where
  "getSegmentState i f =
     (if \<not> inRange i (segments f) then (Inl (Undefined OutOfBounds), f)
      else (Inr (segState (segments f ! nat i)), f))"

definition getSegment :: "id \<Rightarrow> (file_obj, segment) op" where
  "getSegment i f =
     (if \<not> inRange i (segments f) then (Inl (Undefined OutOfBounds), f)
      else (Inr (Segment_copy (segments f ! nat i)), f))"

fun allComplete :: "segment list \<Rightarrow> bool" where
  "allComplete [] = True"
| "allComplete (s # ss) = (if COMPLETE \<noteq> segState s then False else allComplete ss)"

definition isComplete :: "(file_obj, bool) op" where
  "isComplete f =
     (let f' = (if isCompleted f then f else f\<lparr>isCompleted := allComplete (segments f)\<rparr>)
      in (Inr (isCompleted f'), f'))"

lemma allComplete_iff: "allComplete ss \<longleftrightarrow> (\<forall>s \<in> set ss. segState s = COMPLETE)"
  by (induction ss) auto

section \<open>Cutting a file into segments\<close>

lemma ceil_div_8000:
  fixes n :: int
  shows "(n + 7999) div 8000 = (if n mod 8000 = 0 then n div 8000 else n div 8000 + 1)"
proof -
  define q r where "q = n div 8000" and "r = n mod 8000"
  have n: "n = r + q * 8000" and r: "0 \<le> r" "r < 8000" by (simp_all add: q_def r_def)
  have "(n + 7999) div 8000 = q + (r + 7999) div 8000"
    unfolding n by (simp add: add.commute add.left_commute)
  also have "(r + 7999) div 8000 = (if r = 0 then 0 else 1)"
  proof (cases "r = 0")
    case False
    have "(r + 7999) div 8000 = (r - 1 + 8000) div 8000" by simp
    also have "\<dots> = (r - 1) div 8000 + 1" by (rule div_add_self2) simp
    also have "(r - 1) div 8000 = 0" using False r by simp
    finally show ?thesis using False by simp
  qed simp
  finally show ?thesis by (simp add: q_def r_def)
qed

lemma floor_bounds_8000:
  fixes b :: int
  shows "b div 8000 * 8000 \<le> b" and "b < (b div 8000 + 1) * 8000"
proof -
  define q r where "q = b div 8000" and "r = b mod 8000"
  have "b = q * 8000 + r" "0 \<le> r" "r < 8000" by (simp_all add: q_def r_def)
  then show "b div 8000 * 8000 \<le> b" "b < (b div 8000 + 1) * 8000"
    by (simp_all add: q_def [symmetric] distrib_right)
qed

lemma segment_count_nonneg:
  assumes "0 \<le> n"
  shows "segment_count n = (n + 7999) div 8000"
proof (cases "n = 0")
  case False
  with assms have "sgn n = 1" by simp
  with assms show ?thesis
    by (simp add: segment_count_def DEFAULTSEGMENTSIZE_def signed_divide_int_def
        signed_modulo_int_def ceil_div_8000)
qed (simp add: segment_count_def DEFAULTSEGMENTSIZE_def signed_divide_int_def
    signed_modulo_int_def)

lemma segment_count_negative:
  assumes "n < 0"
  shows "0 < segment_count n \<longleftrightarrow> - 8000 < n"
proof -
  have "sgn n = -1" and "\<bar>n\<bar> = - n" using assms by simp_all
  moreover have "- n div 8000 < 1 \<longleftrightarrow> - 8000 < n"
    using assms div_pos_pos_trivial[of "- n" 8000] pos_imp_zdiv_pos_iff[of 8000 "- n"] by linarith
  moreover have "\<not> - n div 8000 < 0"
    using assms by (simp add: not_less pos_imp_zdiv_nonneg_iff)
  moreover have "\<not> 8000 dvd n" if "- 8000 < n"
    using that assms zdvd_not_zless[of "- n" 8000] by simp
  ultimately show ?thesis
    using assms by (simp add: segment_count_def DEFAULTSEGMENTSIZE_def signed_divide_int_def
        signed_modulo_int_def) auto
qed

text \<open>
  C23. A file of less than 2 GiB is cut into \<open>size / 8000\<close> segments, rounded up, numbered from 0,
  free, each pointing 8000 bytes behind the one before. No segment is empty, every byte of the
  file belongs to exactly one, and no offset overflows an \<open>int\<close>.
\<close>

theorem File_segments_cover:
  assumes "tsize t < 2 ^ 31"
  shows "numOfSegments (File t path) = (uint (tsize t) + 7999) div 8000 \<and>
    int (length (segments (File t path))) = numOfSegments (File t path) \<and>
    (\<forall>k < length (segments (File t path)).
       segments (File t path) ! k = Segment (int k) (8000 * int k) FREE \<and>
       8000 * int k < uint (tsize t) \<and> 8000 * int k < 2 ^ 31) \<and>
    (\<forall>b. 0 \<le> b \<and> b < uint (tsize t) \<longrightarrow>
       (\<exists>!k. k < length (segments (File t path)) \<and> 8000 * int k \<le> b \<and> b < 8000 * (int k + 1)))"
proof -
  define n where "n = uint (tsize t)"
  define m where "m = nat ((n + 7999) div 8000)"
  have n: "0 \<le> n" "n < 2147483648"
    using assms by (simp_all add: n_def word_less_def)
  have size: "int_of_u32 (tsize t) = n" using n by (simp add: int_of_u32_eq n_def)
  have segs: "segments (File t path) = map (\<lambda>i. Segment (int i) (8000 * int i) FREE) [0..<m]"
    and num: "numOfSegments (File t path) = int m"
    using n by (simp_all add: File_def Let_def generateSegments_def File_default_def size
        segment_count_nonneg m_def DEFAULTSEGMENTSIZE_def)
  have m: "int m = (n + 7999) div 8000" using n by (simp add: m_def)
  have last: "8000 * int k < n" if "k < m" for k
  proof -
    have "int k + 1 \<le> (n + 7999) div 8000" using that m by linarith
    moreover have "(n + 7999) div 8000 * 8000 \<le> n + 7999" by linarith
    ultimately show ?thesis by linarith
  qed
  have unique: "\<exists>!k. k < m \<and> 8000 * int k \<le> b \<and> b < 8000 * (int k + 1)"
    if b: "0 \<le> b" "b < n" for b
  proof (rule ex1I)
    let ?k = "nat (b div 8000)"
    have q: "int ?k = b div 8000" using b by simp
    have "b div 8000 * 8000 \<le> b" "b < (b div 8000 + 1) * 8000"
      by (rule floor_bounds_8000)+
    moreover have "b div 8000 < (n + 7999) div 8000" using b by linarith
    ultimately show "?k < m \<and> 8000 * int ?k \<le> b \<and> b < 8000 * (int ?k + 1)"
      using q m b by (simp add: algebra_simps nat_less_iff pos_imp_zdiv_nonneg_iff)
  next
    fix k assume "k < m \<and> 8000 * int k \<le> b \<and> b < 8000 * (int k + 1)"
    then have "b div 8000 = int k"
      by (intro int_div_pos_eq[where r = "b - 8000 * int k"]) auto
    then show "k = nat (b div 8000)" by simp
  qed
  show ?thesis
    using last n unique m by (simp add: segs num n_def [symmetric]) force
qed

lemma File_segments_cover_witness:
  "length (segments (File (Torrent_sized 8001 ''f'') ''p'')) = 2 \<and>
   segments (File (Torrent_sized 8001 ''f'') ''p'') ! 1 = Segment 1 8000 FREE"
  using File_segments_cover [of "Torrent_sized 8001 ''f''" "''p''"] by (simp add: Torrent_sized_def)

lemma File_segments:
  "segments (File t path) =
     map (\<lambda>i. Segment (int i) (8000 * int i) FREE) [0..<nat (segment_count (int_of_u32 (tsize t)))]"
  "isCompleted (File t path) = False" "peers (File t path) = []" "fileTorrent (File t path) = t"
  "filePath (File t path) = path" "fileSize (File t path) = int_of_u32 (tsize t)"
  by (simp_all add: File_def Let_def generateSegments_def File_default_def DEFAULTSEGMENTSIZE_def)

text \<open>The bytes of a file of less than 2 GiB and its segments.\<close>

lemma File_segment_bounds:
  assumes "tsize t < 2 ^ 31"
  shows "k < length (segments (File t path)) \<Longrightarrow> 8000 * int k < uint (tsize t)"
    and "uint (tsize t) \<le> 8000 * int (length (segments (File t path)))"
    and "k < length (segments (File t path)) \<Longrightarrow> segState (segments (File t path) ! k) = FREE"
proof -
  define n where "n = uint (tsize t)"
  define m where "m = nat ((n + 7999) div 8000)"
  have n: "0 \<le> n" "n < 2147483648"
    using assms by (simp_all add: n_def word_less_def)
  have size: "int_of_u32 (tsize t) = n" using n by (simp add: int_of_u32_eq n_def)
  have segs: "segments (File t path) = map (\<lambda>i. Segment (int i) (8000 * int i) FREE) [0..<m]"
    using n by (simp add: File_segments size segment_count_nonneg m_def)
  have m: "int m = (n + 7999) div 8000" using n by (simp add: m_def)
  show "8000 * int k < uint (tsize t)" if "k < length (segments (File t path))"
  proof -
    have "int k + 1 \<le> (n + 7999) div 8000" using that m by (simp add: segs)
    moreover have "(n + 7999) div 8000 * 8000 \<le> n + 7999" by linarith
    ultimately show ?thesis unfolding n_def by linarith
  qed
  have "n + 7999 < ((n + 7999) div 8000 + 1) * 8000" by (rule floor_bounds_8000)
  then show "uint (tsize t) \<le> 8000 * int (length (segments (File t path)))"
    using m by (simp add: segs n_def)
  show "segState (segments (File t path) ! k) = FREE" if "k < length (segments (File t path))"
    using that by (simp add: segs)
qed

lemma allComplete_free:
  "allComplete (map (\<lambda>i. Segment (f i) (g i) FREE) [0..<n]) \<longleftrightarrow> n = 0"
  by (cases n) (auto simp: allComplete_iff)

text \<open>
  A new file, of which nothing has been downloaded, reports itself complete exactly if it
  has no segments: when it is empty, and also when its size is at least 2 GiB (and 8000 bytes
  short of 4 GiB at most), because the unsigned size becomes a negative \<open>int\<close>.
\<close>

theorem new_file_complete_iff:
  "fst (isComplete (File t path)) = Inr True \<longleftrightarrow>
     tsize t = 0 \<or> 2 ^ 31 \<le> uint (tsize t) \<and> uint (tsize t) \<le> 2 ^ 32 - 8000"
proof -
  have "fst (isComplete (File t path)) = Inr True \<longleftrightarrow> nat (segment_count (int_of_u32 (tsize t))) = 0"
    by (simp add: isComplete_def File_segments allComplete_free)
  also have "\<dots> \<longleftrightarrow> \<not> 0 < segment_count (int_of_u32 (tsize t))" by auto
  also have "\<dots> \<longleftrightarrow> tsize t = 0 \<or> 2 ^ 31 \<le> uint (tsize t) \<and> uint (tsize t) \<le> 2 ^ 32 - 8000"
  proof (cases "uint (tsize t) < 2147483648")
    case True
    have "(uint (tsize t) + 7999) div 8000 \<le> 0 \<longleftrightarrow> uint (tsize t) = 0"
      using uint_ge_0[of "tsize t"] by linarith
    with True show ?thesis
      by (simp add: int_of_u32_eq segment_count_nonneg not_less unsigned_eq_0_iff)
  next
    case False
    have "uint (tsize t) < 4294967296" using uint_bounded[of "tsize t"] by simp
    with False show ?thesis
      by (auto simp: int_of_u32_eq segment_count_negative)
  qed
  finally show ?thesis .
qed

section \<open>Claiming and completing segments\<close>

text \<open>
  What a download worker needs from the file it writes to: a free segment can be claimed once,
  a claimed one can be completed or given back, and the other segments are untouched.
\<close>

locale segment_store =
  fixes state_of :: "'s \<Rightarrow> id \<Rightarrow> segment_state option"
    and claim :: "id \<Rightarrow> ('s, bool) op"
    and put :: "id \<Rightarrow> segment_state \<Rightarrow> ('s, unit) op"
  assumes claim_free: "state_of s i = Some FREE \<Longrightarrow>
      \<exists>s'. claim i s = (Inr True, s') \<and> state_of s' = (state_of s)(i \<mapsto> DOWNLOADING)"
    and claim_busy: "state_of s i = Some x \<Longrightarrow> x \<noteq> FREE \<Longrightarrow> claim i s = (Inr False, s)"
    and claim_bad: "state_of s i = None \<Longrightarrow> claim i s = (Inl (Undefined OutOfBounds), s)"
    and put_ok: "state_of s i = Some y \<Longrightarrow> x \<noteq> DOWNLOADING \<Longrightarrow>
      \<exists>s'. put i x s = (Inr (), s') \<and> state_of s' = (state_of s)(i \<mapsto> x)"
    and put_downloading: "state_of s i = Some y \<Longrightarrow>
      \<exists>s'. put i DOWNLOADING s = (Inl (Thrown ''logic_error''), s') \<and>
           state_of s' = (state_of s)(i \<mapsto> DOWNLOADING)"
    and put_bad: "state_of s i = None \<Longrightarrow> put i x s = (Inl (Undefined OutOfBounds), s)"
begin

lemma claim_iff: "fst (claim i s) = Inr True \<longleftrightarrow> state_of s i = Some FREE"
proof (cases "state_of s i")
  case None
  with claim_bad[OF None] show ?thesis by simp
next
  case (Some x)
  then show ?thesis using claim_free[of s i] claim_busy[OF Some] by (cases "x = FREE") auto
qed

lemma claim_other: "j \<noteq> i \<Longrightarrow> state_of (snd (claim i s)) j = state_of s j"
proof (cases "state_of s i")
  case None
  with claim_bad[OF None] show ?thesis by simp
next
  case (Some x)
  assume "j \<noteq> i"
  then show ?thesis using Some claim_free[of s i] claim_busy[OF Some] by (cases "x = FREE") auto
qed

lemma claim_keeps_busy:
  assumes "state_of s j \<noteq> Some FREE"
  shows "state_of (snd (claim i s)) j = state_of s j"
proof (cases "state_of s i = Some FREE")
  case True
  with assms have "j \<noteq> i" by auto
  then show ?thesis by (rule claim_other)
next
  case False
  then show ?thesis using claim_bad[of s i] claim_busy[of s i] by (cases "state_of s i") auto
qed

lemma claim_keeps_claimed: "state_of s i = Some FREE \<Longrightarrow>
    state_of (snd (claim i s)) i = Some DOWNLOADING"
  using claim_free[of s i] by auto

lemma put_state: "state_of s i = Some y \<Longrightarrow> state_of (snd (put i x s)) = (state_of s)(i \<mapsto> x)"
  using put_ok[of s i y x] put_downloading[of s i y] by (cases "x = DOWNLOADING") auto

lemma put_other: "j \<noteq> i \<Longrightarrow> state_of (snd (put i x s)) j = state_of s j"
  using put_state[of s i _ x] put_bad[of s i x] by (cases "state_of s i") auto

lemma put_same: "state_of (snd (put i x s)) i = (if state_of s i = None then None else Some x)"
  using put_state[of s i _ x] put_bad[of s i x] by (cases "state_of s i") auto

end

definition segment_state_of :: "file_obj \<Rightarrow> id \<Rightarrow> segment_state option" where
  "segment_state_of f i =
     (if inRange i (segments f) then Some (segState (segments f ! nat i)) else None)"

lemma segment_state_of_update:
  assumes "inRange i (segments f)"
  shows "segment_state_of (f\<lparr>segments := (segments f)
           [nat i := Segment_setState x (segments f ! nat i)]\<rparr>) =
         (segment_state_of f)(i \<mapsto> x)"
proof (rule ext)
  fix j
  show "segment_state_of (f\<lparr>segments := (segments f)
           [nat i := Segment_setState x (segments f ! nat i)]\<rparr>) j =
         ((segment_state_of f)(i \<mapsto> x)) j"
    using assms by (auto simp: segment_state_of_def inRange_def nth_list_update nat_eq_iff2)
qed

interpretation file_segments: segment_store segment_state_of
  tryToSetStateSegmentStateToDownload setSegmentState
  by unfold_locales
    (auto simp: tryToSetStateSegmentStateToDownload_def setSegmentState_def Let_def
      segment_state_of_update, auto simp: segment_state_of_def split: if_splits)

section \<open>Histories of a file\<close>

text \<open>The calls the workers, the manager and the responder make on a shared file.\<close>

datatype file_action =
    TryDownload id
  | SetState id segment_state
  | QueryState id
  | QueryComplete
  | NewPeer peer_info

primrec file_call :: "file_action \<Rightarrow> file_obj \<Rightarrow> file_obj" where
  "file_call (TryDownload i) f = snd (tryToSetStateSegmentStateToDownload i f)"
| "file_call (SetState i x) f = snd (setSegmentState i x f)"
| "file_call (QueryState i) f = snd (getSegmentState i f)"
| "file_call QueryComplete f = snd (isComplete f)"
| "file_call (NewPeer p) f = snd (addPeer p f)"

lemma query_state [simp]: "snd (getSegmentState i f) = f"
  by (simp add: getSegmentState_def)

lemma segment_state_of_isComplete [simp]:
  "segment_state_of (snd (isComplete f)) = segment_state_of f"
  by (simp add: isComplete_def Let_def segment_state_of_def fun_eq_iff)

lemma segment_state_of_addPeer [simp]: "segment_state_of (snd (addPeer p f)) = segment_state_of f"
  by (simp add: addPeer_def segment_state_of_def fun_eq_iff)

lemma file_call_keeps_busy:
  assumes "segment_state_of f i \<noteq> Some FREE" and "c \<noteq> SetState i FREE"
  shows "segment_state_of (file_call c f) i \<noteq> Some FREE"
proof (cases c)
  case (TryDownload j)
  with assms show ?thesis by (simp add: file_segments.claim_keeps_busy)
next
  case (SetState j x)
  with assms show ?thesis
    by (cases "j = i") (auto simp: file_segments.put_same file_segments.put_other)
qed (use assms in simp_all)

lemma file_calls_keep_busy:
  assumes "segment_state_of f i \<noteq> Some FREE" and "SetState i FREE \<notin> set cs"
  shows "segment_state_of (fold file_call cs f) i \<noteq> Some FREE"
  using assms
proof (induction cs arbitrary: f)
  case (Cons c cs)
  from Cons.prems have "c \<noteq> SetState i FREE" by auto
  with Cons.prems(1) have "segment_state_of (file_call c f) i \<noteq> Some FREE"
    by (rule file_call_keeps_busy)
  moreover from Cons.prems(2) have "SetState i FREE \<notin> set cs" by simp
  ultimately have "segment_state_of (fold file_call cs (file_call c f)) i \<noteq> Some FREE"
    by (rule Cons.IH)
  then show ?case by simp
qed simp

text \<open>
  A segment is downloaded by one worker at a time: once a worker has claimed a segment, no
  sequence of calls by any threads makes a second claim of it succeed unless one of them sets
  that segment free again.
\<close>

theorem segment_claimed_once:
  assumes "fst (tryToSetStateSegmentStateToDownload i f) = Inr True"
    and "SetState i FREE \<notin> set calls"
  shows "fst (tryToSetStateSegmentStateToDownload i
           (fold file_call calls (snd (tryToSetStateSegmentStateToDownload i f)))) \<noteq> Inr True"
proof -
  have "segment_state_of f i = Some FREE"
    using assms(1) by (simp add: file_segments.claim_iff)
  then have "segment_state_of (snd (tryToSetStateSegmentStateToDownload i f)) i \<noteq> Some FREE"
    using file_segments.claim_keeps_claimed by simp
  then have "segment_state_of
      (fold file_call calls (snd (tryToSetStateSegmentStateToDownload i f))) i \<noteq> Some FREE"
    using assms(2) by (rule file_calls_keep_busy)
  then show ?thesis by (simp add: file_segments.claim_iff)
qed

definition two_segments :: file_obj where
  "two_segments = File_default\<lparr>segments := [Segment 0 0 FREE, Segment 1 8000 FREE]\<rparr>"

theorem segment_claimed_once_witness:
  "fst (tryToSetStateSegmentStateToDownload 1
     (fold file_call [TryDownload 0, SetState 0 FREE, SetState 1 COMPLETE]
       (snd (tryToSetStateSegmentStateToDownload 1 two_segments)))) \<noteq> Inr True"
  by (rule segment_claimed_once)
    (simp_all add: two_segments_def tryToSetStateSegmentStateToDownload_def inRange_def)



text \<open>
  \<open>setSegmentState\<close> rejects \<open>DOWNLOADING\<close> with an exception, but only after it has written it:
  the segment is left in the rejected state, from which no worker can claim it any more.
\<close>

theorem setSegmentState_throws_after_write:
  assumes "inRange i (segments f)"
  shows "\<exists>f'. setSegmentState i DOWNLOADING f = (Inl (Thrown ''logic_error''), f') \<and>
    segment_state_of f' = (segment_state_of f)(i \<mapsto> DOWNLOADING) \<and>
    tryToSetStateSegmentStateToDownload i f' = (Inr False, f')"
proof -
  obtain y where "segment_state_of f i = Some y" using assms by (auto simp: segment_state_of_def)
  from file_segments.put_downloading[OF this] obtain f' where
    f': "setSegmentState i DOWNLOADING f = (Inl (Thrown ''logic_error''), f')"
    and st: "segment_state_of f' = (segment_state_of f)(i \<mapsto> DOWNLOADING)" by blast
  have "segment_state_of f' i = Some DOWNLOADING" using st by simp
  with file_segments.claim_busy[OF this] f' st show ?thesis by simp
qed

theorem setSegmentState_throws_after_write_witness:
  "\<exists>f'. setSegmentState 1 DOWNLOADING two_segments = (Inl (Thrown ''logic_error''), f') \<and>
    segment_state_of f' = (segment_state_of two_segments)(1 \<mapsto> DOWNLOADING) \<and>
    tryToSetStateSegmentStateToDownload 1 f' = (Inr False, f')"
  by (rule setSegmentState_throws_after_write) (simp add: two_segments_def inRange_def)

section \<open>The cached completion flag\<close>

text \<open>
  The discipline of \<open>DownloadWorker::work\<close>: only a claimed segment is completed or given back.
  The other calls are free.
\<close>

inductive worker_step :: "file_obj \<Rightarrow> file_obj \<Rightarrow> bool" where
  ws_claim: "worker_step f (file_call (TryDownload i) f)"
| ws_done: "segment_state_of f i = Some DOWNLOADING \<Longrightarrow> worker_step f (file_call (SetState i COMPLETE) f)"
| ws_release: "segment_state_of f i = Some DOWNLOADING \<Longrightarrow> worker_step f (file_call (SetState i FREE) f)"
| ws_check: "worker_step f (file_call QueryComplete f)"
| ws_peer: "worker_step f (file_call (NewPeer p) f)"

inductive_cases worker_stepE: "worker_step f g"

definition all_complete :: "file_obj \<Rightarrow> bool" where
  "all_complete f \<longleftrightarrow> (\<forall>i. segment_state_of f i \<noteq> None \<longrightarrow> segment_state_of f i = Some COMPLETE)"

definition flag_sound :: "file_obj \<Rightarrow> bool" where
  "flag_sound f \<longleftrightarrow> (isCompleted f \<longrightarrow> all_complete f)"

lemma allComplete_all_complete: "allComplete (segments f) \<longleftrightarrow> all_complete f"
proof
  assume "allComplete (segments f)"
  then show "all_complete f"
    by (auto simp: all_complete_def allComplete_iff segment_state_of_def inRange_def)
next
  assume c: "all_complete f"
  show "allComplete (segments f)"
    unfolding allComplete_iff
  proof
    fix s assume "s \<in> set (segments f)"
    then obtain k where "k < length (segments f)" and s: "s = segments f ! k"
      by (metis in_set_conv_nth)
    then have "segment_state_of f (int k) = Some (segState s)"
      by (simp add: segment_state_of_def inRange_def)
    with c show "segState s = COMPLETE" by (auto simp: all_complete_def)
  qed
qed

lemma isCompleted_unchanged [simp]:
  "isCompleted (snd (tryToSetStateSegmentStateToDownload i f)) = isCompleted f"
  "isCompleted (snd (setSegmentState i x f)) = isCompleted f"
  "isCompleted (snd (addPeer p f)) = isCompleted f"
  by (simp_all add: tryToSetStateSegmentStateToDownload_def setSegmentState_def Let_def addPeer_def)

lemma worker_step_flag_sound:
  assumes "flag_sound f" and "worker_step f g"
  shows "flag_sound g"
  using assms(2)
proof cases
  case (ws_claim i)
  with assms(1) file_segments.claim_keeps_busy show ?thesis
    by (simp add: flag_sound_def all_complete_def) (metis option.inject segment_state.distinct(3))
next
  case (ws_done i)
  with assms(1) show ?thesis
    by (auto simp: flag_sound_def all_complete_def file_segments.put_state)
next
  case (ws_release i)
  with assms(1) show ?thesis
    by (auto simp: flag_sound_def all_complete_def)
next
  case ws_check
  with assms(1) show ?thesis
    by (auto simp: flag_sound_def all_complete_def isComplete_def Let_def segment_state_of_def
        allComplete_all_complete[unfolded all_complete_def segment_state_of_def] split: if_splits)
next
  case (ws_peer p)
  with assms(1) show ?thesis by (simp add: flag_sound_def all_complete_def)
qed

definition new_file :: "file_obj \<Rightarrow> bool" where
  "new_file f \<longleftrightarrow> (\<exists>t path. f = File t path)"

interpretation worker_history: invariant_system new_file worker_step flag_sound
proof unfold_locales
  show "flag_sound f" if "new_file f" for f
    using that by (auto simp: new_file_def flag_sound_def File_segments)
  show "flag_sound g" if "flag_sound f" "worker_step f g" for f g
    using that by (rule worker_step_flag_sound)
qed

text \<open>
  C25. As long as workers keep their discipline, \<open>isComplete\<close> is exact in every state of a file:
  it answers true if and only if every segment is complete, although it caches the answer.
\<close>

theorem isComplete_exact:
  assumes "reachable new_file worker_step f"
  shows "fst (isComplete f) = Inr True \<longleftrightarrow>
           (\<forall>s \<in> set (segments f). segState s = COMPLETE)"
proof -
  have "flag_sound f" using assms by (rule worker_history.reachable_inv)
  then show ?thesis
    by (auto simp: isComplete_def Let_def flag_sound_def allComplete_all_complete [symmetric]
        allComplete_iff)
qed

theorem isComplete_exact_witness:
  "fst (isComplete (File (Torrent_sized 9 ''f'') ''p'')) = Inr True \<longleftrightarrow>
     (\<forall>s \<in> set (segments (File (Torrent_sized 9 ''f'') ''p'')). segState s = COMPLETE)"
  by (rule isComplete_exact, rule reachable_init) (auto simp: new_file_def)

section \<open>The unlocked test-and-set of a segment\<close>

text \<open>
  \<open>Segment::tryToSetToDownload\<close> reads the atomic state in one operation and writes it in another.
  Several threads, each at most once: \<open>loaded\<close> is what a thread has read, \<open>won\<close> what it returned.
\<close>

record race_state =
  shared :: segment
  loaded :: "nat \<Rightarrow> segment_state option"
  won :: "nat \<Rightarrow> bool option"

definition race_start :: "race_state \<Rightarrow> bool" where
  "race_start s \<longleftrightarrow> segState (shared s) = FREE \<and> loaded s = (\<lambda>_. None) \<and> won s = (\<lambda>_. None)"

inductive race_step :: "race_state \<Rightarrow> race_state \<Rightarrow> bool" where
  race_load: "loaded s t = None \<Longrightarrow>
     race_step s (s\<lparr>loaded := (loaded s)(t \<mapsto> segState (shared s))\<rparr>)"
| race_store: "loaded s t = Some FREE \<Longrightarrow> won s t = None \<Longrightarrow>
     race_step s (s\<lparr>shared := (shared s)\<lparr>segState := DOWNLOADING\<rparr>, won := (won s)(t \<mapsto> True)\<rparr>)"
| race_lose: "loaded s t = Some x \<Longrightarrow> x \<noteq> FREE \<Longrightarrow> won s t = None \<Longrightarrow>
     race_step s (s\<lparr>won := (won s)(t \<mapsto> False)\<rparr>)"

text \<open>
  Run alone, \<open>tryToSetToDownload\<close> succeeds exactly on a free segment and a second call fails;
  run by two threads without the lock of \<open>File\<close> it can succeed for both.
\<close>

theorem tryToSetToDownload_races:
  "(fst (Segment_tryToSetToDownload s) \<longleftrightarrow> segState s = FREE) \<and>
   \<not> fst (Segment_tryToSetToDownload (snd (Segment_tryToSetToDownload s))) \<and>
   (\<exists>r. reachable race_start race_step r \<and> won r 0 = Some True \<and> won r 1 = Some True)"
proof (intro conjI)
  let ?s0 = "\<lparr>shared = Segment 0 0 FREE, loaded = (\<lambda>_. None), won = (\<lambda>_. None)\<rparr> :: race_state"
  let ?s1 = "?s0\<lparr>loaded := [0 \<mapsto> FREE]\<rparr>"
  let ?s2 = "?s0\<lparr>loaded := [0 \<mapsto> FREE, 1 \<mapsto> FREE]\<rparr>"
  let ?s3 = "?s2\<lparr>shared := Segment 0 0 DOWNLOADING, won := [0 \<mapsto> True]\<rparr>"
  let ?s4 = "?s2\<lparr>shared := Segment 0 0 DOWNLOADING, won := [0 \<mapsto> True, 1 \<mapsto> True]\<rparr>"
  have "reachable race_start race_step ?s0"
    by (rule reachable_init) (simp add: race_start_def)
  moreover have "race_step ?s0 ?s1" using race_load[of ?s0 0] by simp
  moreover have "race_step ?s1 ?s2" using race_load[of ?s1 1] by simp
  moreover have "race_step ?s2 ?s3" using race_store[of ?s2 0] by (simp add: Segment_def)
  moreover have "race_step ?s3 ?s4" using race_store[of ?s3 1] by (simp add: Segment_def)
  ultimately have "reachable race_start race_step ?s4" by (blast intro: reachable_step)
  then show "\<exists>r. reachable race_start race_step r \<and> won r 0 = Some True \<and> won r 1 = Some True"
    by (intro exI[of _ ?s4]) simp
qed (simp_all add: Segment_tryToSetToDownload_def)

end
