(* ===== verification/File_Manager.thy ===== *)
theory File_Manager
  imports Client_File
begin

text \<open>
  \<open>client/file/FileManager.*\<close>: the read and write locks on file names, and the reading and
  writing of segments. The file system is part of the state. A function that would sleep on the
  condition variable has the result \<open>None\<close>; the two critical sections of \<open>readLock\<close> and the one of
  \<open>writeLock\<close> are definitions of their own, because other threads can run between them.
\<close>

record opened_file =
  of_name :: filename
  of_stream :: istream

record file_manager =
  disk :: file_system
  readLockedFiles :: "opened_file list"
  writeLockedFiles :: "filename list"

definition FileManager :: "file_system \<Rightarrow> file_manager" where
  "FileManager fs = \<lparr>disk = fs, readLockedFiles = [], writeLockedFiles = []\<rparr>"

text \<open>The destructor deletes what the first table points to and empties both.\<close>

definition FileManager_destroy :: "file_manager \<Rightarrow> file_manager" where
  "FileManager_destroy m = m\<lparr>readLockedFiles := [], writeLockedFiles := []\<rparr>"

section \<open>Locks\<close>

definition writeLocked :: "filename \<Rightarrow> file_manager \<Rightarrow> bool" where
  "writeLocked f m = list_ex (\<lambda>w. w = f) (writeLockedFiles m)"

definition readLocked :: "filename \<Rightarrow> file_manager \<Rightarrow> bool" where
  "readLocked f m = list_ex (\<lambda>r. of_name r = f) (readLockedFiles m)"

text \<open>The second half of \<open>readLock\<close>, under \<open>readLockMutex\<close>, once no writer was seen.\<close>

definition readLock_enter :: "filename \<Rightarrow> file_manager \<Rightarrow> bool \<times> file_manager" where
  "readLock_enter f m =
     (if readLocked f m then (True, m)
      else let s = ifstream_open f (disk m)
           in if failbit s then (False, m)
              else (True, m\<lparr>readLockedFiles := readLockedFiles m @ [\<lparr>of_name = f, of_stream = s\<rparr>]\<rparr>))"

definition readLock :: "filename \<Rightarrow> file_manager \<Rightarrow> (bool \<times> file_manager) option" where
  "readLock f m = (if writeLocked f m then None else Some (readLock_enter f m))"

text \<open>
  The loop of \<open>readUnlock\<close> erases the entry it finds and then increments the erased iterator,
  which \<open>erase\<close> has invalidated.
\<close>

fun erase_stream :: "filename \<Rightarrow> opened_file list \<Rightarrow> opened_file list" where
  "erase_stream f [] = []"
| "erase_stream f (r # rs) = (if of_name r = f then rs else r # erase_stream f rs)"

definition readUnlock :: "filename \<Rightarrow> (file_manager, unit) op" where
  "readUnlock f m =
     (if readLocked f m then
        (Inl (Undefined InvalidIterator),
         m\<lparr>readLockedFiles := erase_stream f (readLockedFiles m)\<rparr>)
      else (Inr (), m))"

definition writeLock :: "filename \<Rightarrow> file_manager \<Rightarrow> file_manager option" where
  "writeLock f m =
     (if readLocked f m then None
      else Some (m\<lparr>writeLockedFiles := writeLockedFiles m @ [f]\<rparr>))"

text \<open>The first entry goes; the flag says whether waiting threads are notified.\<close>

fun erase_first :: "filename \<Rightarrow> filename list \<Rightarrow> filename list option" where
  "erase_first f [] = None"
| "erase_first f (g # gs) = (if g = f then Some gs else map_option ((#) g) (erase_first f gs))"

definition writeUnlock :: "filename \<Rightarrow> file_manager \<Rightarrow> bool \<times> file_manager" where
  "writeUnlock f m =
     (case erase_first f (writeLockedFiles m) of
        Some gs \<Rightarrow> (True, m\<lparr>writeLockedFiles := gs\<rparr>)
      | None \<Rightarrow> (False, m))"

section \<open>Files\<close>

text \<open>Writing behind the end of a file fills the gap with zeros.\<close>

definition write_at :: "nat \<Rightarrow> string \<Rightarrow> string \<Rightarrow> string" where
  "write_at pos bs old =
     take pos (old @ replicate (pos - length old) NUL) @ bs @ drop (pos + length bs) old"

definition set_file :: "filename \<Rightarrow> string \<Rightarrow> file_manager \<Rightarrow> file_manager" where
  "set_file f bs m = m\<lparr>disk := (disk m)\<lparr>files := (files (disk m))(c_str f \<mapsto> bs)\<rparr>\<rparr>"

definition fits_int :: "int \<Rightarrow> bool" where
  "fits_int n \<longleftrightarrow> - (2 ^ 31) \<le> n \<and> n < 2 ^ 31"

text \<open>
  \<open>storeSegmentToFile\<close>. The stream is opened for reading and writing, which needs an existing
  file. \<open>write\<close> always takes 8000 bytes from the string, whose storage has one byte (the
  terminator) more than its length. A negative offset fails \<open>seekp\<close>, and then nothing is written.
\<close>

definition storeSegmentToFile ::
  "filename \<Rightarrow> string \<Rightarrow> id \<Rightarrow> string \<Rightarrow> file_manager \<Rightarrow> (unit outcome \<times> file_manager) option" where
  "storeSegmentToFile f path segmentId segmentData m =
     (case writeLock f m of
        None \<Rightarrow> None
      | Some m1 \<Rightarrow>
          (case files (disk m1) (c_str f) of
             None \<Rightarrow> Some (Inr (), m1)
           | Some old \<Rightarrow>
               if \<not> accessible (disk m1) (c_str f) then Some (Inr (), m1)
               else
                 let pos = segmentId * DEFAULTSEGMENTSIZE
                 in if \<not> fits_int pos then Some (Inl (Undefined SignedOverflow), m1)
                    else if pos < 0 then Some (Inr (), snd (writeUnlock f m1))
                    else if nat DEFAULTSEGMENTSIZE > length segmentData + 1 then
                      Some (Inl (Undefined OutOfBounds), m1)
                    else
                      let bs = take (nat DEFAULTSEGMENTSIZE) (segmentData @ [NUL])
                      in Some (Inr (), snd (writeUnlock f (set_file f (write_at (nat pos) bs old) m1)))))"

text \<open>
  \<open>storeFile\<close> writes to a file named \<open>dummy\<close> from the file's \<open>dataBegin\<close>. \<open>memory\<close> gives the bytes at an
  address, or nothing if they are not all valid memory; a negative size writes nothing.
\<close>

definition storeFile ::
  "(int \<Rightarrow> nat \<Rightarrow> string option) \<Rightarrow> file_obj \<Rightarrow> file_manager \<Rightarrow> (unit outcome \<times> file_manager) option" where
  "storeFile memory file m =
     (case writeLock ''dummy'' m of
        None \<Rightarrow> None
      | Some m1 \<Rightarrow>
          if \<not> accessible (disk m1) ''dummy'' then Some (Inr (), m1)
          else
            let truncated = set_file ''dummy'' [] m1
            in if fileSize file \<le> 0 then Some (Inr (), snd (writeUnlock ''dummy'' truncated))
               else (case memory (dataBegin file) (nat (fileSize file)) of
                       None \<Rightarrow> Some (Inl (Undefined NullPointer), truncated)
                     | Some bs \<Rightarrow>
                         Some (Inr (), snd (writeUnlock ''dummy'' (set_file ''dummy'' bs truncated)))))"

definition createLocalFile :: "torrent \<Rightarrow> file_manager \<Rightarrow> file_manager" where
  "createLocalFile t m =
     m\<lparr>disk := ofstream_store (fileName t) (replicate (unat (tsize t)) NUL) (disk m)\<rparr>"

text \<open>
  \<open>getSegment\<close>: the entry of the first open stream with the name is used, and its flags stay as
  the read leaves them; with no such entry the pointer \<open>of\<close> is uninitialised. \<open>mem\<close> says whether
  \<open>malloc\<close> succeeds. The result is the 8000-byte buffer, or null.
\<close>

fun update_stream :: "filename \<Rightarrow> istream \<Rightarrow> opened_file list \<Rightarrow> opened_file list" where
  "update_stream f s [] = []"
| "update_stream f s (r # rs) =
     (if of_name r = f then r\<lparr>of_stream := s\<rparr> # rs else r # update_stream f s rs)"

definition put_stream :: "filename \<Rightarrow> istream \<Rightarrow> file_manager \<Rightarrow> file_manager" where
  "put_stream f s m = m\<lparr>readLockedFiles := update_stream f s (readLockedFiles m)\<rparr>"

definition stream_of :: "opened_file \<Rightarrow> file_manager \<Rightarrow> istream" where
  "stream_of r m = (of_stream r)\<lparr>content :=
     (case files (disk m) (c_str (of_name r)) of Some bs \<Rightarrow> bs | None \<Rightarrow> content (of_stream r))\<rparr>"

definition fm_getSegment ::
  "bool \<Rightarrow> filename \<Rightarrow> id \<Rightarrow> nat \<Rightarrow> (file_manager, string option) op" where
  "fm_getSegment mem f segmentId segmentSize m =
     (if segmentSize > nat DEFAULTSEGMENTSIZE then (Inr None, m)
      else case lookupBy of_name f (readLockedFiles m) of
             None \<Rightarrow> (Inl (Undefined Indeterminate), m)
           | Some r \<Rightarrow>
               let pos = segmentId * DEFAULTSEGMENTSIZE
               in if \<not> fits_int pos then (Inl (Undefined SignedOverflow), m)
                  else
                    let s1 = istream_seekg pos (stream_of r m)
                    in if istream_tellg s1 \<noteq> pos then (Inr None, put_stream f s1 m)
                       else if \<not> mem then (Inr None, put_stream f s1 m)
                       else
                         let (got, s2) = istream_read segmentSize s1
                         in if failbit s2 \<or> (eofbit s2 \<and> \<not> failbit s2) then
                              (Inr None, put_stream f s2 m)
                            else (Inr (Some (got @ replicate (nat DEFAULTSEGMENTSIZE - segmentSize) NUL)),
                                  put_stream f s2 m))"

section \<open>Writing a file in blocks\<close>

text \<open>
  The contract of a store of numbered blocks: putting a block changes that block and no other.
  Writing every block of a set once, in any order, then leaves the file the blocks describe.
\<close>

locale block_store =
  fixes put :: "nat \<Rightarrow> 'b \<Rightarrow> 's \<Rightarrow> 's" and get :: "nat \<Rightarrow> 's \<Rightarrow> 'b" and fits :: "'b \<Rightarrow> bool"
  assumes get_put: "fits b \<Longrightarrow> get i (put i b s) = b"
    and get_put_other: "fits b \<Longrightarrow> i \<noteq> j \<Longrightarrow> get j (put i b s) = get j s"
begin

definition put_all :: "(nat \<Rightarrow> 'b) \<Rightarrow> nat list \<Rightarrow> 's \<Rightarrow> 's" where
  "put_all blocks order s = fold (\<lambda>i. put i (blocks i)) order s"

lemma get_put_all:
  assumes "\<And>i. i \<in> set order \<Longrightarrow> fits (blocks i)"
  shows "get j (put_all blocks order s) = (if j \<in> set order then blocks j else get j s)"
  using assms
proof (induction order arbitrary: s)
  case Nil
  then show ?case by (simp add: put_all_def)
next
  case (Cons i order)
  have "get j (put_all blocks (i # order) s) =
      (if j \<in> set order then blocks j else get j (put i (blocks i) s))"
    using Cons.IH[of "put i (blocks i) s"] Cons.prems by (simp add: put_all_def)
  then show ?case
    using Cons.prems[of i] by (cases "i = j") (auto simp: get_put get_put_other)
qed

end

definition block :: "nat \<Rightarrow> string \<Rightarrow> string" where
  "block i bs = map (\<lambda>k. if k < length bs then bs ! k else NUL) [i * 8000..<Suc i * 8000]"

definition put_block :: "nat \<Rightarrow> string \<Rightarrow> string \<Rightarrow> string" where
  "put_block i b bs = write_at (i * 8000) b bs"

lemma length_block [simp]: "length (block i bs) = 8000"
  by (simp add: block_def)

lemma length_write_at: "length (write_at pos b old) = max (pos + length b) (length old)"
  by (simp add: write_at_def)

lemma nth_write_at:
  assumes "k < length (write_at pos b old)"
  shows "write_at pos b old ! k =
    (if k < pos then if k < length old then old ! k else NUL
     else if k < pos + length b then b ! (k - pos) else old ! k)"
  using assms by (auto simp: write_at_def nth_append min_def)

lemma nth_block: "k < 8000 \<Longrightarrow>
    block i bs ! k = (if i * 8000 + k < length bs then bs ! (i * 8000 + k) else NUL)"
  by (simp add: block_def add.commute)

lemma block_put_block_same:
  assumes "length b = 8000"
  shows "block i (put_block i b bs) = b"
  using assms
  by (intro nth_equalityI) (auto simp: nth_block put_block_def length_write_at nth_write_at)

lemma block_put_block_other:
  assumes "length b = 8000" and "i \<noteq> j"
  shows "block j (put_block i b bs) = block j bs"
proof (intro nth_equalityI)
  fix k assume "k < length (block j (put_block i b bs))"
  then have k: "k < 8000" by simp
  have "j * 8000 + k < i * 8000 \<or> i * 8000 + 8000 \<le> j * 8000 + k"
    using assms(2) k by (cases "i < j") auto
  then show "block j (put_block i b bs) ! k = block j bs ! k"
    using assms(1) k by (auto simp: nth_block put_block_def length_write_at nth_write_at)
qed simp

interpretation file_blocks: block_store put_block block "\<lambda>b. length b = 8000"
  by unfold_locales (simp_all add: block_put_block_same block_put_block_other)

lemma concat_blocks: "length bs = n * 8000 \<Longrightarrow> bs = concat (map (\<lambda>i. block i bs) [0..<n])"
proof -
  have len: "length (concat (map (\<lambda>i. block i bs) [0..<n])) = n * 8000" for n
    by (induction n) simp_all
  have nth: "k < n * 8000 \<Longrightarrow> concat (map (\<lambda>i. block i bs) [0..<n]) ! k =
      (if k < length bs then bs ! k else NUL)" for k n
    by (induction n) (auto simp: nth_append len nth_block)
  assume "length bs = n * 8000"
  then show ?thesis by (intro nth_equalityI) (simp_all add: len nth)
qed

section \<open>Storing and reading segments\<close>

text \<open>The calls of \<open>storeSegmentToFile\<close> for one file, one after another.\<close>

fun storeSegments ::
  "filename \<Rightarrow> string \<Rightarrow> (id \<times> string) list \<Rightarrow> file_manager \<Rightarrow> (unit outcome \<times> file_manager) option" where
  "storeSegments f path [] m = Some (Inr (), m)"
| "storeSegments f path ((i, d) # ds) m =
     (case storeSegmentToFile f path i d m of
        Some (Inr _, m') \<Rightarrow> storeSegments f path ds m'
      | r \<Rightarrow> r)"

lemma erase_first_append: "f \<notin> set gs \<Longrightarrow> erase_first f (gs @ [f]) = Some gs"
  by (induction gs) auto

lemma set_file_simps [simp]:
  "files (disk (set_file f bs m)) = (files (disk m))(c_str f \<mapsto> bs)"
  "accessible (disk (set_file f bs m)) = accessible (disk m)"
  "readLockedFiles (set_file f bs m) = readLockedFiles m"
  "writeLockedFiles (set_file f bs m) = writeLockedFiles m"
  "readLocked g (set_file f bs m) = readLocked g m"
  "writeLocked g (set_file f bs m) = writeLocked g m"
  by (simp_all add: set_file_def readLocked_def writeLocked_def)

lemma set_file_twice [simp]: "set_file f b' (set_file f b m) = set_file f b' m"
  by (simp add: set_file_def)

definition unlocked :: "filename \<Rightarrow> file_manager \<Rightarrow> bool" where
  "unlocked f m \<longleftrightarrow> \<not> readLocked f m \<and> \<not> writeLocked f m"

definition openable :: "filename \<Rightarrow> string \<Rightarrow> file_manager \<Rightarrow> bool" where
  "openable f bs m \<longleftrightarrow> files (disk m) (c_str f) = Some bs \<and> accessible (disk m) (c_str f)"

lemma unlocked_set_file [simp]: "unlocked g (set_file f bs m) = unlocked g m"
  by (simp add: unlocked_def)

lemma openable_set_file [simp]: "openable f bs (set_file f bs m) = accessible (disk m) (c_str f)"
  by (simp add: openable_def)

text \<open>A string of at least 7999 characters is stored, cut to a segment.\<close>

lemma storeSegmentToFile_long:
  assumes "unlocked f m" and "openable f old m" and "int i * 8000 < 2 ^ 31" and "7999 \<le> length d"
  shows "storeSegmentToFile f path (int i) d m =
    Some (Inr (), set_file f (put_block i (take 8000 (d @ [NUL])) old) m)"
proof -
  have "erase_first f (writeLockedFiles m @ [f]) = Some (writeLockedFiles m)"
    using assms(1) by (intro erase_first_append) (auto simp: unlocked_def writeLocked_def list_ex_iff)
  then have "snd (writeUnlock f (set_file f b (m\<lparr>writeLockedFiles := writeLockedFiles m @ [f]\<rparr>)))
      = set_file f b m" for b
    by (simp add: writeUnlock_def set_file_def)
  then show ?thesis
    using assms by (simp add: storeSegmentToFile_def writeLock_def unlocked_def openable_def
        fits_int_def DEFAULTSEGMENTSIZE_def put_block_def nat_mult_distrib Let_def)
qed

lemma storeSegmentToFile_full:
  assumes "unlocked f m" and "openable f old m"
    and "int i * 8000 < 2 ^ 31" and "length d = 8000"
  shows "storeSegmentToFile f path (int i) d m = Some (Inr (), set_file f (put_block i d old) m)"
  using storeSegmentToFile_long[OF assms(1-3), of d path] assms(4) by simp

lemma storeSegments_full:
  assumes "unlocked f m" and "openable f old m"
    and "\<And>i. i \<in> set order \<Longrightarrow> int i * 8000 < 2 ^ 31 \<and> length (data i) = 8000"
  shows "storeSegments f path (map (\<lambda>i. (int i, data i)) order) m =
    Some (Inr (), set_file f (file_blocks.put_all data order old) m)"
  using assms
proof (induction order arbitrary: m old)
  case Nil
  then have "set_file f old m = m"
    by (cases m) (simp add: set_file_def openable_def fun_upd_idem)
  with Nil show ?case by (simp add: file_blocks.put_all_def)
next
  case (Cons i order)
  let ?m = "set_file f (put_block i (data i) old) m"
  have "storeSegmentToFile f path (int i) (data i) m = Some (Inr (), ?m)"
    using Cons.prems by (intro storeSegmentToFile_full) auto
  moreover have "storeSegments f path (map (\<lambda>i. (int i, data i)) order) ?m =
      Some (Inr (), set_file f (file_blocks.put_all data order (put_block i (data i) old)) ?m)"
    using Cons.prems by (intro Cons.IH) (auto simp: openable_def)
  ultimately show ?case by (simp add: file_blocks.put_all_def)
qed

lemma length_put_blocks:
  assumes "\<And>i. i \<in> set order \<Longrightarrow> i < n \<and> length (data i) = 8000" and "length bs \<le> n * 8000"
  shows "length (file_blocks.put_all data order bs) \<le> n * 8000 \<and>
    length bs \<le> length (file_blocks.put_all data order bs) \<and>
    (\<forall>i \<in> set order. Suc i * 8000 \<le> length (file_blocks.put_all data order bs))"
  using assms
proof (induction order arbitrary: bs)
  case Nil
  then show ?case by (simp add: file_blocks.put_all_def)
next
  case (Cons i order)
  have i: "i < n" "length (data i) = 8000" using Cons.prems(1) by auto
  have len: "length (put_block i (data i) bs) = max (Suc i * 8000) (length bs)"
    using i by (simp add: put_block_def length_write_at)
  have "Suc i * 8000 \<le> n * 8000" using i by (intro mult_le_mono1) simp
  then have "length (put_block i (data i) bs) \<le> n * 8000" using len Cons.prems(2) by simp
  with Cons.IH[of "put_block i (data i) bs"] Cons.prems(1) len show ?case
    by (auto simp: file_blocks.put_all_def)
qed

lemma put_all_blocks:
  assumes "set order = {..<n}" and "\<And>i. i < n \<Longrightarrow> length (data i) = 8000"
    and "length bs \<le> n * 8000"
  shows "file_blocks.put_all data order bs = concat (map data [0..<n])"
proof -
  let ?file = "file_blocks.put_all data order bs"
  note b = length_put_blocks[of order n data bs]
  have le: "length ?file \<le> n * 8000" using b assms by auto
  have "n * 8000 \<le> length ?file"
  proof (cases n)
    case (Suc k)
    then have "k \<in> set order" using assms(1) by simp
    then show ?thesis using b assms Suc by auto
  qed simp
  with le have "length ?file = n * 8000" by simp
  from concat_blocks[OF this]
  have "?file = concat (map (\<lambda>i. block i ?file) [0..<n])" .
  also have "map (\<lambda>i. block i ?file) [0..<n] = map data [0..<n]"
  proof (intro map_cong refl)
    fix i assume "i \<in> set [0..<n]"
    then have "i \<in> set order" using assms(1) by simp
    then show "block i ?file = data i"
      using file_blocks.get_put_all[of order data i bs] assms(1,2) by simp
  qed
  finally show ?thesis .
qed

lemma createLocalFile_simps [simp]:
  "readLockedFiles (createLocalFile t m) = readLockedFiles m"
  "writeLockedFiles (createLocalFile t m) = writeLockedFiles m"
  "unlocked f (createLocalFile t m) = unlocked f m"
  by (simp_all add: createLocalFile_def unlocked_def readLocked_def writeLocked_def)

lemma openable_createLocalFile:
  "accessible (disk m) (c_str (fileName t)) \<Longrightarrow>
   openable (fileName t) (replicate (unat (tsize t)) NUL) (createLocalFile t m)"
  by (simp add: openable_def createLocalFile_def ofstream_store_def)

text \<open>
  C1. Storing every segment of a torrent's file, in any order and with any repetitions, after
  \<open>createLocalFile\<close> made the file, leaves the file holding the segments' data in the order of
  their ids; its length is a whole number of segments, whatever the torrent's size. No lock is
  left behind.
\<close>

theorem storeSegments_reassemble:
  assumes "unlocked (fileName t) m" and "accessible (disk m) (c_str (fileName t))"
    and "unat (tsize t) \<le> n * 8000" and "n * 8000 \<le> 2 ^ 31"
    and "set order = {..<n}" and "\<And>i. i < n \<Longrightarrow> length (data i) = 8000"
  shows "\<exists>m'. storeSegments (fileName t) path (map (\<lambda>i. (int i, data i)) order) (createLocalFile t m)
      = Some (Inr (), m') \<and>
    files (disk m') = (files (disk m))(c_str (fileName t) \<mapsto> concat (map data [0..<n])) \<and>
    readLockedFiles m' = readLockedFiles m \<and> writeLockedFiles m' = writeLockedFiles m"
proof -
  let ?m = "createLocalFile t m" and ?z = "replicate (unat (tsize t)) NUL"
  have range: "int i * 8000 < 2 ^ 31 \<and> length (data i) = 8000" if "i \<in> set order" for i
  proof -
    have "i < n" using that assms(5) by simp
    then have "Suc i * 8000 \<le> n * 8000" by (intro mult_le_mono1) simp
    with \<open>i < n\<close> show ?thesis using assms(4,6) by simp
  qed
  have "storeSegments (fileName t) path (map (\<lambda>i. (int i, data i)) order) ?m =
      Some (Inr (), set_file (fileName t) (file_blocks.put_all data order ?z) ?m)"
    using assms(1,2) range by (intro storeSegments_full) (simp_all add: openable_createLocalFile)
  moreover have "file_blocks.put_all data order ?z = concat (map data [0..<n])"
    using assms by (intro put_all_blocks) simp_all
  ultimately show ?thesis
    using assms(2) by (simp add: createLocalFile_def ofstream_store_def set_file_def)
qed

definition example_manager :: "string \<Rightarrow> file_manager" where
  "example_manager bs = FileManager \<lparr>files = [''f'' \<mapsto> bs], accessible = (\<lambda>_. True)\<rparr>"

lemma storeSegments_reassemble_witness:
  "\<exists>m'. storeSegments ''f'' [] (map (\<lambda>i. (int i, replicate 8000 (char_of i))) [2, 0, 1, 0])
      (createLocalFile (Torrent_sized 16001 ''f'') (example_manager [])) = Some (Inr (), m') \<and>
    files (disk m') = (files (disk (example_manager [])))(''f'' \<mapsto>
      concat (map (\<lambda>i. replicate 8000 (char_of i)) [0..<3])) \<and>
    readLockedFiles m' = [] \<and> writeLockedFiles m' = []"
proof -
  have order: "set [2, 0, 1, 0] = {..<3 :: nat}" by auto
  show ?thesis
    using storeSegments_reassemble [of "Torrent_sized 16001 ''f''" "example_manager []" 3
        "[2, 0, 1, 0]" "\<lambda>i. replicate 8000 (char_of i)" "[]", OF _ _ _ _ order]
    by (simp add: Torrent_sized_def example_manager_def FileManager_def unlocked_def readLocked_def
        writeLocked_def del: storeSegments.simps list.map upt_rec_numeral)
qed

lemma lookupBy_readLocked: "readLocked f m \<longleftrightarrow> lookupBy of_name f (readLockedFiles m) \<noteq> None"
  by (auto simp: readLocked_def lookupBy_None_iff list_ex_iff)

lemma lookup_update_stream:
  "lookupBy of_name f rs = Some r \<Longrightarrow>
   lookupBy of_name f (update_stream f s rs) = Some (r\<lparr>of_stream := s\<rparr>)"
  by (induction rs) auto

lemma readLock_fresh:
  assumes "unlocked f m" and "openable f bs m"
  shows "readLock f m = Some (True,
    m\<lparr>readLockedFiles := readLockedFiles m @ [\<lparr>of_name = f, of_stream = istream_open bs\<rparr>]\<rparr>)"
  using assms by (simp add: readLock_def readLock_enter_def unlocked_def openable_def
      ifstream_open_def istream_open_def)

text \<open>The read of a segment that lies in the file, through the first stream opened on the name.\<close>

lemma fm_getSegment_inside:
  assumes "lookupBy of_name f (readLockedFiles m) = Some r" and "\<not> failbit (of_stream r)"
    and "files (disk m) (c_str f) = Some bs" and "Suc j * 8000 \<le> length bs"
    and "int j * 8000 < 2 ^ 31"
  shows "fst (fm_getSegment True f (int j) 8000 m) = Inr (Some (block j bs))"
proof -
  have "of_name r = f" using lookupBy_SomeD[OF assms(1)] by simp
  then have s: "content (stream_of r m) = bs" "\<not> failbit (stream_of r m)"
    using assms by (simp_all add: stream_of_def)
  have "take 8000 (drop (j * 8000) bs) = block j bs"
    using assms(4) by (intro nth_equalityI) (simp_all add: nth_block)
  then show ?thesis
    using s assms by (simp add: fm_getSegment_def fits_int_def DEFAULTSEGMENTSIZE_def Let_def
        istream_seekg_def istream_tellg_def istream_read_def nat_mult_distrib min_def)
qed

text \<open>
  C26. A segment stored to a file is what \<open>getSegment\<close> reads back once the file is locked for
  reading, and every other whole segment of the file reads as before the store.
\<close>

theorem stored_segment_read_back:
  assumes "unlocked f m" and "openable f old m" and "int i * 8000 < 2 ^ 31" and "length d = 8000"
    and "j = i \<or> Suc j * 8000 \<le> length old" and "int j * 8000 < 2 ^ 31"
  shows "\<exists>m1 m2. storeSegmentToFile f path (int i) d m = Some (Inr (), m1) \<and>
    readLock f m1 = Some (True, m2) \<and>
    fst (fm_getSegment True f (int j) 8000 m2) = Inr (Some (if j = i then d else block j old))"
proof -
  let ?bs = "put_block i d old" and ?m1 = "set_file f (put_block i d old) m"
  let ?r = "\<lparr>of_name = f, of_stream = istream_open ?bs\<rparr>"
  let ?m2 = "?m1\<lparr>readLockedFiles := readLockedFiles m @ [?r]\<rparr>"
  have "storeSegmentToFile f path (int i) d m = Some (Inr (), ?m1)"
    using assms by (intro storeSegmentToFile_full) auto
  moreover have "readLock f ?m1 = Some (True, ?m2)"
    using readLock_fresh[of f ?m1 ?bs] assms(1,2) by (simp add: openable_def)
  moreover have "fst (fm_getSegment True f (int j) 8000 ?m2) = Inr (Some (block j ?bs))"
  proof (rule fm_getSegment_inside)
    have "lookupBy of_name f (readLockedFiles m) = None"
      using assms(1) by (simp add: unlocked_def lookupBy_readLocked)
    then show "lookupBy of_name f (readLockedFiles ?m2) = Some ?r"
      by (simp add: lookupBy_append)
    show "Suc j * 8000 \<le> length ?bs"
      using assms(4,5) by (auto simp: put_block_def length_write_at)
  qed (use assms in \<open>simp_all add: istream_open_def\<close>)
  moreover have "block j ?bs = (if j = i then d else block j old)"
    using assms(4) by (simp add: block_put_block_same block_put_block_other)
  ultimately show ?thesis by auto
qed

lemma stored_segment_read_back_witness:
  "\<exists>m1 m2. storeSegmentToFile ''f'' [] 1 (replicate 8000 CHR ''a'')
      (example_manager (replicate 20000 CHR ''b'')) = Some (Inr (), m1) \<and>
    readLock ''f'' m1 = Some (True, m2) \<and>
    fst (fm_getSegment True ''f'' 0 8000 m2) =
      Inr (Some (block 0 (replicate 20000 CHR ''b'')))"
  using stored_segment_read_back [of "''f''" "example_manager (replicate 20000 CHR ''b'')"
      "replicate 20000 CHR ''b''" 1 "replicate 8000 CHR ''a''" 0 "[]"]
  by (simp add: example_manager_def FileManager_def unlocked_def readLocked_def writeLocked_def
      openable_def)

text \<open>On a failed stream the position is never the one asked for.\<close>

lemma fm_getSegment_failed:
  assumes "lookupBy of_name f (readLockedFiles m) = Some r" and "failbit (of_stream r)"
    and "fits_int (j * 8000)" and "n \<le> 8000"
  shows "fst (fm_getSegment mem f j n m) = Inr None"
proof -
  let ?pos = "j * DEFAULTSEGMENTSIZE"
  have minus1: "istream_tellg (istream_seekg ?pos (stream_of r m)) = - 1"
    using assms(2) by (simp add: istream_tellg_def istream_seekg_def stream_of_def)
  have "- 1 \<noteq> j * 8000"
  proof
    assume "- 1 = j * 8000"
    then have "(- 1) mod 8000 = (j * 8000) mod 8000" by (rule arg_cong)
    then show False by simp
  qed
  then have "- 1 \<noteq> ?pos" unfolding DEFAULTSEGMENTSIZE_def .
  then have "istream_tellg (istream_seekg ?pos (stream_of r m)) \<noteq> ?pos" unfolding minus1 .
  moreover have "fits_int ?pos" using assms(3) by (simp only: DEFAULTSEGMENTSIZE_def)
  moreover have "\<not> nat DEFAULTSEGMENTSIZE < n" using assms(4) by (simp add: DEFAULTSEGMENTSIZE_def)
  ultimately show ?thesis
    using assms(1) by (simp add: fm_getSegment_def Let_def)
qed

text \<open>
  One read that runs past the end of the file leaves the open stream failed. The file stays
  locked for reading, \<open>readLock\<close> does not open it again, and from then on every \<open>getSegment\<close> of
  the file is null, whatever segment is asked for.
\<close>

theorem read_past_end_sticks:
  assumes "lookupBy of_name f (readLockedFiles m) = Some r" and "\<not> writeLocked f m"
    and "files (disk m) (c_str f) = Some bs" and "length bs < Suc i * 8000"
    and "int i * 8000 < 2 ^ 31" and "fits_int (j * 8000)" and "n \<le> 8000"
  shows "\<exists>m1. fm_getSegment True f (int i) 8000 m = (Inr None, m1) \<and>
    readLock f m1 = Some (True, m1) \<and> fst (fm_getSegment True f j n m1) = Inr None"
proof -
  have name: "of_name r = f" using lookupBy_SomeD[OF assms(1)] by simp
  obtain s where first: "fm_getSegment True f (int i) 8000 m = (Inr None, put_stream f s m)"
    and s: "failbit s"
  proof (cases "failbit (of_stream r)")
    case True
    with assms name that[of "istream_seekg (int i * 8000) (stream_of r m)"] show thesis
      by (simp add: fm_getSegment_def fits_int_def DEFAULTSEGMENTSIZE_def Let_def
          istream_seekg_def istream_tellg_def stream_of_def)
  next
    case False
    with assms name that[of "snd (istream_read 8000 (istream_seekg (int i * 8000) (stream_of r m)))"]
    show thesis
      by (simp add: fm_getSegment_def fits_int_def DEFAULTSEGMENTSIZE_def Let_def
          istream_seekg_def istream_tellg_def stream_of_def istream_read_def nat_mult_distrib)
  qed
  let ?m1 = "put_stream f s m"
  have found: "lookupBy of_name f (readLockedFiles ?m1) = Some (r\<lparr>of_stream := s\<rparr>)"
    using lookup_update_stream[OF assms(1)] by (simp add: put_stream_def)
  have "readLock f ?m1 = Some (True, ?m1)"
    using assms(2) found by (simp add: readLock_def readLock_enter_def lookupBy_readLocked
        writeLocked_def put_stream_def)
  moreover have "fst (fm_getSegment True f j n ?m1) = Inr None"
    using s assms(6,7) by (intro fm_getSegment_failed[OF found]) simp_all
  ultimately show ?thesis using first by blast
qed

lemma read_past_end_sticks_witness:
  "\<exists>m1. fm_getSegment True ''f'' 1 8000 (snd (the (readLock ''f''
        (example_manager (replicate 9000 CHR ''b''))))) = (Inr None, m1) \<and>
    readLock ''f'' m1 = Some (True, m1) \<and> fst (fm_getSegment True ''f'' 0 8000 m1) = Inr None"
  using read_past_end_sticks [of "''f''" "snd (the (readLock ''f''
        (example_manager (replicate 9000 CHR ''b''))))"
      "\<lparr>of_name = ''f'', of_stream = istream_open (replicate 9000 CHR ''b'')\<rparr>"
      "replicate 9000 CHR ''b''" 1 0 8000]
  by (simp add: example_manager_def FileManager_def readLock_def readLock_enter_def readLocked_def
      writeLocked_def ifstream_open_def fits_int_def istream_open_def)

lemma storeSegmentToFile_short:
  assumes "unlocked f m" and "openable f old m" and "int i * 8000 < 2 ^ 31"
  shows "length d < 7999 \<Longrightarrow> storeSegmentToFile f path (int i) d m =
      Some (Inl (Undefined OutOfBounds), m\<lparr>writeLockedFiles := writeLockedFiles m @ [f]\<rparr>)"
    and "length d = 7999 \<Longrightarrow> storeSegmentToFile f path (int i) d m =
      Some (Inr (), set_file f (put_block i (d @ [NUL]) old) m)"
proof -
  assume "length d < 7999"
  then show "storeSegmentToFile f path (int i) d m =
      Some (Inl (Undefined OutOfBounds), m\<lparr>writeLockedFiles := writeLockedFiles m @ [f]\<rparr>)"
    using assms by (simp add: storeSegmentToFile_def writeLock_def unlocked_def openable_def
        fits_int_def DEFAULTSEGMENTSIZE_def Let_def)
next
  assume "length d = 7999"
  then show "storeSegmentToFile f path (int i) d m =
      Some (Inr (), set_file f (put_block i (d @ [NUL]) old) m)"
    using storeSegmentToFile_long[OF assms, of d path] by simp
qed

text \<open>
  Data shorter than a segment. \<open>write\<close> takes 8000 bytes from the string; its last byte may be
  the terminator, so 7999 characters are stored with a zero behind them, and with fewer the read
  runs past the string's storage, with the file's write lock still held.
\<close>

theorem store_short_data:
  assumes "unlocked f m" and "openable f old m" and "int i * 8000 < 2 ^ 31" and "length d < 8000"
  shows "storeSegmentToFile f path (int i) d m =
    (if length d = 7999 then Some (Inr (), set_file f (put_block i (d @ [NUL]) old) m)
     else Some (Inl (Undefined OutOfBounds), m\<lparr>writeLockedFiles := writeLockedFiles m @ [f]\<rparr>))"
  using storeSegmentToFile_short[OF assms(1-3), of d path] assms(4) by auto

lemma store_short_data_witness:
  "storeSegmentToFile ''f'' [] 0 ''abc'' (example_manager []) =
    Some (Inl (Undefined OutOfBounds), (example_manager [])\<lparr>writeLockedFiles := [''f'']\<rparr>)"
  using store_short_data [of "''f''" "example_manager []" "[]" 0 "''abc''" "[]"]
  by (simp add: example_manager_def FileManager_def unlocked_def readLocked_def writeLocked_def
      openable_def)

lemma count_erase_first:
  "(case erase_first f gs of
      Some hs \<Rightarrow> count_list gs g = count_list hs g + (if g = f then 1 else 0)
    | None \<Rightarrow> count_list gs f = 0)"
  by (induction gs) (auto split: option.splits)

text \<open>The calls of a file manager, and whatever else changes the disk.\<close>

inductive manager_call :: "file_manager \<Rightarrow> file_manager \<Rightarrow> bool" where
  stores_segment: "storeSegmentToFile f path i d m = Some (r, m') \<Longrightarrow> manager_call m m'"
| stores_file: "storeFile memory g m = Some (r, m') \<Longrightarrow> manager_call m m'"
| creates_file: "manager_call m (createLocalFile t m)"
| locks_for_reading: "readLock f m = Some (b, m') \<Longrightarrow> manager_call m m'"
| unlocks_for_reading: "readUnlock f m = (r, m') \<Longrightarrow> manager_call m m'"
| gets_segment: "fm_getSegment mem f i n m = (r, m') \<Longrightarrow> manager_call m m'"
| others_write: "manager_call m (m\<lparr>disk := fs\<rparr>)"

text \<open>A store gives back at most the lock it took.\<close>

lemma count_writeUnlock:
  assumes "writeLockedFiles m = ws @ [g]"
  shows "count_list ws f \<le> count_list (writeLockedFiles (snd (writeUnlock g m))) f"
  using count_erase_first[where f = g and gs = "ws @ [g]" and g = f]
    count_erase_first[where f = g and gs = "ws @ [g]" and g = g] assms
  by (auto simp: writeUnlock_def split: option.splits if_splits)

lemma manager_call_count:
  "manager_call m m' \<Longrightarrow> count_list (writeLockedFiles m) g \<le> count_list (writeLockedFiles m') g"
proof (induction rule: manager_call.induct)
  case (stores_segment f path i d m r m')
  then show ?case
    by (auto simp: storeSegmentToFile_def writeLock_def Let_def intro!: count_writeUnlock
        split: if_splits option.splits)
next
  case (stores_file memory h m r m')
  then show ?case
    by (auto simp: storeFile_def writeLock_def Let_def intro!: count_writeUnlock split: if_splits option.splits)
next
  case (locks_for_reading f m b m')
  then show ?case by (auto simp: readLock_def readLock_enter_def Let_def split: if_splits)
next
  case (unlocks_for_reading f m r m')
  then show ?case by (auto simp: readUnlock_def split: if_splits)
next
  case (gets_segment mem f i n m r m')
  then show ?case
    by (auto simp: fm_getSegment_def put_stream_def Let_def split: if_splits option.splits prod.splits)
qed simp_all

lemma writeLocked_count: "writeLocked f m \<longleftrightarrow> 0 < count_list (writeLockedFiles m) f"
  by (simp add: writeLocked_def list_ex_iff count_list_0_iff neq0_conv[symmetric] del: neq0_conv)

text \<open>
  C39. A store whose file cannot be opened returns without giving the write lock back. From then on, whatever
  calls follow one another, stores and \<open>createLocalFile\<close> of the same file that succeed among them, and whatever
  happens to the disk, every \<open>readLock\<close> of the file sleeps.
\<close>

theorem failed_store_locks_forever:
  assumes "\<not> readLocked f m"
    and "files (disk m) (c_str f) = None \<or> \<not> accessible (disk m) (c_str f)"
  shows "\<exists>m1. storeSegmentToFile f path i d m = Some (Inr (), m1) \<and>
    (\<forall>m2. manager_call\<^sup>*\<^sup>* m1 m2 \<longrightarrow> readLock f m2 = None)"
proof (intro exI conjI allI impI)
  let ?m1 = "m\<lparr>writeLockedFiles := writeLockedFiles m @ [f]\<rparr>"
  show "storeSegmentToFile f path i d m = Some (Inr (), ?m1)"
    using assms by (auto simp: storeSegmentToFile_def writeLock_def split: option.split)
  fix m2
  assume "manager_call\<^sup>*\<^sup>* ?m1 m2"
  then have "0 < count_list (writeLockedFiles m2) f"
    by (rule rtranclp_keeps[where P = "\<lambda>m. 0 < count_list (writeLockedFiles m) f"])
      (simp, erule less_le_trans, erule manager_call_count)
  then show "readLock f m2 = None" by (simp add: readLock_def writeLocked_count)
qed

lemma failed_store_locks_forever_witness:
  "\<exists>m1. storeSegmentToFile ''g'' [] 0 ''abc'' (example_manager []) = Some (Inr (), m1) \<and>
    (\<forall>m2. manager_call\<^sup>*\<^sup>* m1 m2 \<longrightarrow> readLock ''g'' m2 = None)"
  using failed_store_locks_forever [of "''g''" "example_manager []" "[]" 0 "''abc''"]
  by (simp add: example_manager_def FileManager_def readLocked_def)

section \<open>Threads and locks\<close>

text \<open>
  Where a thread stands in the lock functions. \<open>readLock\<close> holds \<open>writeLockMutex\<close> while it looks for
  a writer, gives it up, and only then takes \<open>readLockMutex\<close>: between the two other threads run
  (\<open>ReadChecked\<close>). A thread that found the file locked unlocks its mutexes and only then waits on
  the condition variable (\<open>ReadBlocked\<close>, \<open>WriteBlocked\<close>: a notification before the wait is lost).
  \<open>writeLock\<close> and the locked part of \<open>writeUnlock\<close> hold \<open>writeLockMutex\<close> throughout and are one step;
  \<open>writeUnlock\<close> then notifies.
\<close>

datatype lock_pc =
    Idle
  | WantRead filename
  | ReadChecked filename
  | ReadBlocked filename
  | ReadWaiting filename
  | Reading filename
  | WantWrite filename
  | WriteBlocked filename
  | WriteWaiting filename
  | Writing filename
  | Notifying
  | Broken                         \<comment> \<open>ran into undefined behaviour\<close>

fun wake :: "lock_pc \<Rightarrow> lock_pc" where
  "wake (ReadWaiting f) = WantRead f"
| "wake (WriteWaiting f) = WantWrite f"
| "wake p = p"

type_synonym lock_system = "lock_pc list \<times> file_manager"

text \<open>
  A thread in a write section does not always come to \<open>writeUnlock\<close>: \<open>storeFile\<close> and \<open>storeSegmentToFile\<close> return before it
  if the file cannot be opened, and a fault ends the thread there.
\<close>

inductive lock_abandons :: "filename \<Rightarrow> lock_system \<Rightarrow> lock_system \<Rightarrow> bool" for f :: filename where
  returns_early: "i < length ps \<Longrightarrow> ps ! i = Writing f \<Longrightarrow> \<nexists>old. openable f old m \<Longrightarrow>
    lock_abandons f (ps, m) (ps[i := Idle], m)"
| breaks_off: "i < length ps \<Longrightarrow> ps ! i = Writing f \<Longrightarrow> lock_abandons f (ps, m) (ps[i := Broken], m)"

text \<open>
  A thread that has a read lock reads segments and goes on to other calls; \<open>readUnlock\<close> can be called by
  any thread. What is written to the disk, by stores, \<open>createLocalFile\<close> or other programs, is left open here.
\<close>

inductive lock_step :: "lock_system \<Rightarrow> lock_system \<Rightarrow> bool" where
  begin_read: "i < length ps \<Longrightarrow> ps ! i = Idle \<Longrightarrow> lock_step (ps, m) (ps[i := WantRead f], m)"
| begin_write: "i < length ps \<Longrightarrow> ps ! i = Idle \<Longrightarrow> lock_step (ps, m) (ps[i := WantWrite f], m)"
| read_blocks: "i < length ps \<Longrightarrow> ps ! i = WantRead f \<Longrightarrow> writeLocked f m \<Longrightarrow>
    lock_step (ps, m) (ps[i := ReadBlocked f], m)"
| read_waits: "i < length ps \<Longrightarrow> ps ! i = ReadBlocked f \<Longrightarrow>
    lock_step (ps, m) (ps[i := ReadWaiting f], m)"
| read_checks: "i < length ps \<Longrightarrow> ps ! i = WantRead f \<Longrightarrow> \<not> writeLocked f m \<Longrightarrow>
    lock_step (ps, m) (ps[i := ReadChecked f], m)"
| read_enters: "i < length ps \<Longrightarrow> ps ! i = ReadChecked f \<Longrightarrow> readLock_enter f m = (b, m') \<Longrightarrow>
    lock_step (ps, m) (ps[i := if b then Reading f else Idle], m')"
| write_blocks: "i < length ps \<Longrightarrow> ps ! i = WantWrite f \<Longrightarrow> writeLock f m = None \<Longrightarrow>
    lock_step (ps, m) (ps[i := WriteBlocked f], m)"
| write_waits: "i < length ps \<Longrightarrow> ps ! i = WriteBlocked f \<Longrightarrow>
    lock_step (ps, m) (ps[i := WriteWaiting f], m)"
| write_enters: "i < length ps \<Longrightarrow> ps ! i = WantWrite f \<Longrightarrow> writeLock f m = Some m' \<Longrightarrow>
    lock_step (ps, m) (ps[i := Writing f], m')"
| write_leaves: "i < length ps \<Longrightarrow> ps ! i = Writing f \<Longrightarrow> writeUnlock f m = (b, m') \<Longrightarrow>
    lock_step (ps, m) (ps[i := if b then Notifying else Idle], m')"
| write_notifies: "i < length ps \<Longrightarrow> ps ! i = Notifying \<Longrightarrow>
    lock_step (ps, m) (map wake (ps[i := Idle]), m)"
| write_abandons: "lock_abandons f s t \<Longrightarrow> lock_step s t"
| reads: "i < length ps \<Longrightarrow> ps ! i = Reading f \<Longrightarrow> fm_getSegment mem f j n m = (r, m') \<Longrightarrow>
    lock_step (ps, m) (ps[i := case r of Inl e \<Rightarrow> Broken | Inr b \<Rightarrow> Reading f], m')"
| read_goes_on: "i < length ps \<Longrightarrow> ps ! i = Reading f \<Longrightarrow> lock_step (ps, m) (ps[i := Idle], m)"
| read_unlocks: "i < length ps \<Longrightarrow> ps ! i = Idle \<Longrightarrow> readUnlock f m = (r, m') \<Longrightarrow>
    lock_step (ps, m) (ps[i := case r of Inl e \<Rightarrow> Broken | Inr u \<Rightarrow> Idle], m')"
| disk_changes: "lock_step (ps, m) (ps, m\<lparr>disk := fs\<rparr>)"

definition lock_start :: "lock_system \<Rightarrow> bool" where
  "lock_start s \<longleftrightarrow> (\<exists>n fs. s = (replicate n Idle, FileManager fs))"

text \<open>The same steps, with the files whose locks were left behind.\<close>

inductive counted_step :: "filename list \<times> lock_system \<Rightarrow> filename list \<times> lock_system \<Rightarrow> bool" where
  keeps: "lock_step s t \<Longrightarrow> \<nexists>f. lock_abandons f s t \<Longrightarrow> counted_step (left, s) (left, t)"
| leaves: "lock_abandons f s t \<Longrightarrow> counted_step (left, s) (f # left, t)"

lemma lock_abandonsD:
  "lock_abandons f (ps, m) (qs, m') \<Longrightarrow> \<exists>i < length ps. ps ! i = Writing f \<and> (qs ! i = Idle \<or> qs ! i = Broken)"
  by (auto elim!: lock_abandons.cases)

definition counted_start :: "filename list \<times> lock_system \<Rightarrow> bool" where
  "counted_start c \<longleftrightarrow> fst c = [] \<and> lock_start (snd c)"

lemma counted_run: "lock_step\<^sup>*\<^sup>* s t \<Longrightarrow> \<exists>more. counted_step\<^sup>*\<^sup>* (left, s) (more @ left, t)"
proof (induction rule: rtranclp_induct)
  case base
  have "counted_step\<^sup>*\<^sup>* (left, s) ([] @ left, s)" by simp
  then show ?case ..
next
  case (step t u)
  then obtain more where run: "counted_step\<^sup>*\<^sup>* (left, s) (more @ left, t)" by blast
  show ?case
  proof (cases "\<exists>f. lock_abandons f t u")
    case True
    then obtain f where "lock_abandons f t u" by blast
    from rtranclp.rtrancl_into_rtrancl[OF run counted_step.leaves[OF this]]
    have "counted_step\<^sup>*\<^sup>* (left, s) ((f # more) @ left, u)" by simp
    then show ?thesis ..
  next
    case False
    from rtranclp.rtrancl_into_rtrancl[OF run counted_step.keeps[OF step(2) False]] show ?thesis ..
  qed
qed

lemma counted_reachable:
  "reachable lock_start lock_step s \<longleftrightarrow> (\<exists>left. reachable counted_start counted_step (left, s))"
proof
  assume "reachable lock_start lock_step s"
  then show "\<exists>left. reachable counted_start counted_step (left, s)"
  proof (induction rule: reachable.induct)
    case (reachable_init s)
    then have "reachable counted_start counted_step ([], s)"
      by (intro reachable.reachable_init) (simp add: counted_start_def)
    then show ?case ..
  next
    case (reachable_step s t)
    then show ?case by (meson counted_step.intros reachable.reachable_step)
  qed
next
  have "reachable lock_start lock_step (snd c)" if "reachable counted_start counted_step c" for c
    using that
  proof (induction rule: reachable.induct)
    case (reachable_init c)
    then show ?case by (auto simp: counted_start_def intro: reachable.reachable_init)
  next
    case (reachable_step c d)
    from reachable_step(2) have "lock_step (snd c) (snd d)" by cases (auto intro: write_abandons)
    with reachable_step(3) show ?case by (rule reachable.reachable_step)
  qed
  then show "\<exists>left. reachable counted_start counted_step (left, s) \<Longrightarrow> reachable lock_start lock_step s" by fastforce
qed

text \<open>What the lists of the lock tables have to do with the threads.\<close>

definition lock_inv :: "filename list \<times> lock_system \<Rightarrow> bool" where
  "lock_inv c \<longleftrightarrow> (case c of (left, ps, m) \<Rightarrow>
     (\<forall>f. count_list (writeLockedFiles m) f = length (filter (\<lambda>p. p = Writing f) ps) + count_list left f) \<and>
     (Broken \<in> set ps \<or> (\<forall>f. Reading f \<in> set ps \<longrightarrow> readLocked f m)) \<and>
     distinct (map of_name (readLockedFiles m)))"

lemma count_filter_update:
  assumes "i < length ps"
  shows "length (filter P (ps[i := p])) + (if P (ps ! i) then 1 else 0) =
    length (filter P ps) + (if P p then 1 else 0)"
  using assms
proof (induction ps arbitrary: i)
  case (Cons q ps)
  show ?case
  proof (cases i)
    case (Suc j)
    with Cons.IH[of j] Cons.prems show ?thesis by simp
  qed simp
qed simp

lemma readLock_enter_tables:
  assumes "readLock_enter f m = (b, m')" and "distinct (map of_name (readLockedFiles m))"
  shows "writeLockedFiles m' = writeLockedFiles m \<and> distinct (map of_name (readLockedFiles m')) \<and>
    (\<forall>g. readLocked g m' \<longleftrightarrow> readLocked g m \<or> b \<and> g = f)"
  using assms by (auto simp: readLock_enter_def readLocked_def list_ex_iff Let_def split: if_splits)

lemma writeLock_tables:
  assumes "writeLock f m = Some m'"
  shows "readLockedFiles m' = readLockedFiles m \<and> writeLockedFiles m' = writeLockedFiles m @ [f] \<and>
    \<not> readLocked f m"
  using assms by (auto simp: writeLock_def split: if_splits)

lemma writeUnlock_tables:
  assumes "writeUnlock f m = (b, m')"
  shows "readLockedFiles m' = readLockedFiles m \<and>
    (b \<longrightarrow> erase_first f (writeLockedFiles m) = Some (writeLockedFiles m')) \<and>
    (\<not> b \<longrightarrow> erase_first f (writeLockedFiles m) = None \<and> m' = m)"
  using assms by (auto simp: writeUnlock_def split: option.splits)

lemma readLocked_cong: "readLockedFiles m' = readLockedFiles m \<Longrightarrow> readLocked f m' = readLocked f m"
  by (simp add: readLocked_def)

lemma lock_invI:
  assumes "\<And>f. count_list (writeLockedFiles m) f = length (filter (\<lambda>p. p = Writing f) ps) + count_list left f"
    and "Broken \<notin> set ps \<Longrightarrow> \<forall>f. Reading f \<in> set ps \<longrightarrow> readLocked f m"
    and "distinct (map of_name (readLockedFiles m))"
  shows "lock_inv (left, ps, m)"
  using assms by (auto simp: lock_inv_def)

lemma lock_invD:
  assumes "lock_inv (left, ps, m)"
  shows "count_list (writeLockedFiles m) f = length (filter (\<lambda>p. p = Writing f) ps) + count_list left f"
    and "Broken \<notin> set ps \<Longrightarrow> Reading f \<in> set ps \<Longrightarrow> readLocked f m"
    and "distinct (map of_name (readLockedFiles m))"
  using assms by (auto simp: lock_inv_def)

lemma set_updateD: "p \<in> set (ps[i := q]) \<Longrightarrow> p = q \<or> p \<in> set ps"
  using set_update_subset_insert[of ps i q] by blast

lemma Broken_update: "i < length ps \<Longrightarrow> ps ! i \<noteq> Broken \<Longrightarrow> Broken \<notin> set (ps[i := q]) \<Longrightarrow> Broken \<notin> set ps"
  by (metis in_set_conv_nth length_list_update nth_list_update_neq)

text \<open>A step of one thread that does not change the table of write locks, nor close a file.\<close>

lemma lock_inv_move:
  assumes "lock_inv (left, ps, m)" and "i < length ps" and "ps ! i \<noteq> Broken"
    and "\<And>f. (ps ! i = Writing f) = (p = Writing f)"
    and "writeLockedFiles m' = writeLockedFiles m" and "distinct (map of_name (readLockedFiles m'))"
    and "p = Broken \<or> (\<forall>g. readLocked g m \<longrightarrow> readLocked g m') \<and> (\<forall>f. p = Reading f \<longrightarrow> readLocked f m')"
  shows "lock_inv (left, ps[i := p], m')"
proof (rule lock_invI)
  fix f
  have "length (filter (\<lambda>q. q = Writing f) (ps[i := p])) = length (filter (\<lambda>q. q = Writing f) ps)"
    using count_filter_update[OF assms(2), of "\<lambda>q. q = Writing f" p] assms(4)[of f] by (auto split: if_splits)
  then show "count_list (writeLockedFiles m') f = length (filter (\<lambda>q. q = Writing f) (ps[i := p])) + count_list left f"
    using lock_invD(1)[OF assms(1)] assms(5) by simp
next
  assume sane: "Broken \<notin> set (ps[i := p])"
  then have p: "p \<noteq> Broken" using set_update_memI[OF assms(2)] by metis
  have "Broken \<notin> set ps" using Broken_update[OF assms(2,3) sane] .
  with p assms(7) lock_invD(2)[OF assms(1)]
  show "\<forall>f. Reading f \<in> set (ps[i := p]) \<longrightarrow> readLocked f m'" by (auto dest!: set_updateD)
qed (rule assms(6))

lemma lock_inv_between:
  assumes "lock_inv (left, ps, m)" and "i < length ps" and "ps ! i \<noteq> Broken" and "\<And>f. ps ! i \<noteq> Writing f"
    and "\<And>f. p \<noteq> Writing f" and "\<And>f. p \<noteq> Reading f"
  shows "lock_inv (left, ps[i := p], m)"
  by (rule lock_inv_move[OF assms(1)]) (use assms lock_invD(3)[OF assms(1)] in simp_all)

lemma lock_inv_wake: "lock_inv (left, ps, m) \<Longrightarrow> lock_inv (left, map wake ps, m)"
proof -
  have W: "wake p = Writing f \<longleftrightarrow> p = Writing f" "wake p = Reading f \<longleftrightarrow> p = Reading f"
    "Reading f = wake p \<longleftrightarrow> p = Reading f" "Broken = wake p \<longleftrightarrow> p = Broken" for p f
    by (cases p; auto)+
  assume inv: "lock_inv (left, ps, m)"
  show ?thesis
    by (rule lock_invI) (use lock_invD[OF inv] in \<open>auto simp: W filter_map o_def image_iff\<close>)
qed

text \<open>The number of threads in a write section when one enters or leaves it.\<close>

lemma writers_update:
  assumes "i < length ps"
  shows "\<forall>g. ps ! i \<noteq> Writing g \<Longrightarrow> length (filter (\<lambda>q. q = Writing g) (ps[i := Writing f])) =
      length (filter (\<lambda>q. q = Writing g) ps) + (if g = f then 1 else 0)"
    and "ps ! i = Writing f \<Longrightarrow> \<forall>g. p \<noteq> Writing g \<Longrightarrow>
      length (filter (\<lambda>q. q = Writing g) (ps[i := p])) + (if g = f then 1 else 0) =
      length (filter (\<lambda>q. q = Writing g) ps)"
  using count_filter_update[OF assms, of "\<lambda>q. q = Writing g"] by (auto split: if_splits)

lemma lock_inv_abandons:
  assumes "lock_abandons f (ps, m) t" and "lock_inv (left, ps, m)"
  shows "lock_inv (f # left, t)"
proof -
  have gone: "lock_inv (f # left, ps[i := p], m)"
    if i: "i < length ps" "ps ! i = Writing f" and p: "p = Idle \<or> p = Broken" for i p
  proof (rule lock_invI)
    fix g
    have none: "\<forall>g. p \<noteq> Writing g" using p by auto
    show "count_list (writeLockedFiles m) g = length (filter (\<lambda>q. q = Writing g) (ps[i := p])) + count_list (f # left) g"
      using lock_invD(1)[OF assms(2), of g] writers_update(2)[OF i none, of g] by auto
  next
    assume "Broken \<notin> set (ps[i := p])"
    then have "Broken \<notin> set ps" using Broken_update[OF i(1)] i(2) by simp
    then show "\<forall>g. Reading g \<in> set (ps[i := p]) \<longrightarrow> readLocked g m"
      using lock_invD(2)[OF assms(2)] p by (auto dest!: set_updateD)
  qed (rule lock_invD(3)[OF assms(2)])
  from assms(1) show ?thesis by cases (use gone in auto)
qed

lemma distinct_erase_stream:
  "distinct (map of_name rs) \<Longrightarrow> distinct (map of_name (erase_stream f rs)) \<and>
   of_name ` set (erase_stream f rs) \<subseteq> of_name ` set rs"
  by (induction rs) auto

lemma names_update_stream [simp]: "map of_name (update_stream f s rs) = map of_name rs"
  by (induction rs) auto

lemma fm_getSegment_tables:
  assumes "fm_getSegment mem f j n m = (r, m')"
  shows "writeLockedFiles m' = writeLockedFiles m"
    and "map of_name (readLockedFiles m') = map of_name (readLockedFiles m)"
    and "readLocked g m' = readLocked g m"
proof -
  show tables: "writeLockedFiles m' = writeLockedFiles m"
    "map of_name (readLockedFiles m') = map of_name (readLockedFiles m)"
    using assms by (auto simp: fm_getSegment_def put_stream_def Let_def split: if_splits option.splits prod.splits)
  have "readLocked g m \<longleftrightarrow> g \<in> set (map of_name (readLockedFiles m))" for m
    by (auto simp: readLocked_def list_ex_iff)
  then show "readLocked g m' = readLocked g m" by (simp only: tables(2))
qed

lemma readUnlock_tables:
  assumes "readUnlock f m = (r, m')"
  shows "writeLockedFiles m' = writeLockedFiles m" and "r = Inr u \<Longrightarrow> m' = m"
    and "distinct (map of_name (readLockedFiles m)) \<Longrightarrow> distinct (map of_name (readLockedFiles m'))"
  using assms distinct_erase_stream[of "readLockedFiles m" f] by (auto simp: readUnlock_def split: if_splits)

lemma lock_inv_step:
  "lock_step s t \<Longrightarrow> \<nexists>f. lock_abandons f s t \<Longrightarrow> lock_inv (left, s) \<Longrightarrow> lock_inv (left, t)"
proof (induction rule: lock_step.induct)
  case (read_enters i ps f m b m')
  note inv = lock_invD(3)[OF read_enters.prems(2)]
  note tables = readLock_enter_tables[OF read_enters(3) inv]
  show ?case by (rule lock_inv_move[OF read_enters.prems(2)]) (use read_enters(1,2) tables in auto)
next
  case (write_enters i ps f m m')
  note tables = writeLock_tables[OF write_enters(3)] and inv = lock_invD[OF write_enters.prems(2)]
  have outside: "\<forall>g. ps ! i \<noteq> Writing g" "ps ! i \<noteq> Broken" using write_enters(2) by auto
  show ?case
  proof (rule lock_invI)
    show "count_list (writeLockedFiles m') g = length (filter (\<lambda>q. q = Writing g) (ps[i := Writing f])) + count_list left g" for g
      using inv(1)[of g] tables writers_update(1)[OF write_enters(1) outside(1), of g f] by simp
    assume "Broken \<notin> set (ps[i := Writing f])"
    then have "Broken \<notin> set ps" using Broken_update[OF write_enters(1) outside(2)] by blast
    then show "\<forall>g. Reading g \<in> set (ps[i := Writing f]) \<longrightarrow> readLocked g m'"
      using inv(2) tables readLocked_cong[of m' m] by (auto dest!: set_updateD)
  qed (use inv(3) tables in simp)
next
  case (write_leaves i ps f m b m')
  note tables = writeUnlock_tables[OF write_leaves(3)] and inv = lock_invD[OF write_leaves.prems(2)]
  let ?p = "if b then Notifying else Idle"
  have n: "length (filter (\<lambda>q. q = Writing g) (ps[i := ?p])) + (if g = f then 1 else 0) =
      length (filter (\<lambda>q. q = Writing g) ps)" for g
    by (rule writers_update(2)[OF write_leaves(1,2)]) simp
  have b: b
  proof (rule ccontr)
    assume "\<not> b"
    then have "count_list (writeLockedFiles m) f = 0"
      using tables count_erase_first[of "writeLockedFiles m" f] by auto
    with inv(1)[of f] n[of f] show False by simp
  qed
  show ?case
  proof (rule lock_invI)
    fix g
    have "count_list (writeLockedFiles m') g + (if g = f then 1 else 0) = count_list (writeLockedFiles m) g"
      using tables b count_erase_first[of "writeLockedFiles m" f g] by simp
    then show "count_list (writeLockedFiles m') g = length (filter (\<lambda>q. q = Writing g) (ps[i := ?p])) + count_list left g"
      using inv(1)[of g] n[of g] by (auto split: if_splits)
  next
    assume "Broken \<notin> set (ps[i := ?p])"
    then have "Broken \<notin> set ps" using Broken_update[OF write_leaves(1)] write_leaves(2) by simp
    then show "\<forall>g. Reading g \<in> set (ps[i := ?p]) \<longrightarrow> readLocked g m'"
      using inv(2) tables readLocked_cong[of m' m] by (auto dest!: set_updateD split: if_splits)
  qed (use inv(3) tables in simp)
next
  case (write_notifies i ps m)
  have "lock_inv (left, ps[i := Idle], m)"
    by (rule lock_inv_move[OF write_notifies.prems(2)])
      (use write_notifies lock_invD(3)[OF write_notifies.prems(2)] in simp_all)
  then show ?case by (rule lock_inv_wake)
next
  case (write_abandons f s t)
  then show ?case by blast
next
  case (reads i ps f mem j n m r m')
  note tables = fm_getSegment_tables[OF reads(3)] and inv = lock_invD[OF reads.prems(2)]
  show ?case
  proof (cases "Broken \<in> set ps")
    case True
    then have "Broken \<in> set (ps[i := case r of Inl e \<Rightarrow> Broken | Inr b \<Rightarrow> Reading f])"
      using Broken_update[OF reads(1)] reads(2) by fastforce
    moreover have "length (filter (\<lambda>q. q = Writing g) (ps[i := case r of Inl e \<Rightarrow> Broken | Inr b \<Rightarrow> Reading f])) =
        length (filter (\<lambda>q. q = Writing g) ps)" for g
      using count_filter_update[OF reads(1), of "\<lambda>q. q = Writing g"] reads(2) by (simp split: sum.split)
    ultimately show ?thesis using inv tables by (simp add: lock_inv_def)
  next
    case False
    have "Reading f \<in> set ps" using reads(1,2) by (metis nth_mem)
    with inv(2) False tables have "readLocked f m'" by blast
    then show ?thesis
      by (intro lock_inv_move[OF reads.prems(2)]) (use reads(1,2) tables inv(3) in \<open>auto split: sum.split\<close>)
  qed
next
  case (read_goes_on i ps f m)
  show ?case
    by (rule lock_inv_move[OF read_goes_on.prems(2)])
      (use read_goes_on lock_invD(3)[OF read_goes_on.prems(2)] in simp_all)
next
  case (read_unlocks i ps f m r m')
  note tables = readUnlock_tables[OF read_unlocks(3)]
  show ?case
    by (rule lock_inv_move[OF read_unlocks.prems(2)])
      (use read_unlocks(1,2) tables lock_invD(3)[OF read_unlocks.prems(2)] in \<open>auto split: sum.split\<close>)
next
  case (disk_changes ps m fs)
  then show ?case by (simp add: lock_inv_def readLocked_def)
qed (rule lock_inv_between; simp)+

interpretation lock_history: invariant_system counted_start counted_step lock_inv
proof unfold_locales
  show "lock_inv c" if "counted_start c" for c
    using that by (cases c) (auto simp: counted_start_def lock_start_def lock_inv_def FileManager_def)
  show "lock_inv d" if "lock_inv c" "counted_step c d" for c d
    using that(2,1)
  proof cases
    case (leaves f s t left)
    then show ?thesis using lock_inv_abandons[of f "fst s" "snd s" t left] that(1) by simp
  qed (use lock_inv_step in blast)
qed

text \<open>
  C28. However the threads interleave, the table of write locks has one entry for each thread inside a write
  section of the file, and one for each that left such a section without \<open>writeUnlock\<close>, by the early return of a store
  or by a fault; the table of open files opens a file once; and unless a thread has run into undefined
  behaviour, every thread that reads a file finds it there.
\<close>

theorem lock_tables_exact:
  assumes "reachable counted_start counted_step (left, ps, m)"
  shows "count_list (writeLockedFiles m) f = length (filter (\<lambda>p. p = Writing f) ps) + count_list left f \<and>
    distinct (map of_name (readLockedFiles m)) \<and>
    (Broken \<in> set ps \<or> Reading f \<notin> set ps \<or> readLocked f m)"
  using lock_history.reachable_inv[OF assms] by (auto simp: lock_inv_def)

text \<open>A thread that is not past the check of \<open>readLock\<close> when a lock of the file stays behind never gets past it.\<close>

lemma lock_step_stays_out:
  "lock_step s t \<Longrightarrow> writeLocked f (snd s) \<Longrightarrow> i < length (fst s) \<Longrightarrow> fst s ! i \<notin> {ReadChecked f, Reading f} \<Longrightarrow>
   i < length (fst t) \<and> fst t ! i \<notin> {ReadChecked f, Reading f}"
proof (induction rule: lock_step.induct)
  case (write_notifies j ps m)
  have "wake p \<in> {ReadChecked f, Reading f} \<longleftrightarrow> p \<in> {ReadChecked f, Reading f}" for p by (cases p) auto
  then show ?case using write_notifies by (auto simp: nth_list_update)
next
  case (write_abandons g s t)
  from write_abandons show ?case by cases (auto simp: nth_list_update split: if_splits)
qed (auto simp: nth_list_update split: sum.split)

text \<open>
  C29. A write lock left behind stops readers for good: once a store of a file has come back without \<open>writeUnlock\<close>, then
  however the threads go on, the file stays write-locked, and no thread that had not passed the check of
  \<open>readLock\<close> for it by then ever reads it.
\<close>

theorem abandoned_lock_stops_readers:
  assumes "reachable lock_start lock_step s" and "lock_abandons f s t" and "lock_step\<^sup>*\<^sup>* t (ps, m)"
    and "i < length (fst t)" and "fst t ! i \<notin> {ReadChecked f, Reading f}"
  shows "writeLocked f m \<and> ps ! i \<noteq> Reading f"
proof -
  obtain left where "reachable counted_start counted_step (left, s)"
    using assms(1) counted_reachable by blast
  then have R: "reachable counted_start counted_step (f # left, t)"
    using assms(2) by (blast intro: reachable_step counted_step.leaves)
  have locked: "writeLocked f (snd u)" if run: "lock_step\<^sup>*\<^sup>* t u" for u
  proof -
    obtain more where more: "counted_step\<^sup>*\<^sup>* (f # left, t) (more @ f # left, u)" using counted_run[OF run] by blast
    have "reachable counted_start counted_step (more @ f # left, u)"
      by (rule rtranclp_keeps[where P = "reachable counted_start counted_step", OF more R]) (rule reachable_step)
    then have "lock_inv (more @ f # left, fst u, snd u)" using lock_history.reachable_inv by simp
    from lock_invD(1)[OF this, of f] show ?thesis by (simp add: writeLocked_count)
  qed
  from assms(3) have "i < length (fst (ps, m)) \<and> fst (ps, m) ! i \<notin> {ReadChecked f, Reading f}"
  proof (induction rule: rtranclp_induct)
    case (step u v)
    then show ?case using lock_step_stays_out[OF step(2) locked[OF step(1)]] by blast
  qed (use assms(4,5) in blast)
  then show ?thesis using locked[OF assms(3)] by simp
qed

definition example_disk :: file_system where
  "example_disk = \<lparr>files = [''f'' \<mapsto> ''x''], accessible = (\<lambda>_. True)\<rparr>"

lemma two_writers_reachable:
  "reachable lock_start lock_step ([Writing f, Writing f],
     (FileManager example_disk)\<lparr>writeLockedFiles := [f, f]\<rparr>)"
proof -
  let ?m = "FileManager example_disk" and ?R = "reachable lock_start lock_step"
  have "lock_start ([Idle, Idle], ?m)"
    unfolding lock_start_def by (intro exI[of _ 2] exI[of _ example_disk]) (simp add: numeral_2_eq_2)
  then have "?R ([Idle, Idle], ?m)" by (rule reachable_init)
  then have "?R ([WantWrite f, Idle], ?m)"
    by (rule reachable_step) (use lock_step.begin_write[of 0 "[Idle, Idle]"] in simp)
  then have "?R ([WantWrite f, WantWrite f], ?m)"
    by (rule reachable_step) (use lock_step.begin_write[of 1 "[WantWrite f, Idle]"] in simp)
  then have "?R ([Writing f, WantWrite f], ?m\<lparr>writeLockedFiles := [f]\<rparr>)"
    by (rule reachable_step)
      (use lock_step.write_enters[of 0 "[WantWrite f, WantWrite f]" f ?m] in
        \<open>simp add: writeLock_def readLocked_def FileManager_def\<close>)
  then show ?thesis
    by (rule reachable_step)
      (use lock_step.write_enters[of 1 "[Writing f, WantWrite f]" f
          "?m\<lparr>writeLockedFiles := [f]\<rparr>"] in
        \<open>simp add: writeLock_def readLocked_def FileManager_def\<close>)
qed

text \<open>One thread is in a write section; another came back from a store whose file does not exist.\<close>

lemma one_left_behind:
  "reachable counted_start counted_step ([''g''], [Writing ''g'', Idle],
     (FileManager example_disk)\<lparr>writeLockedFiles := [''g'', ''g'']\<rparr>)"
proof -
  let ?m = "FileManager example_disk" and ?R = "reachable counted_start counted_step"
  have keep: "?R (left, t)" if "?R (left, s)" "lock_step s t" "\<nexists>f. lock_abandons f s t" for left s t
    using that by (blast intro: reachable_step counted_step.keeps)
  have "lock_start ([Idle, Idle], ?m)"
    unfolding lock_start_def by (intro exI[of _ 2] exI[of _ example_disk]) (simp add: numeral_2_eq_2)
  then have "?R ([], [Idle, Idle], ?m)" by (intro reachable_init) (simp add: counted_start_def)
  then have "?R ([], [Idle, WantWrite ''g''], ?m)"
    by (rule keep) (use lock_step.begin_write[of 1 "[Idle, Idle]"] in \<open>auto simp: less_Suc_eq dest!: lock_abandonsD\<close>)
  then have "?R ([], [WantWrite ''g'', WantWrite ''g''], ?m)"
    by (rule keep) (use lock_step.begin_write[of 0 "[Idle, WantWrite ''g'']"] in \<open>auto simp: less_Suc_eq dest!: lock_abandonsD\<close>)
  then have "?R ([], [WantWrite ''g'', Writing ''g''], ?m\<lparr>writeLockedFiles := [''g'']\<rparr>)"
    by (rule keep)
      (use lock_step.write_enters[of 1 "[WantWrite ''g'', WantWrite ''g'']" "''g''" ?m] in
        \<open>auto simp: writeLock_def readLocked_def FileManager_def less_Suc_eq dest!: lock_abandonsD\<close>)
  then have "?R ([], [Writing ''g'', Writing ''g''], ?m\<lparr>writeLockedFiles := [''g'', ''g'']\<rparr>)"
    by (rule keep)
      (use lock_step.write_enters[of 0 "[WantWrite ''g'', Writing ''g'']" "''g''"
          "?m\<lparr>writeLockedFiles := [''g'']\<rparr>"] in
        \<open>auto simp: writeLock_def readLocked_def FileManager_def less_Suc_eq dest!: lock_abandonsD\<close>)
  then show ?thesis
    by (rule reachable_step)
      (use counted_step.leaves[OF lock_abandons.returns_early[of 1 "[Writing ''g'', Writing ''g'']"]] in
        \<open>simp add: openable_def FileManager_def example_disk_def c_str_def\<close>)
qed

lemma lock_tables_exact_witness:
  "count_list (writeLockedFiles ((FileManager example_disk)\<lparr>writeLockedFiles := [''g'', ''g'']\<rparr>)) ''g''
      = 1 + count_list [''g''] ''g'' \<and>
    distinct (map of_name
      (readLockedFiles ((FileManager example_disk)\<lparr>writeLockedFiles := [''g'', ''g'']\<rparr>)))"
  using lock_tables_exact [OF one_left_behind, of "''g''"] by simp

lemma abandoned_lock_stops_readers_witness:
  "writeLocked ''g'' ((FileManager example_disk)\<lparr>writeLockedFiles := [''g'', ''g'']\<rparr>) \<and>
   [Writing ''g'', ReadBlocked ''g''] ! 1 \<noteq> Reading ''g''"
proof (rule abandoned_lock_stops_readers)
  let ?m = "(FileManager example_disk)\<lparr>writeLockedFiles := [''g'', ''g'']\<rparr>"
  have m: "\<nexists>old. openable ''g'' old ?m" "writeLocked ''g'' ?m"
    by (simp_all add: openable_def FileManager_def example_disk_def c_str_def writeLocked_def)
  show "reachable lock_start lock_step ([Writing ''g'', Writing ''g''], ?m)" by (rule two_writers_reachable)
  show "lock_abandons ''g'' ([Writing ''g'', Writing ''g''], ?m) ([Writing ''g'', Idle], ?m)"
    using lock_abandons.returns_early[of 1 "[Writing ''g'', Writing ''g'']", OF _ _ m(1)] by simp
  have "lock_step ([Writing ''g'', Idle], ?m) ([Writing ''g'', WantRead ''g''], ?m)"
    using lock_step.begin_read[of 1 "[Writing ''g'', Idle]"] by simp
  moreover have "lock_step ([Writing ''g'', WantRead ''g''], ?m) ([Writing ''g'', ReadBlocked ''g''], ?m)"
    using lock_step.read_blocks[of 1 "[Writing ''g'', WantRead ''g'']", OF _ _ m(2)] by simp
  ultimately show "lock_step\<^sup>*\<^sup>* ([Writing ''g'', Idle], ?m) ([Writing ''g'', ReadBlocked ''g''], ?m)" by simp
qed simp_all

lemma reader_and_writer_reachable:
  "\<exists>m. reachable lock_start lock_step ([Reading ''f'', Writing ''f''], m)"
proof -
  let ?m = "FileManager example_disk" and ?R = "reachable lock_start lock_step"
  have "lock_start ([Idle, Idle], ?m)"
    unfolding lock_start_def by (intro exI[of _ 2] exI[of _ example_disk]) (simp add: numeral_2_eq_2)
  then have "?R ([Idle, Idle], ?m)" by (rule reachable_init)
  then have "?R ([WantRead ''f'', Idle], ?m)"
    by (rule reachable_step) (use lock_step.begin_read[of 0 "[Idle, Idle]"] in simp)
  then have "?R ([ReadChecked ''f'', Idle], ?m)"
    by (rule reachable_step)
      (use lock_step.read_checks[of 0 "[WantRead ''f'', Idle]" "''f''" ?m] in
        \<open>simp add: writeLocked_def FileManager_def\<close>)
  then have "?R ([ReadChecked ''f'', WantWrite ''f''], ?m)"
    by (rule reachable_step) (use lock_step.begin_write[of 1 "[ReadChecked ''f'', Idle]"] in simp)
  then have "?R ([ReadChecked ''f'', Writing ''f''], ?m\<lparr>writeLockedFiles := [''f'']\<rparr>)"
    by (rule reachable_step)
      (use lock_step.write_enters[of 1 "[ReadChecked ''f'', WantWrite ''f'']" "''f''" ?m] in
        \<open>simp add: writeLock_def readLocked_def FileManager_def\<close>)
  then have "?R ([Reading ''f'', Writing ''f''], snd (readLock_enter ''f'' (?m\<lparr>writeLockedFiles := [''f'']\<rparr>)))"
    by (rule reachable_step)
      (use lock_step.read_enters[of 0 "[ReadChecked ''f'', Writing ''f'']" "''f''"
          "?m\<lparr>writeLockedFiles := [''f'']\<rparr>" True] in
        \<open>simp add: readLock_enter_def readLocked_def FileManager_def ifstream_open_def example_disk_def
          istream_open_def Let_def\<close>)
  then show ?thesis by blast
qed

text \<open>
  C30. The locks do not exclude: two threads can write one file at a time, and a thread can read
  a file while another writes it, because a writer can come between the two checks of \<open>readLock\<close>.
\<close>

theorem locks_do_not_exclude:
  "(\<exists>ps m f. reachable lock_start lock_step (ps, m) \<and> ps = [Writing f, Writing f]) \<and>
   (\<exists>ps m f. reachable lock_start lock_step (ps, m) \<and> ps = [Reading f, Writing f])"
  using two_writers_reachable reader_and_writer_reachable by blast

text \<open>
  A reader that finds the file locked gives up \<open>writeLockMutex\<close> before it waits on the condition
  variable: the writer can unlock and notify in between, and the reader then waits for ever
  although nobody holds the file.
\<close>

lemma lost_wakeup_reachable:
  "reachable lock_start lock_step ([ReadWaiting f, Idle], FileManager fs)"
proof -
  let ?R = "reachable lock_start lock_step" and ?m = "FileManager fs"
  let ?w = "?m\<lparr>writeLockedFiles := [f]\<rparr>"
  have "?R ([Idle, Idle], ?m)"
    by (rule reachable_init) (auto simp: lock_start_def numeral_2_eq_2 intro!: exI[of _ 2])
  then have "?R ([Idle, WantWrite f], ?m)"
    by (rule reachable_step) (use begin_write[of 1 "[Idle, Idle]" ?m f] in simp)
  then have "?R ([Idle, Writing f], ?w)"
    by (rule reachable_step) (use write_enters[of 1 "[Idle, WantWrite f]" f ?m ?w] in
      \<open>simp add: writeLock_def readLocked_def FileManager_def\<close>)
  then have "?R ([WantRead f, Writing f], ?w)"
    by (rule reachable_step) (use begin_read[of 0 "[Idle, Writing f]" ?w f] in simp)
  then have "?R ([ReadBlocked f, Writing f], ?w)"
    by (rule reachable_step) (use read_blocks[of 0 "[WantRead f, Writing f]" f ?w] in
      \<open>simp add: writeLocked_def\<close>)
  then have "?R ([ReadBlocked f, Notifying], ?m)"
    by (rule reachable_step) (use write_leaves[of 1 "[ReadBlocked f, Writing f]" f ?w True ?m] in
      \<open>simp add: writeUnlock_def FileManager_def\<close>)
  then have "?R ([ReadBlocked f, Idle], ?m)"
    by (rule reachable_step) (use write_notifies[of 1 "[ReadBlocked f, Notifying]" ?m] in simp)
  then show ?thesis
    by (rule reachable_step) (use read_waits[of 0 "[ReadBlocked f, Idle]" f ?m] in simp)
qed

text \<open>
  C31. A reader can miss its wake-up: there is an interleaving after which it waits on the condition
  variable while no file is locked and every other thread is idle, and no step that thread or
  another can take then wakes it.
\<close>

theorem reader_misses_wakeup:
  "reachable lock_start lock_step ([ReadWaiting f, Idle], FileManager fs) \<and>
   readLockedFiles (FileManager fs) = [] \<and> writeLockedFiles (FileManager fs) = [] \<and>
   {fst s ! 0 | s. lock_step ([ReadWaiting f, Idle], FileManager fs) s} = {ReadWaiting f}"
proof -
  have "fst s ! 0 = ReadWaiting f" if "lock_step ([ReadWaiting f, Idle], FileManager fs) s" for s
    using that by cases (auto simp: less_Suc_eq elim!: lock_abandons.cases)
  moreover have "lock_step ([ReadWaiting f, Idle], FileManager fs) ([ReadWaiting f, WantRead f], FileManager fs)"
    using begin_read[of 1 "[ReadWaiting f, Idle]" "FileManager fs" f] by simp
  ultimately show ?thesis
    using lost_wakeup_reachable[of f fs] by (force simp: FileManager_def)
qed

text \<open>
  When whole calls follow one another, the locks do exclude readers from writers; this is the
  contract the two checks are meant to keep.
\<close>

inductive lock_call :: "file_manager \<Rightarrow> file_manager \<Rightarrow> bool" where
  "readLock f m = Some (b, m') \<Longrightarrow> lock_call m m'"
| "writeLock f m = Some m' \<Longrightarrow> lock_call m m'"
| "writeUnlock f m = (b, m') \<Longrightarrow> lock_call m m'"
| "lock_call m (snd (fm_getSegment mem f j n m))"

definition no_locks :: "file_manager \<Rightarrow> bool" where
  "no_locks m \<longleftrightarrow> readLockedFiles m = [] \<and> writeLockedFiles m = []"

definition locks_disjoint :: "file_manager \<Rightarrow> bool" where
  "locks_disjoint m \<longleftrightarrow> (\<forall>f. \<not> (readLocked f m \<and> writeLocked f m))"

lemma set_erase_first: "erase_first f gs = Some hs \<Longrightarrow> set hs \<subseteq> set gs"
  by (induction gs arbitrary: hs) (auto split: if_splits)

lemma name_set_update_stream [simp]: "of_name ` set (update_stream f s rs) = of_name ` set rs"
  by (induction rs) auto

lemma put_stream_tables [simp]:
  "readLocked g (put_stream f s m) = readLocked g m"
  "writeLocked g (put_stream f s m) = writeLocked g m"
  by (simp_all add: lookupBy_readLocked lookupBy_None_iff put_stream_def writeLocked_def)

lemma locks_disjoint_call: "lock_call m m' \<Longrightarrow> locks_disjoint m \<Longrightarrow> locks_disjoint m'"
proof (induction rule: lock_call.induct)
  case (4 m mem f j n)
  then show ?case
    by (auto simp: fm_getSegment_def locks_disjoint_def Let_def split: option.splits prod.splits)
next
  case (3 f m b m')
  then show ?case
    by (fastforce simp: writeUnlock_def locks_disjoint_def readLocked_def writeLocked_def list_ex_iff
        dest!: set_erase_first split: option.splits)
qed (fastforce simp: readLock_def readLock_enter_def writeLock_def locks_disjoint_def readLocked_def
      writeLocked_def list_ex_iff Let_def split: if_splits)+

interpretation lock_calls: invariant_system no_locks lock_call locks_disjoint
  by unfold_locales
    (simp add: no_locks_def locks_disjoint_def readLocked_def, blast intro: locks_disjoint_call)

text \<open>
  C27. If every call of a lock function runs to its end before the next begins, no file is ever
  locked for reading and for writing at once.
\<close>

theorem whole_calls_exclude:
  assumes "reachable no_locks lock_call m"
  shows "\<not> (readLocked f m \<and> writeLocked f m)"
  using lock_calls.reachable_inv[OF assms] by (simp add: locks_disjoint_def)

lemma whole_calls_exclude_witness:
  "\<not> (readLocked ''f'' (snd (the (readLock ''f'' (example_manager [])))) \<and>
      writeLocked ''f'' (snd (the (readLock ''f'' (example_manager [])))))"
proof (rule whole_calls_exclude)
  have "no_locks (example_manager [])" by (simp add: no_locks_def example_manager_def FileManager_def)
  then have "reachable no_locks lock_call (example_manager [])" by (rule reachable_init)
  then show "reachable no_locks lock_call (snd (the (readLock ''f'' (example_manager []))))"
    by (rule reachable_step)
      (rule lock_call.intros(1)[of "''f''" _ True], simp add: readLock_def writeLocked_def
        example_manager_def FileManager_def readLock_enter_def readLocked_def ifstream_open_def
        istream_open_def)
qed

end
