(* ===== verification/Sockets.thy ===== *)
theory Sockets
  imports Streams Messages Torrents
begin

text \<open>
  \<open>client/networking/BaseSocket.*\<close>, \<open>SSocket.*\<close> and \<open>CSocket.*\<close>: a connected socket and the
  requests a client makes over it. The network is part of the socket's state, as the results the
  coming calls of \<open>select\<close>, \<open>read\<close> and \<open>send\<close> will have. \<open>select\<close> is the one of Linux: it
  writes the time that is left back into \<open>recvTimeout\<close> and the ready descriptors (after a
  timeout, none) into \<open>sockSelectSet\<close>. Times are in microseconds.
\<close>

definition MAX_MESSAGE_SIZE :: nat where "MAX_MESSAGE_SIZE = 128 * 1024"
definition DEFAULT_RECV_TIMEOUT :: nat where "DEFAULT_RECV_TIMEOUT = 5 * 1000000"

text \<open>
  \<open>Readable w r\<close>: the socket becomes readable after \<open>w\<close>, and \<open>read\<close> then gives the bytes \<open>r\<close> (none
  at the end of the stream) or fails. \<open>SelectFails t\<close>: \<open>select\<close> returns -1 and leaves the timeout \<open>t\<close>,
  which is unspecified then. After the last event nothing arrives.
\<close>

datatype net_event = Readable nat "string option" | SelectFails nat

record sock =
  trackerIpString :: ip_string
  trackerPort :: "32 word"
  sockSelectSet :: bool            \<comment> \<open>\<open>sockFd\<close> is in the set\<close>
  recvTimeout :: nat
  readBuffer :: string
  lastMsg :: tcp_message
  state :: sock_state
  net_events :: "net_event list"
  net_sends :: "bool list"         \<comment> \<open>results of the coming sends; they succeed once it is empty\<close>
  wire :: "tcp_message list"       \<comment> \<open>the messages sent\<close>

section \<open>Sending bytes\<close>

text \<open>
  \<open>sendTcpMsg\<close> of \<open>sharedUtils.cpp\<close>: \<open>sent\<close> is what the system call returns, -1 or the number of
  bytes it took; the second result is the bytes that leave. Only -1 is looked at by any caller.
\<close>

definition sendTcpMsg :: "(tcp_message \<Rightarrow> string) \<Rightarrow> int \<Rightarrow> tcp_message \<Rightarrow> int \<times> string" where
  "sendTcpMsg serialize sent msg =
     (let outputBuf = serialize msg; bytesSent = sent in (bytesSent, take (nat bytesSent) outputBuf))"

text \<open>The test in \<open>BaseSocket::send\<close>.\<close>

definition send_failed :: "(tcp_message \<Rightarrow> string) \<Rightarrow> int \<Rightarrow> tcp_message \<Rightarrow> bool" where
  "send_failed serialize sent msg \<longleftrightarrow> fst (sendTcpMsg serialize sent msg) = -1"

text \<open>What \<open>handleSendError\<close> writes to the log; it changes nothing.\<close>

definition handleSendError :: "int \<Rightarrow> int \<Rightarrow> ip_string \<Rightarrow> string" where
  "handleSendError ECONNRESET error_code tracker =
     (if error_code = ECONNRESET then ''Connection reset by host '' @ tracker else ''Unknown send error'')"

text \<open>
  A message the kernel takes only in part is not sent again and not noticed: the call counts as
  a success although the peer can get only a part of the message.
\<close>

theorem partial_send_unnoticed:
  assumes "0 \<le> sent" and "sent < int (length (serialize msg))"
  shows "\<not> send_failed serialize sent msg \<and> snd (sendTcpMsg serialize sent msg) \<noteq> serialize msg \<and>
    length (snd (sendTcpMsg serialize sent msg)) = nat sent"
proof -
  have "nat sent < length (serialize msg)" using assms by linarith
  then have len: "length (take (nat sent) (serialize msg)) = nat sent" by simp
  then have "take (nat sent) (serialize msg) \<noteq> serialize msg"
    using \<open>nat sent < length (serialize msg)\<close> by (metis nat_neq_iff)
  then show ?thesis using assms(1) len by (simp add: send_failed_def sendTcpMsg_def)
qed

lemma partial_send_unnoticed_witness:
  "\<not> send_failed (\<lambda>_. ''abc'') 2 default_message \<and>
    snd (sendTcpMsg (\<lambda>_. ''abc'') 2 default_message) \<noteq> ''abc'' \<and>
    length (snd (sendTcpMsg (\<lambda>_. ''abc'') 2 default_message)) = nat 2"
  by (rule partial_send_unnoticed) simp_all

section \<open>SockException\<close>

text \<open>Declared for failures of sockets, and thrown nowhere.\<close>

record sock_exception =
  exceptionMessage :: string

definition SockException :: "string \<Rightarrow> sock_exception" where
  "SockException message = \<lparr>exceptionMessage = message\<rparr>"

definition what :: "sock_exception \<Rightarrow> string" where
  "what e = c_str (exceptionMessage e)"

section \<open>BaseSocket\<close>

text \<open>The constructor initialises neither the set, nor the timeout, nor the state.\<close>

definition BaseSocket :: "bool \<times> nat \<times> sock_state \<Rightarrow> net_event list \<Rightarrow> bool list \<Rightarrow> ip_string \<Rightarrow> 32 word \<Rightarrow> sock" where
  "BaseSocket junk es ss ipstr p =
     \<lparr>trackerIpString = ipstr, trackerPort = p, sockSelectSet = fst junk,
      recvTimeout = fst (snd junk), readBuffer = replicate MAX_MESSAGE_SIZE NUL,
      lastMsg = default_message, state = snd (snd junk), net_events = es, net_sends = ss, wire = []\<rparr>"

text \<open>
  \<open>start\<close>. The result is returned only: \<open>state\<close> is not assigned. The arguments say whether
  \<open>socket\<close>, \<open>inet_pton\<close> (of the address) and \<open>connect\<close> (to the address and port) succeed.
\<close>

definition start ::
  "bool \<Rightarrow> (ip_string \<Rightarrow> bool) \<Rightarrow> (ip_string \<Rightarrow> 16 word \<Rightarrow> bool) \<Rightarrow> sock \<Rightarrow> sock_state \<times> sock" where
  "start socket_ok inet_pton connects s =
     (if trackerPort s < 1024 \<or> trackerPort s > 65535 then (INVALID_ADDRESS, s)
      else if \<not> socket_ok then (CANNOT_CONNECT, s)
      else if \<not> inet_pton (c_str (trackerIpString s)) then (INVALID_ADDRESS, s)
      else if \<not> connects (c_str (trackerIpString s)) (ucast (trackerPort s)) then (CANNOT_CONNECT, s)
      else (OPEN, s\<lparr>sockSelectSet := True, recvTimeout := DEFAULT_RECV_TIMEOUT\<rparr>))"

definition time_out :: "sock \<Rightarrow> sock" where
  "time_out s = s\<lparr>state := TIMED_OUT, sockSelectSet := False, recvTimeout := 0\<rparr>"

definition handleRecvError :: "sock \<Rightarrow> sock" where
  "handleRecvError s = s\<lparr>state := ERROR\<rparr>"

text \<open>
  What \<open>receive\<close> does once \<open>select\<close> reported the socket readable. A failed \<open>read\<close> sets \<open>ERROR\<close>,
  but the buffer is parsed all the same, with size -1, and the state becomes \<open>RECVD\<close>.
\<close>

definition read_message :: "(string \<Rightarrow> int \<Rightarrow> tcp_message) \<Rightarrow> string option \<Rightarrow> sock \<Rightarrow> sock" where
  "read_message parse r s =
     (case r of
        None \<Rightarrow>
          let s1 = handleRecvError s in s1\<lparr>lastMsg := parse (readBuffer s1) (- 1), state := RECVD\<rparr>
      | Some bs \<Rightarrow>
          let got = take MAX_MESSAGE_SIZE bs; buf = overlay got (readBuffer s)
          in s\<lparr>readBuffer := buf, lastMsg := parse buf (int (length got)), state := RECVD\<rparr>)"

definition receive :: "(string \<Rightarrow> int \<Rightarrow> tcp_message) \<Rightarrow> sock \<Rightarrow> sock" where
  "receive parse s =
     (case net_events s of
        [] \<Rightarrow> time_out s
      | SelectFails t # es \<Rightarrow> s\<lparr>state := ERROR, recvTimeout := t, net_events := es\<rparr>
      | Readable w r # es \<Rightarrow>
          if sockSelectSet s \<and> w \<le> recvTimeout s then
            read_message parse r (s\<lparr>recvTimeout := recvTimeout s - w, net_events := es\<rparr>)
          else time_out (s\<lparr>net_events := Readable (w - recvTimeout s) r # es\<rparr>))"

text \<open>\<open>send\<close>: a failed send is logged, and the state is \<open>SENT\<close> all the same.\<close>

definition send :: "tcp_message \<Rightarrow> sock \<Rightarrow> sock" where
  "send m s =
     (let sent = (case net_sends s of [] \<Rightarrow> True | b # _ \<Rightarrow> b)
      in s\<lparr>state := SENT, net_sends := tl (net_sends s),
           wire := (if sent then wire s @ [m] else wire s)\<rparr>)"

section \<open>Requests\<close>

definition sendOk :: "(string \<Rightarrow> int \<Rightarrow> tcp_message) \<Rightarrow> (sock, tcp_code) op" where
  "sendOk parse s =
     (let s1 = send \<lparr>code = OK, contents = NoContents\<rparr> s
      in if state s1 = SENT then
           let s2 = receive parse s1
           in if state s2 = RECVD then (Inr (code (lastMsg s2)), s2) else (Inr CONNERROR, s2)
         else (Inr CONNERROR, s1))"

definition sendNewTorrentRequest ::
  "(string \<Rightarrow> int \<Rightarrow> tcp_message) \<Rightarrow> 32 word \<Rightarrow> torrent \<Rightarrow> (sock, hash_value) op" where
  "sendNewTorrentRequest parse responder_port t s =
     (let s1 = send \<lparr>code = CS_NEW_REQUEST, contents = NewRequest
                 \<lparr>nrq_torrentMsg = toMsg t, nrq_receiverPort = responder_port\<rparr>\<rparr> s
      in if state s1 = SENT then
           let s2 = receive parse s1
           in if state s2 = RECVD \<and> code (lastMsg s2) = CS_NEW_RESPONSE
              then (Inr (newResponse_newHash (contents (lastMsg s2))), s2) else (Inr 0, s2)
         else (Inr 0, s1))"

text \<open>The log line reads the first IPv4 peer before the response is returned.\<close>

definition sendSeedlistRequest ::
  "(string \<Rightarrow> int \<Rightarrow> tcp_message) \<Rightarrow> hash_value \<Rightarrow> (sock, seedlist_response) op" where
  "sendSeedlistRequest parse h s =
     (let s1 = send \<lparr>code = CS_SEEDLIST_REQUEST, contents = SeedlistRequest h\<rparr> s
      in if state s1 = SENT then
           let s2 = receive parse s1
           in if state s2 = RECVD \<and> code (lastMsg s2) = CS_SEEDLIST_RESPONSE then
                let r = seedlistResponse_of (contents (lastMsg s2))
                in case repeated_get 0 (ipV4Peers r) of
                     Inl e \<Rightarrow> (Inl e, s2)
                   | Inr _ \<Rightarrow> (Inr r, s2)
              else (Inr default_seedlist_response, s2)
         else (Inr default_seedlist_response, s1))"

text \<open>
  \<open>for (int i = 0; ips.size(); i++) n->set_...(i, ips[i])\<close>: the condition is the size, not a
  comparison, and \<open>set\<close> needs an element that is already there.
\<close>

function set_addresses :: "nat \<Rightarrow> ip_string list \<Rightarrow> ip_string list \<Rightarrow> ip_string list outcome" where
  "set_addresses i xs field =
     (if xs = [] then Inr field
      else if i \<ge> length xs then Inl (Undefined OutOfBounds)
      else case repeated_set i (xs ! i) field of
             Inl e \<Rightarrow> Inl e
           | Inr field' \<Rightarrow> set_addresses (Suc i) xs field')"
  by pat_completeness auto
termination by (relation "measure (\<lambda>(i, xs, _). length xs - i)") auto

declare set_addresses.simps [simp del]

definition sendClientUnavailable :: "ips \<Rightarrow> (sock, unit) op" where
  "sendClientUnavailable is s =
     (case set_addresses 0 (ipv4s is) [] of
        Inl e \<Rightarrow> (Inl e, s)
      | Inr v4 \<Rightarrow>
          (case set_addresses 0 (ipv6s is) [] of
             Inl e \<Rightarrow> (Inl e, s)
           | Inr v6 \<Rightarrow>
               (Inr (), send \<lparr>code = CS_CLIENT_UNAVAILABLE, contents = ClientUnavailable
                  \<lparr>ipV4Addresses = v4, ipV6Addresses = v6\<rparr>\<rparr> s)))"

definition sendImSeed :: "32 word \<Rightarrow> torrent \<Rightarrow> (sock, unit) op" where
  "sendImSeed responder_port t s =
     (Inr (), send \<lparr>code = CS_IM_A_SEED, contents = ImASeed
        \<lparr>ias_hashedTorrent = hashed t, ias_receiverPort = responder_port\<rparr>\<rparr> s)"

definition requestFragmentsList ::
  "(string \<Rightarrow> int \<Rightarrow> tcp_message) \<Rightarrow> torrent \<Rightarrow> (sock, list_response) op" where
  "requestFragmentsList parse t s =
     (let s1 = send \<lparr>code = CC_LIST_REQUEST, contents = ListRequest (hashed t)\<rparr> s
      in if state s1 = SENT then
           let s2 = receive parse s1
           in if state s2 = RECVD \<and> code (lastMsg s2) = CC_LIST_RESPONSE
              then (Inr (listResponse_of (contents (lastMsg s2))), s2)
              else (Inr (default_list_response\<lparr>lr_fileCode := F_ERROR\<rparr>), s2)
         else (Inr (default_list_response\<lparr>lr_fileCode := F_ERROR\<rparr>), s1))"

definition requestFragment ::
  "(string \<Rightarrow> int \<Rightarrow> tcp_message) \<Rightarrow> torrent \<Rightarrow> 32 word \<Rightarrow> (sock, fragment_response) op" where
  "requestFragment parse t fragNum s =
     (let s1 = send \<lparr>code = CC_FRAGMENT_REQUEST, contents = FragmentRequest
                 \<lparr>frq_hashedTorrent = hashed t, frq_fragNum = fragNum\<rparr>\<rparr> s
      in if state s1 = SENT then
           let s2 = receive parse s1
           in if state s2 = RECVD \<and> code (lastMsg s2) = CC_FRAGMENT_RESPONSE
              then (Inr (fragmentResponse_of (contents (lastMsg s2))), s2)
              else (Inr (default_fragment_response\<lparr>frs_fileCode := F_ERROR\<rparr>), s2)
         else (Inr (default_fragment_response\<lparr>frs_fileCode := F_ERROR\<rparr>), s1))"

section \<open>Facts about receiving\<close>

lemma handleRecvError_simps [simp]:
  "recvTimeout (handleRecvError s) = recvTimeout s" "sockSelectSet (handleRecvError s) = sockSelectSet s"
  "net_events (handleRecvError s) = net_events s" "readBuffer (handleRecvError s) = readBuffer s"
  by (simp_all add: handleRecvError_def)

lemma read_message_simps [simp]:
  "state (read_message parse r s) = RECVD" "recvTimeout (read_message parse r s) = recvTimeout s"
  "sockSelectSet (read_message parse r s) = sockSelectSet s"
  "net_events (read_message parse r s) = net_events s"
  by (simp_all add: read_message_def Let_def split: option.split)

lemma time_out_simps [simp]:
  "state (time_out s) = TIMED_OUT" "sockSelectSet (time_out s) = False" "recvTimeout (time_out s) = 0"
  by (simp_all add: time_out_def)

lemma send_simps [simp]:
  "state (send m s) = SENT" "recvTimeout (send m s) = recvTimeout s"
  "sockSelectSet (send m s) = sockSelectSet s" "net_events (send m s) = net_events s"
  "readBuffer (send m s) = readBuffer s"
  by (simp_all add: send_def Let_def)

lemma receive_unwatched:
  "\<not> sockSelectSet s \<Longrightarrow> state (receive parse s) \<noteq> RECVD \<and> \<not> sockSelectSet (receive parse s)"
  by (auto simp: receive_def split: list.split net_event.split)

lemma receive_readable:
  assumes "sockSelectSet s" and "net_events s = Readable w (Some bs) # es" and "w \<le> recvTimeout s"
  shows "receive parse s = read_message parse (Some bs) (s\<lparr>recvTimeout := recvTimeout s - w, net_events := es\<rparr>)"
  using assms by (simp add: receive_def)

lemma receive_late:
  assumes "net_events s = Readable w (Some bs) # es" and "recvTimeout s < w"
  shows "state (receive parse s) = TIMED_OUT \<and> \<not> sockSelectSet (receive parse s)"
  using assms by (simp add: receive_def)

text \<open>
  A failed \<open>read\<close> is not seen by the caller: after \<open>receive\<close> the state is \<open>ERROR\<close> only if
  \<open>select\<close> failed; when the descriptor is readable in time the state is \<open>RECVD\<close>, whatever
  \<open>read\<close> returned.
\<close>

theorem receive_masks_read_errors:
  "(state (receive parse s) = ERROR \<longleftrightarrow> (\<exists>t es. net_events s = SelectFails t # es)) \<and>
   (state (receive parse s) = RECVD \<longleftrightarrow> sockSelectSet s \<and>
      (\<exists>w r es. net_events s = Readable w r # es \<and> w \<le> recvTimeout s))"
  by (auto simp: receive_def split: list.split net_event.split)

section \<open>The contract of a request\<close>

text \<open>
  Every request that expects an answer sends one message, receives once, and judges the message
  received; anything else gives its failure value.
\<close>

locale socket_request =
  fixes req :: "(string \<Rightarrow> int \<Rightarrow> tcp_message) \<Rightarrow> (sock, 'r) op"
    and msg :: tcp_message
    and answer :: "tcp_message \<Rightarrow> 'r outcome"
    and failure :: 'r
  assumes req_eq: "req parse s =
    (let s' = receive parse (send msg s)
     in (if state s' = RECVD then answer (lastMsg s') else Inr failure, s'))"
begin

lemma unwatched_fails:
  assumes "\<not> sockSelectSet s"
  shows "fst (req parse s) = Inr failure" and "\<not> sockSelectSet (snd (req parse s))"
  using receive_unwatched[of "send msg s" parse] assms by (simp_all add: req_eq Let_def)

lemma late_fails:
  assumes "net_events s = Readable w (Some bs) # es" and "recvTimeout s < w"
  shows "fst (req parse s) = Inr failure" and "\<not> sockSelectSet (snd (req parse s))"
  using receive_late[of "send msg s" w bs es parse] assms by (simp_all add: req_eq Let_def)

lemma answered:
  assumes "sockSelectSet s" and "net_events s = Readable w (Some bs) # es" and "w \<le> recvTimeout s"
  defines "buf \<equiv> overlay (take MAX_MESSAGE_SIZE bs) (readBuffer s)"
  shows "fst (req parse s) = answer (parse buf (int (length (take MAX_MESSAGE_SIZE bs))))"
    and "sockSelectSet (snd (req parse s))" and "net_events (snd (req parse s)) = es"
    and "recvTimeout (snd (req parse s)) = recvTimeout s - w" and "readBuffer (snd (req parse s)) = buf"
  using receive_readable[of "send msg s" w bs es parse] assms
  by (simp_all add: req_eq Let_def read_message_def)

lemma send_result_ignored:
  "fst (req parse (s\<lparr>net_sends := bs\<rparr>)) = fst (req parse s)"
proof -
  have "state (receive parse (send msg (s\<lparr>net_sends := bs\<rparr>))) = state (receive parse (send msg s))"
    "lastMsg (receive parse (send msg (s\<lparr>net_sends := bs\<rparr>))) = lastMsg (receive parse (send msg s))"
    by (cases "net_events s"; simp add: receive_def send_def Let_def time_out_def read_message_def
        split: net_event.split option.split)+
  then show ?thesis by (simp add: req_eq Let_def)
qed

end

definition fragment_error :: fragment_response where
  "fragment_error = default_fragment_response\<lparr>frs_fileCode := F_ERROR\<rparr>"

definition fragment_answer :: "tcp_message \<Rightarrow> fragment_response" where
  "fragment_answer m =
     (if code m = CC_FRAGMENT_RESPONSE then fragmentResponse_of (contents m) else fragment_error)"

definition seedlist_answer :: "tcp_message \<Rightarrow> seedlist_response outcome" where
  "seedlist_answer m =
     (if code m = CS_SEEDLIST_RESPONSE then
        (if ipV4Peers (seedlistResponse_of (contents m)) = [] then Inl (Undefined RepeatedIndex)
         else Inr (seedlistResponse_of (contents m)))
      else Inr default_seedlist_response)"

interpretation fragment_request: socket_request "\<lambda>parse. requestFragment parse t k"
  "\<lparr>code = CC_FRAGMENT_REQUEST, contents = FragmentRequest
     \<lparr>frq_hashedTorrent = hashed t, frq_fragNum = k\<rparr>\<rparr>"
  "\<lambda>m. Inr (fragment_answer m)" fragment_error for t k
  by unfold_locales (simp add: requestFragment_def fragment_answer_def fragment_error_def Let_def)

interpretation seedlist_request: socket_request "\<lambda>parse. sendSeedlistRequest parse h"
  "\<lparr>code = CS_SEEDLIST_REQUEST, contents = SeedlistRequest h\<rparr>"
  seedlist_answer default_seedlist_response for h
  by unfold_locales (simp add: sendSeedlistRequest_def seedlist_answer_def repeated_get_def Let_def)

interpretation ok_request: socket_request sendOk "\<lparr>code = OK, contents = NoContents\<rparr>"
  "\<lambda>m. Inr (code m)" CONNERROR
  by unfold_locales (simp add: sendOk_def Let_def)

interpretation list_request: socket_request "\<lambda>parse. requestFragmentsList parse t"
  "\<lparr>code = CC_LIST_REQUEST, contents = ListRequest (hashed t)\<rparr>"
  "\<lambda>m. Inr (if code m = CC_LIST_RESPONSE then listResponse_of (contents m)
     else default_list_response\<lparr>lr_fileCode := F_ERROR\<rparr>)"
  "default_list_response\<lparr>lr_fileCode := F_ERROR\<rparr>" for t
  by unfold_locales (simp add: requestFragmentsList_def Let_def)

interpretation new_torrent_request: socket_request "\<lambda>parse. sendNewTorrentRequest parse p t"
  "\<lparr>code = CS_NEW_REQUEST, contents = NewRequest
     \<lparr>nrq_torrentMsg = toMsg t, nrq_receiverPort = p\<rparr>\<rparr>"
  "\<lambda>m. Inr (if code m = CS_NEW_RESPONSE then newResponse_newHash (contents m) else 0)" 0 for p t
  by unfold_locales (simp add: sendNewTorrentRequest_def Let_def)

text \<open>
  A request goes on in the same way whether its message was sent or not.
\<close>

theorem lost_request_unnoticed:
  "fst (requestFragment parse t k (s\<lparr>net_sends := False # bs\<rparr>)) =
   fst (requestFragment parse t k (s\<lparr>net_sends := True # bs\<rparr>))"
  by (simp add: fragment_request.send_result_ignored)

section \<open>A sequence of fragment requests\<close>

fun requestFragments ::
  "(string \<Rightarrow> int \<Rightarrow> tcp_message) \<Rightarrow> torrent \<Rightarrow> 32 word list \<Rightarrow> sock
     \<Rightarrow> fragment_response outcome list \<times> sock" where
  "requestFragments parse t [] s = ([], s)"
| "requestFragments parse t (k # ks) s =
     (let (r, s') = requestFragment parse t k s; (rs, s'') = requestFragments parse t ks s'
      in (r # rs, s''))"

lemma requestFragments_Cons_0:
  "fst (requestFragments parse t (k # ks) s) ! 0 = fst (requestFragment parse t k s)"
  by (simp add: Let_def split: prod.split)

lemma requestFragments_Cons_Suc:
  "fst (requestFragments parse t (k # ks) s) ! Suc j =
   fst (requestFragments parse t ks (snd (requestFragment parse t k s))) ! j"
  by (simp add: Let_def split: prod.split)

lemma unwatched_requestFragments:
  "\<not> sockSelectSet s \<Longrightarrow> j < length ks \<Longrightarrow>
   fst (requestFragments parse t ks s) ! j = Inr fragment_error"
proof (induction ks arbitrary: s j)
  case (Cons k ks)
  note f = fragment_request.unwatched_fails[OF Cons.prems(1), of parse t k]
  show ?case
    using f Cons by (cases j) (simp_all only: requestFragments_Cons_0 requestFragments_Cons_Suc
        length_Cons Suc_less_eq not_False_eq_True)
qed simp

text \<open>The buffer after a number of answers, and the message made of it.\<close>

definition arrivals :: "(nat \<times> string) list \<Rightarrow> net_event list" where
  "arrivals xs = map (\<lambda>(w, bs). Readable w (Some bs)) xs"

definition buffer_after :: "(nat \<times> string) list \<Rightarrow> string \<Rightarrow> string" where
  "buffer_after xs buf = fold (\<lambda>(w, bs) buf. overlay (take MAX_MESSAGE_SIZE bs) buf) xs buf"

lemma requestFragments_timed:
  assumes "sockSelectSet s" and "net_events s = arrivals xs" and "j < length ks" and "j < length xs"
  shows "fst (requestFragments parse t ks s) ! j =
    (if (\<Sum>(w, _) \<leftarrow> take (Suc j) xs. w) \<le> recvTimeout s
     then Inr (fragment_answer (parse (buffer_after (take (Suc j) xs) (readBuffer s))
            (int (length (take MAX_MESSAGE_SIZE (snd (xs ! j)))))))
     else Inr fragment_error)"
  using assms
proof (induction ks arbitrary: s xs j)
  case (Cons k ks)
  obtain w bs ys where xs: "xs = (w, bs) # ys" using Cons.prems(4) by (cases xs) auto
  have ev: "net_events s = Readable w (Some bs) # arrivals ys"
    using Cons.prems(2) xs by (simp add: arrivals_def)
  let ?s' = "snd (requestFragment parse t k s)"
  show ?case
  proof (cases "w \<le> recvTimeout s")
    case True
    note a = fragment_request.answered[OF Cons.prems(1) ev True, where parse = parse and t = t and k = k]
    show ?thesis
    proof (cases j)
      case 0
      then show ?thesis using a(1) True xs
        by (simp add: requestFragments_Cons_0 buffer_after_def del: requestFragments.simps)
    next
      case (Suc i)
      have "i < length ks" "i < length ys" using Cons.prems(3,4) Suc xs by auto
      from Cons.IH[OF a(2,3) this] show ?thesis
        using a(4,5) True Suc xs
        by (simp add: requestFragments_Cons_Suc buffer_after_def le_diff_conv2 add.commute
            del: requestFragments.simps)
    qed
  next
    case False
    then have late: "recvTimeout s < w" by simp
    note f = fragment_request.late_fails[OF ev late, of parse t k]
    show ?thesis
    proof (cases j)
      case 0
      then show ?thesis using f(1) False xs
        by (simp add: requestFragments_Cons_0 del: requestFragments.simps)
    next
      case (Suc i)
      then show ?thesis using unwatched_requestFragments[OF f(2), of i ks] Cons.prems(3) False xs
        by (simp add: requestFragments_Cons_Suc del: requestFragments.simps)
    qed
  qed
qed simp

text \<open>
  C32. The five seconds of \<open>recvTimeout\<close> are not per answer: over one started socket the answer to
  a fragment request is used exactly when all answers so far together took at most five seconds,
  and from the first late one on every request fails at once.
\<close>

theorem fragments_share_timeout:
  assumes "start True ptn conn s0 = (OPEN, s)" and "net_events s0 = arrivals xs"
    and "j < length ks" and "j < length xs"
  shows "fst (requestFragments parse t ks s) ! j =
    (if (\<Sum>(w, _) \<leftarrow> take (Suc j) xs. w) \<le> 5000000
     then Inr (fragment_answer (parse (buffer_after (take (Suc j) xs) (readBuffer s0))
            (int (length (take MAX_MESSAGE_SIZE (snd (xs ! j)))))))
     else Inr fragment_error)"
proof -
  have s: "s = s0\<lparr>sockSelectSet := True, recvTimeout := DEFAULT_RECV_TIMEOUT\<rparr>"
    using assms(1) by (simp add: start_def split: if_splits)
  show ?thesis
    using requestFragments_timed[of s xs j ks parse t] assms s
    by (simp add: DEFAULT_RECV_TIMEOUT_def)
qed

definition example_sock :: "net_event list \<Rightarrow> sock" where
  "example_sock es = BaseSocket (False, 7, CLOSED) es [] ''10.0.0.7'' 59096"

lemma fragments_share_timeout_witness:
  "fst (requestFragments (\<lambda>_ _. default_message) Torrent_default [0, 1] (snd (start True (\<lambda>_. True) (\<lambda>_ _. True)
      (example_sock (arrivals [(3000000, ''a''), (3000000, ''b'')]))))) ! 1 = Inr fragment_error"
  using fragments_share_timeout [of "\<lambda>_. True" "\<lambda>_ _. True"
      "example_sock (arrivals [(3000000, ''a''), (3000000, ''b'')])"
      "snd (start True (\<lambda>_. True) (\<lambda>_ _. True)
         (example_sock (arrivals [(3000000, ''a''), (3000000, ''b'')])))"
      "[(3000000, ''a''), (3000000, ''b'')]" 1 "[0, 1]" "\<lambda>_ _. default_message" Torrent_default]
  by (simp add: start_def example_sock_def BaseSocket_def)

section \<open>Requests without an answer\<close>

lemma set_addresses_eq:
  "set_addresses 0 xs [] = (if xs = [] then Inr [] else Inl (Undefined RepeatedIndex))"
  by (subst set_addresses.simps) simp

text \<open>
  \<open>sendClientUnavailable\<close> never sends an address: with any address to report it sets an
  element of an empty repeated field before anything is sent; with none it sends an empty message.
\<close>

theorem sendClientUnavailable_cases:
  "sendClientUnavailable is s =
    (if ipv4s is = [] \<and> ipv6s is = [] then
       (Inr (), send \<lparr>code = CS_CLIENT_UNAVAILABLE, contents = ClientUnavailable
          \<lparr>ipV4Addresses = [], ipV6Addresses = []\<rparr>\<rparr> s)
     else (Inl (Undefined RepeatedIndex), s))"
  by (simp add: sendClientUnavailable_def set_addresses_eq)

end
