(* ===== verification/Download.thy ===== *)
theory Download
  imports File_Manager Sockets
begin

text \<open>
  \<open>client/download/DownloadWorker.*\<close> and \<open>DownloadManager.*\<close>. A worker fetches the fragments one peer
  lists and stores them; the manager asks the tracker for peers and starts a worker for each. The
  functions are run alone here; what threads sharing one \<open>File\<close> can do to each other is in
  \<open>Client_File\<close>, and for the \<open>FileManager\<close> in \<open>File_Manager\<close>. \<open>None\<close> is a worker asleep in a lock.
\<close>

section \<open>The world a socket is created in\<close>

record net_env =
  ne_socket :: bool
  ne_pton :: "ip_string \<Rightarrow> bool"
  ne_connects :: "ip_string \<Rightarrow> 16 word \<Rightarrow> bool"
  ne_junk :: "bool \<times> nat \<times> sock_state"
  ne_events :: "net_event list"
  ne_sends :: "bool list"

definition connect_to :: "net_env \<Rightarrow> ip_string \<Rightarrow> 32 word \<Rightarrow> sock_state \<times> sock" where
  "connect_to env a p =
     start (ne_socket env) (ne_pton env) (ne_connects env)
       (BaseSocket (ne_junk env) (ne_events env) (ne_sends env) a p)"

section \<open>DownloadWorker\<close>

record worker =
  wk_file :: file_obj
  wk_manager :: file_manager
  wk_sock :: sock

record download_worker =
  dw_file :: file_obj
  dw_peer :: peer_info
  dw_torrent :: torrent
  finished :: bool

text \<open>
  The constructor moves the parameter \<open>file1\<close> into the member and reads the torrent through the
  parameter, which the move made null.
\<close>

definition DownloadWorker :: "file_obj option \<Rightarrow> peer_info \<Rightarrow> download_worker outcome" where
  "DownloadWorker file1 peer1 =
     (let file = file1; file1 = None
      in case (file, file1) of
           (Some f, Some (f1 :: file_obj)) \<Rightarrow>
             Inr \<lparr>dw_file = f, dw_peer = peer1, dw_torrent = fileTorrent f1, finished = False\<rparr>
         | _ \<Rightarrow> Inl (Undefined NullPointer))"

text \<open>The loop over the fragments the peer listed.\<close>

fun work_fragments ::
  "(string \<Rightarrow> int \<Rightarrow> tcp_message) \<Rightarrow> torrent \<Rightarrow> 32 word list \<Rightarrow> worker
     \<Rightarrow> (unit outcome \<times> worker) option" where
  "work_fragments parse t [] w = Some (Inr (), w)"
| "work_fragments parse t (k # ks) w =
     (let i = int_of_u32 k
      in case tryToSetStateSegmentStateToDownload i (wk_file w) of
           (Inl e, f) \<Rightarrow> Some (Inl e, w\<lparr>wk_file := f\<rparr>)
         | (Inr False, f) \<Rightarrow> work_fragments parse t ks (w\<lparr>wk_file := f\<rparr>)
         | (Inr True, f) \<Rightarrow>
             (case requestFragment parse t k (wk_sock w) of
                (Inl e, s) \<Rightarrow> Some (Inl e, w\<lparr>wk_file := f, wk_sock := s\<rparr>)
              | (Inr r, s) \<Rightarrow>
                  let w1 = w\<lparr>wk_file := f, wk_sock := s\<rparr>
                  in if frs_fileCode r = F_ERROR then
                       (case setSegmentState i FREE (wk_file w1) of
                          (Inl e, f') \<Rightarrow> Some (Inl e, w1\<lparr>wk_file := f'\<rparr>)
                        | (Inr _, f') \<Rightarrow> work_fragments parse t ks (w1\<lparr>wk_file := f'\<rparr>))
                     else
                       (case storeSegmentToFile (fileName (fileTorrent (wk_file w1)))
                               (filePath (wk_file w1)) i (frs_fragment r) (wk_manager w1) of
                          None \<Rightarrow> None
                        | Some (Inl e, m) \<Rightarrow> Some (Inl e, w1\<lparr>wk_manager := m\<rparr>)
                        | Some (Inr _, m) \<Rightarrow>
                            (case setSegmentState i COMPLETE (wk_file w1) of
                               (Inl e, f') \<Rightarrow> Some (Inl e, w1\<lparr>wk_manager := m, wk_file := f'\<rparr>)
                             | (Inr _, f') \<Rightarrow>
                                 work_fragments parse t ks (w1\<lparr>wk_manager := m, wk_file := f'\<rparr>)))))"

text \<open>
  \<open>work\<close>: the flag says whether \<open>finished\<close> was set.
\<close>

definition work ::
  "(string \<Rightarrow> int \<Rightarrow> tcp_message) \<Rightarrow> net_env \<Rightarrow> peer_info \<Rightarrow> torrent \<Rightarrow> file_obj \<times> file_manager
     \<Rightarrow> (bool outcome \<times> file_obj \<times> file_manager) option" where
  "work parse env peer t fm =
     (let peerIp = (if ipV4Address peer = [] then ipV6Address peer else ipV4Address peer)
      in if peerIp = [] then Some (Inr True, fm)
         else case connect_to env peerIp (of_int (peerPort peer)) of
                (st, s) \<Rightarrow>
                  if st \<noteq> OPEN then Some (Inr True, fm)
                  else (case requestFragmentsList parse t s of
                      (Inl e, s') \<Rightarrow> Some (Inl e, fm)
                    | (Inr peerFragments, s') \<Rightarrow>
                        (case work_fragments parse t (lr_fragments peerFragments)
                                \<lparr>wk_file = fst fm, wk_manager = snd fm, wk_sock = s'\<rparr> of
                           None \<Rightarrow> None
                         | Some (Inl e, w) \<Rightarrow> Some (Inl e, wk_file w, wk_manager w)
                         | Some (Inr _, w) \<Rightarrow> Some (Inr True, wk_file w, wk_manager w))))"

text \<open>
  The thread of \<open>startWorker\<close>: an exception is caught and logged, and \<open>finished\<close> stays false then.
\<close>

definition startWorker ::
  "(string \<Rightarrow> int \<Rightarrow> tcp_message) \<Rightarrow> net_env \<Rightarrow> peer_info \<Rightarrow> torrent \<Rightarrow> file_obj \<times> file_manager
     \<Rightarrow> (bool outcome \<times> file_obj \<times> file_manager) option" where
  "startWorker parse env peer t fm =
     (case work parse env peer t fm of
        Some (Inl (Thrown e), fm') \<Rightarrow> Some (Inr False, fm')
      | r \<Rightarrow> r)"

section \<open>DownloadManager\<close>

record download_manager =
  trackerAddress :: ip_address
  dm_file :: file_obj
  workers :: "download_worker list"

definition DownloadManager :: "file_obj \<Rightarrow> ip_address \<Rightarrow> download_manager" where
  "DownloadManager file1 tracker = \<lparr>trackerAddress = tracker, dm_file = file1, workers = []\<rparr>"

text \<open>
  \<open>getPeers\<close> returns a copy, so the three iterators belong to three different vectors. For empty
  vectors all three are null and equal, and nothing is found; otherwise the search runs from one vector towards the
  end of another.
\<close>

definition checkIfFileContainsPeer :: "file_obj \<Rightarrow> bool outcome" where
  "checkIfFileContainsPeer f =
     (if peers f = [] then Inr False else Inl (Undefined InvalidIterator))"

fun addPeersTo :: "(int \<Rightarrow> ip_port \<Rightarrow> peer_info) \<Rightarrow> ip_port list \<Rightarrow> (file_obj, unit) op" where
  "addPeersTo mk [] f = (Inr (), f)"
| "addPeersTo mk (i # is) f =
     (case checkIfFileContainsPeer f of
        Inl e \<Rightarrow> (Inl e, f)
      | Inr b \<Rightarrow>
          addPeersTo mk is
            (if b then snd (addPeer (mk (int (length (peers f)) + 1) i) f) else f))"

definition peer_of_v4 :: "int \<Rightarrow> ip_port \<Rightarrow> peer_info" where
  "peer_of_v4 n i = PeerInfo n (ipp_ip i) [] (int_of_u32 (ipp_port i))"

definition peer_of_v6 :: "int \<Rightarrow> ip_port \<Rightarrow> peer_info" where
  "peer_of_v6 n i = PeerInfo n [] (ipp_ip i) (int_of_u32 (ipp_port i))"

definition addPeersToFile :: "seedlist_response \<Rightarrow> (file_obj, unit) op" where
  "addPeersToFile r =
     andThen (addPeersTo peer_of_v6 (ipV6Peers r)) (\<lambda>_.
     andThen (addPeersTo peer_of_v6 (ipV6Seeds r)) (\<lambda>_.
     andThen (addPeersTo peer_of_v4 (ipV4Seeds r)) (\<lambda>_.
     addPeersTo peer_of_v4 (ipV4Peers r))))"

definition checkIfWorkersWorkWithPeer :: "peer_info list \<Rightarrow> peer_info \<Rightarrow> bool" where
  "checkIfWorkersWorkWithPeer myPeers peer =
     list_ex (\<lambda>x. ipV6Address x = ipV6Address peer \<or> ipV4Address x = ipV4Address peer) myPeers"

definition getPeer :: "download_worker \<Rightarrow> peer_info" where
  "getPeer w = dw_peer w"

definition isDone :: "download_worker \<Rightarrow> bool" where
  "isDone w = finished w"

definition startWorkerThreadForPeer :: "peer_info \<Rightarrow> (download_manager, unit) op" where
  "startWorkerThreadForPeer peer m =
     (case DownloadWorker (Some (dm_file m)) peer of
        Inl e \<Rightarrow> (Inl e, m)
      | Inr w \<Rightarrow> (Inr (), m\<lparr>workers := workers m @ [w]\<rparr>))"

definition startWorkersForNewPeers :: "(download_manager, unit) op" where
  "startWorkersForNewPeers m =
     (let myPeers = map getPeer (workers m)
      in forEach (\<lambda>fp. if \<not> checkIfWorkersWorkWithPeer myPeers fp then startWorkerThreadForPeer fp
                       else ret ()) (peers (dm_file m)) m)"

definition checkIfWorkersWork :: "download_manager \<Rightarrow> bool" where
  "checkIfWorkersWork m = list_ex (\<lambda>w. \<not> isDone w) (workers m)"

definition updatePeersAndStartWorkers ::
  "(string \<Rightarrow> int \<Rightarrow> tcp_message) \<Rightarrow> net_env \<Rightarrow> (download_manager, unit) op" where
  "updatePeersAndStartWorkers parse env m =
     (case connect_to env (ip (trackerAddress m)) (port (trackerAddress m)) of
        (st, s) \<Rightarrow>
          if st \<noteq> OPEN then (Inr (), m)
          else (case fst (sendSeedlistRequest parse (hashed (fileTorrent (dm_file m))) s) of
              Inl e \<Rightarrow> (Inl e, m)
            | Inr listResponse \<Rightarrow>
                (case addPeersToFile listResponse (dm_file m) of
                   (Inl e, f) \<Rightarrow> (Inl e, m\<lparr>dm_file := f\<rparr>)
                 | (Inr _, f) \<Rightarrow> startWorkersForNewPeers (m\<lparr>dm_file := f\<rparr>))))"

text \<open>
  \<open>manageWorkers\<close>. A round gives the network and what the worker threads did before it, a change
  of the manager's shared data; a list of rounds that runs out leaves the loop running.
\<close>

fun manageWorkers ::
  "(string \<Rightarrow> int \<Rightarrow> tcp_message) \<Rightarrow> (net_env \<times> (download_manager \<Rightarrow> download_manager)) list
     \<Rightarrow> download_manager \<Rightarrow> (unit outcome \<times> download_manager) option" where
  "manageWorkers parse rounds m =
     (if \<not> checkIfWorkersWork m then Some (Inr (), m)
      else case isComplete (dm_file m) of
             (Inl e, f) \<Rightarrow> Some (Inl e, m\<lparr>dm_file := f\<rparr>)
           | (Inr True, f) \<Rightarrow> Some (Inr (), m\<lparr>dm_file := f\<rparr>)
           | (Inr False, f) \<Rightarrow>
               (case rounds of
                  [] \<Rightarrow> None
                | (env, others) # rounds' \<Rightarrow>
                    (case updatePeersAndStartWorkers parse env (m\<lparr>dm_file := f\<rparr>) of
                       (Inl e, m') \<Rightarrow> Some (Inl e, m')
                     | (Inr _, m') \<Rightarrow> manageWorkers parse rounds' (others m'))))"

text \<open>The body of the manager's thread, up to the join of the workers and the handler of exceptions.\<close>

definition start_manager ::
  "(string \<Rightarrow> int \<Rightarrow> tcp_message) \<Rightarrow> net_env
     \<Rightarrow> (net_env \<times> (download_manager \<Rightarrow> download_manager)) list \<Rightarrow> download_manager
     \<Rightarrow> (unit outcome \<times> download_manager) option" where
  "start_manager parse env rounds m =
     (case updatePeersAndStartWorkers parse env m of
        (Inl e, m') \<Rightarrow> Some (Inl e, m')
      | (Inr _, m') \<Rightarrow> manageWorkers parse rounds m')"

text \<open>\<open>join\<close> of each worker's thread; the list says which of them end.\<close>

fun joinWorkers :: "bool list \<Rightarrow> unit outcome option" where
  "joinWorkers [] = Some (Inr ())"
| "joinWorkers (ends # ts) = (if ends then joinWorkers ts else None)"

text \<open>The whole thread: a \<open>std::exception\<close> is caught and logged.\<close>

definition manager_thread ::
  "(string \<Rightarrow> int \<Rightarrow> tcp_message) \<Rightarrow> net_env
     \<Rightarrow> (net_env \<times> (download_manager \<Rightarrow> download_manager)) list \<Rightarrow> bool list \<Rightarrow> download_manager
     \<Rightarrow> (unit outcome \<times> download_manager) option" where
  "manager_thread parse env rounds worker_ends m =
     (case start_manager parse env rounds m of
        Some (Inr _, m') \<Rightarrow>
          map_option (\<lambda>r. (r, m')) (joinWorkers (take (length (workers m')) worker_ends))
      | Some (Inl (Thrown e), m') \<Rightarrow> Some (Inr (), m')
      | r \<Rightarrow> r)"

declare manageWorkers.simps [simp del]

section \<open>A download that goes well\<close>

lemma int_of_u32_small: "int (unat k) < 2147483648 \<Longrightarrow> int_of_u32 k = int (unat k)"
  by (simp add: int_of_u32_eq)

lemma small_offset: "int i * 8000 < 2 ^ 31 \<Longrightarrow> int i < 2147483648"
proof -
  assume "int i * 8000 < 2 ^ 31"
  then have "int i * 8000 < 2147483648" by simp
  moreover have "int i \<le> int i * 8000" by simp
  ultimately show ?thesis by linarith
qed

text \<open>What a peer's answer must be for a segment to be stored whole.\<close>

definition full_answer :: "fragment_response \<Rightarrow> bool" where
  "full_answer r \<longleftrightarrow> frs_fileCode r \<noteq> F_ERROR \<and> length (frs_fragment r) = 8000"

definition free_segment :: "file_obj \<Rightarrow> nat \<Rightarrow> bool" where
  "free_segment f i \<longleftrightarrow> i < length (segments f) \<and> segState (segments f ! i) = FREE \<and> int i * 8000 < 2 ^ 31"

definition completed :: "nat \<Rightarrow> file_obj \<Rightarrow> file_obj" where
  "completed i f = f\<lparr>segments := (segments f)[i := (segments f ! i)\<lparr>segState := COMPLETE\<rparr>]\<rparr>"

lemma completed_simps [simp]:
  "fileTorrent (completed i f) = fileTorrent f" "filePath (completed i f) = filePath f"
  "length (segments (completed i f)) = length (segments f)"
  "i \<noteq> j \<Longrightarrow> free_segment (completed i f) j = free_segment f j"
  by (simp_all add: completed_def free_segment_def)

lemma segState_completed:
  "i < length (segments f) \<Longrightarrow>
   segState (segments (completed i f) ! j) = (if j = i then COMPLETE else segState (segments f ! j))"
  by (simp add: completed_def nth_list_update)

definition claimed :: "nat \<Rightarrow> file_obj \<Rightarrow> file_obj" where
  "claimed i f = f\<lparr>segments := (segments f)[i := Segment_setState DOWNLOADING (segments f ! i)]\<rparr>"

lemma claim_free_segment:
  "free_segment f i \<Longrightarrow> tryToSetStateSegmentStateToDownload (int i) f = (Inr True, claimed i f)"
  by (simp add: tryToSetStateSegmentStateToDownload_def inRange_def claimed_def free_segment_def)

lemma complete_claimed_segment:
  "free_segment f i \<Longrightarrow> setSegmentState (int i) COMPLETE (claimed i f) = (Inr (), completed i f)"
  by (simp add: setSegmentState_def inRange_def Let_def completed_def Segment_setState_def
      claimed_def free_segment_def)

lemma claimed_simps [simp]:
  "fileTorrent (claimed i f) = fileTorrent f" "filePath (claimed i f) = filePath f"
  by (simp_all add: claimed_def)

text \<open>One round: the segment is claimed, fetched, stored and marked.\<close>

lemma work_fragments_round:
  assumes "free_segment f (unat k)" and "requestFragment parse t k s = (Inr r, s')" and "full_answer r"
    and "unlocked (fileName (fileTorrent f)) m" and "openable (fileName (fileTorrent f)) old m"
  shows "work_fragments parse t (k # ks) \<lparr>wk_file = f, wk_manager = m, wk_sock = s\<rparr> =
    work_fragments parse t ks \<lparr>wk_file = completed (unat k) f,
      wk_manager = set_file (fileName (fileTorrent f)) (put_block (unat k) (frs_fragment r) old) m,
      wk_sock = s'\<rparr>"
proof -
  have bound: "int (unat k) * 8000 < 2 ^ 31" using assms(1) by (simp only: free_segment_def)
  have i: "int_of_u32 k = int (unat k)" by (rule int_of_u32_small[OF small_offset[OF bound]])
  have store: "storeSegmentToFile (fileName (fileTorrent f)) (filePath f) (int (unat k)) (frs_fragment r) m =
      Some (Inr (), set_file (fileName (fileTorrent f)) (put_block (unat k) (frs_fragment r) old) m)"
    using assms bound by (intro storeSegmentToFile_full) (simp_all only: full_answer_def)
  show ?thesis
    using assms(2,3) by (simp add: i claim_free_segment[OF assms(1)] store
        complete_claimed_segment[OF assms(1)] Let_def full_answer_def del: of_nat_unat)
qed

lemma work_fragments_good:
  assumes "distinct ks" and "\<forall>k \<in> set ks. free_segment f (unat k) \<and> full_answer (ans k)"
    and "fst (requestFragments parse t ks s) = map (\<lambda>k. Inr (ans k)) ks"
    and "unlocked (fileName (fileTorrent f)) m" and "openable (fileName (fileTorrent f)) old m"
  shows "\<exists>f' bs. work_fragments parse t ks \<lparr>wk_file = f, wk_manager = m, wk_sock = s\<rparr> =
      Some (Inr (), \<lparr>wk_file = f', wk_manager = set_file (fileName (fileTorrent f)) bs m,
        wk_sock = snd (requestFragments parse t ks s)\<rparr>) \<and>
    length (segments f') = length (segments f) \<and>
    (\<forall>j < length (segments f). segState (segments f' ! j) =
      (if j \<in> unat ` set ks then COMPLETE else segState (segments f ! j))) \<and>
    (\<forall>k \<in> set ks. block (unat k) bs = frs_fragment (ans k)) \<and>
    (\<forall>j. j \<notin> unat ` set ks \<longrightarrow> block j bs = block j old)"
  using assms
proof (induction ks arbitrary: f m s old)
  case Nil
  have "set_file (fileName (fileTorrent f)) old m = m"
    using Nil.prems by (cases m) (simp add: set_file_def openable_def fun_upd_idem)
  then show ?case by (intro exI[of _ f] exI[of _ old]) simp
next
  case (Cons k ks)
  let ?n = "fileName (fileTorrent f)"
  obtain s' where req: "requestFragment parse t k s = (Inr (ans k), s')"
    and rest: "fst (requestFragments parse t ks s') = map (\<lambda>k. Inr (ans k)) ks"
    and last: "snd (requestFragments parse t (k # ks) s) = snd (requestFragments parse t ks s')"
    using Cons.prems(3) by (cases "requestFragment parse t k s") (auto split: prod.splits)
  let ?f = "completed (unat k) f" and ?old = "put_block (unat k) (frs_fragment (ans k)) old"
  let ?m = "set_file ?n ?old m"
  have k: "free_segment f (unat k)" "full_answer (ans k)" using Cons.prems(2) by auto
  have unat: "unat k' = unat k \<longleftrightarrow> k' = k" for k' :: "32 word"
    by (simp only: word_unat_eq_iff)
  have len: "length (frs_fragment (ans k)) = 8000" using k by (simp add: full_answer_def)
  have free: "\<forall>k' \<in> set ks. free_segment ?f (unat k') \<and> full_answer (ans k')"
  proof
    fix k' assume k': "k' \<in> set ks"
    then have "k' \<noteq> k" using Cons.prems(1) by auto
    then have "unat k \<noteq> unat k'" using unat[of k'] by metis
    then show "free_segment ?f (unat k') \<and> full_answer (ans k')" using Cons.prems(2) k' by simp
  qed
  have notin: "unat k \<notin> unat ` set ks"
  proof
    assume "unat k \<in> unat ` set ks"
    then obtain k' where "unat k' = unat k" "k' \<in> set ks" by auto
    with unat[of k'] Cons.prems(1) show False by simp
  qed
  have "unlocked (fileName (fileTorrent ?f)) ?m" "openable (fileName (fileTorrent ?f)) ?old ?m"
    using Cons.prems(4,5) by (simp_all add: openable_def)
  from Cons.IH[OF _ free rest this] Cons.prems(1)
  obtain f' bs where ih: "work_fragments parse t ks \<lparr>wk_file = ?f, wk_manager = ?m, wk_sock = s'\<rparr> =
      Some (Inr (), \<lparr>wk_file = f', wk_manager = set_file ?n bs m,
        wk_sock = snd (requestFragments parse t ks s')\<rparr>)"
    "length (segments f') = length (segments f)"
    "\<forall>j < length (segments f). segState (segments f' ! j) =
      (if j \<in> unat ` set ks then COMPLETE else segState (segments ?f ! j))"
    "\<forall>k \<in> set ks. block (unat k) bs = frs_fragment (ans k)"
    "\<forall>j. j \<notin> unat ` set ks \<longrightarrow> block j bs = block j ?old"
    by auto
  have blocks: "block (unat k) bs = frs_fragment (ans k)"
    "\<And>j. j \<notin> unat ` set (k # ks) \<Longrightarrow> block j bs = block j old"
    using ih(5) notin len by (auto simp: block_put_block_same block_put_block_other)
  have "unat k < length (segments f)" using k by (simp add: free_segment_def)
  note st = segState_completed[OF this]
  show ?case
    using work_fragments_round[OF k(1) req k(2) Cons.prems(4,5), of ks] ih last blocks
    by (intro exI[of _ f'] exI[of _ bs]) (auto simp: st)
qed

text \<open>
  C2. A worker whose peer lists distinct free segments and answers every request for one with a
  whole segment in time finishes with exactly those segments complete, and with the file on disk
  holding each fragment in its segment's place and every other segment's bytes as before.
\<close>

theorem work_downloads:
  assumes "ipV4Address peer \<noteq> []"
    and "connect_to env (ipV4Address peer) (of_int (peerPort peer)) = (OPEN, s)"
    and "requestFragmentsList parse t s = (Inr list, s')" and "distinct (lr_fragments list)"
    and "\<forall>k \<in> set (lr_fragments list). free_segment f (unat k) \<and> full_answer (ans k)"
    and "fst (requestFragments parse t (lr_fragments list) s') = map (\<lambda>k. Inr (ans k)) (lr_fragments list)"
    and "unlocked (fileName (fileTorrent f)) m" and "openable (fileName (fileTorrent f)) old m"
  shows "\<exists>f' bs. work parse env peer t (f, m) =
      Some (Inr True, f', set_file (fileName (fileTorrent f)) bs m) \<and>
    length (segments f') = length (segments f) \<and>
    (\<forall>j < length (segments f). segState (segments f' ! j) =
      (if j \<in> unat ` set (lr_fragments list) then COMPLETE else segState (segments f ! j))) \<and>
    (\<forall>k \<in> set (lr_fragments list). block (unat k) bs = frs_fragment (ans k)) \<and>
    (\<forall>j. j \<notin> unat ` set (lr_fragments list) \<longrightarrow> block j bs = block j old)"
  using work_fragments_good[OF assms(4-8)] assms(1-3) by (force simp: work_def)

definition example_peer :: peer_info where
  "example_peer = PeerInfo 1 ''10.0.0.7'' [] 59096"

definition example_env :: "net_event list \<Rightarrow> net_env" where
  "example_env es = \<lparr>ne_socket = True, ne_pton = (\<lambda>_. True), ne_connects = (\<lambda>_ _. True),
     ne_junk = (False, 0, CLOSED), ne_events = es, ne_sends = []\<rparr>"

text \<open>A peer that lists segment 0 and sends its bytes; the first byte tells the two messages apart.\<close>

definition example_parse :: "string \<Rightarrow> int \<Rightarrow> tcp_message" where
  "example_parse buf n =
     (if hd buf = CHR ''L'' then \<lparr>code = CC_LIST_RESPONSE, contents = ListResponse
        \<lparr>lr_hashedTorrent = 3, lr_fileCode = F_FRAG_COMPLETE, lr_fragments = [0]\<rparr>\<rparr>
      else \<lparr>code = CC_FRAGMENT_RESPONSE, contents = FragmentResponse
        \<lparr>frs_hashedTorrent = 3, frs_fragNum = 0, frs_fileCode = F_FINE,
         frs_fragment = replicate 8000 CHR ''a''\<rparr>\<rparr>)"

definition example_file :: file_obj where
  "example_file = File_default\<lparr>fileTorrent := Torrent_hashed 3 8000 ''f'',
     segments := [Segment 0 0 FREE], numOfSegments := 1, fileSize := 8000, filePath := ''f''\<rparr>"

lemma example_file_eq: "File (Torrent_hashed 3 8000 ''f'') ''f'' = example_file"
  by (simp add: example_file_def File_def generateSegments_def Let_def File_default_def
      segment_count_def DEFAULTSEGMENTSIZE_def Torrent_hashed_def int_of_u32_eq
      signed_divide_int_def signed_modulo_int_def)

lemma take_one_message: "take MAX_MESSAGE_SIZE [c] = [c]"
  by (simp add: MAX_MESSAGE_SIZE_def)

lemma example_exchange:
  "connect_to (example_env (arrivals [(0, ''L''), (9, ''F'')])) ''10.0.0.7'' 59096 =
     (OPEN, snd (connect_to (example_env (arrivals [(0, ''L''), (9, ''F'')])) ''10.0.0.7'' 59096))"
  "fst (requestFragmentsList example_parse t
      (snd (connect_to (example_env (arrivals [(0, ''L''), (9, ''F'')])) ''10.0.0.7'' 59096))) =
     Inr \<lparr>lr_hashedTorrent = 3, lr_fileCode = F_FRAG_COMPLETE, lr_fragments = [0]\<rparr>"
  "fst (requestFragments example_parse t [0] (snd (requestFragmentsList example_parse t
      (snd (connect_to (example_env (arrivals [(0, ''L''), (9, ''F'')])) ''10.0.0.7'' 59096))))) =
     [Inr \<lparr>frs_hashedTorrent = 3, frs_fragNum = 0, frs_fileCode = F_FINE,
         frs_fragment = replicate 8000 CHR ''a''\<rparr>]"
  by (simp_all add: connect_to_def example_env_def start_def BaseSocket_def arrivals_def
      requestFragmentsList_def requestFragment_def send_def receive_def read_message_def Let_def
      DEFAULT_RECV_TIMEOUT_def overlay_def example_parse_def take_one_message)

lemma work_downloads_witness:
  "\<exists>f' bs. work example_parse (example_env (arrivals [(0, ''L''), (9, ''F'')])) example_peer
      (Torrent_hashed 3 8000 ''f'') (example_file, example_manager []) =
      Some (Inr True, f', set_file ''f'' bs (example_manager [])) \<and>
    segState (segments f' ! 0) = COMPLETE \<and> block 0 bs = replicate 8000 CHR ''a''"
proof -
  let ?env = "example_env (arrivals [(0, ''L''), (9, ''F'')])" and ?t = "Torrent_hashed 3 8000 ''f''"
  let ?s = "snd (connect_to ?env ''10.0.0.7'' 59096)"
  let ?s' = "snd (requestFragmentsList example_parse ?t ?s)"
  let ?list = "\<lparr>lr_hashedTorrent = 3, lr_fileCode = F_FRAG_COMPLETE, lr_fragments = [0]\<rparr>"
  let ?r = "\<lparr>frs_hashedTorrent = 3, frs_fragNum = 0, frs_fileCode = F_FINE,
         frs_fragment = replicate 8000 CHR ''a''\<rparr>"
  have list: "requestFragmentsList example_parse ?t ?s = (Inr ?list, ?s')"
    by (rule prod_eqI) (simp_all only: example_exchange(2) fst_conv snd_conv)
  have ip: "ipV4Address example_peer \<noteq> []" by (simp add: example_peer_def PeerInfo_def)
  have conn: "connect_to ?env (ipV4Address example_peer) (of_int (peerPort example_peer)) = (OPEN, ?s)"
    using example_exchange(1) by (simp add: example_peer_def PeerInfo_def)
  have free: "\<forall>k \<in> set (lr_fragments ?list). free_segment example_file (unat k) \<and> full_answer ?r"
    by (simp add: free_segment_def example_file_def full_answer_def Segment_def)
  have answers: "fst (requestFragments example_parse ?t (lr_fragments ?list) ?s') =
      map (\<lambda>k. Inr ?r) (lr_fragments ?list)"
    using example_exchange(3)[of ?t] by (simp del: requestFragments.simps)
  have name: "fileName (fileTorrent example_file) = ''f''"
    by (simp add: example_file_def Torrent_hashed_def)
  have disk: "unlocked (fileName (fileTorrent example_file)) (example_manager [])"
    "openable (fileName (fileTorrent example_file)) [] (example_manager [])"
    by (simp_all add: name example_manager_def FileManager_def unlocked_def readLocked_def
        writeLocked_def openable_def)
  have "distinct (lr_fragments ?list)" by simp
  from work_downloads [OF ip conn list this free answers disk]
  obtain f' bs where w: "work example_parse ?env example_peer ?t (example_file, example_manager []) =
      Some (Inr True, f', set_file ''f'' bs (example_manager []))"
    and st: "\<forall>j < length (segments example_file). segState (segments f' ! j) =
      (if j \<in> unat ` set (lr_fragments ?list) then COMPLETE else segState (segments example_file ! j))"
    and bs: "\<forall>k \<in> set (lr_fragments ?list). block (unat k) bs = frs_fragment ?r"
    unfolding name by blast
  have "0 < length (segments example_file)" by (simp add: example_file_def)
  with st have "segState (segments f' ! 0) = COMPLETE" by simp
  moreover have "block 0 bs = replicate 8000 CHR ''a''" using bs by simp
  ultimately show ?thesis using w by blast
qed

section \<open>Downloads that do not\<close>

text \<open>How a segment's state may change over a worker's run.\<close>

definition settled :: "segment_state \<Rightarrow> segment_state \<Rightarrow> bool" where
  "settled a b \<longleftrightarrow> b = a \<or> a = FREE \<and> b = COMPLETE"

lemma settled_refl [simp]: "settled a a" and settled_trans: "settled a b \<Longrightarrow> settled b c \<Longrightarrow> settled a c"
  by (auto simp: settled_def)

definition states_settled :: "file_obj \<Rightarrow> file_obj \<Rightarrow> bool" where
  "states_settled f g \<longleftrightarrow>
     list_all2 (\<lambda>s s'. settled (segState s) (segState s')) (segments f) (segments g)"

lemma states_settled_refl [simp]: "states_settled f f"
  by (simp add: states_settled_def list.rel_refl)

lemma states_settled_trans: "states_settled f g \<Longrightarrow> states_settled g h \<Longrightarrow> states_settled f h"
  unfolding states_settled_def by (rule list_all2_trans[OF settled_trans])

lemma states_settled_round:
  assumes "tryToSetStateSegmentStateToDownload i f = (Inr True, f1)"
    and "setSegmentState i st f1 = (Inr u, f2)" and "st \<noteq> DOWNLOADING"
  shows "states_settled f f2"
  using assms
  by (cases st) (auto simp: states_settled_def tryToSetStateSegmentStateToDownload_def
      setSegmentState_def Let_def settled_def list_all2_conv_all_nth nth_list_update
      inRange_def split: if_splits)

lemma work_fragments_settles:
  "work_fragments parse t ks w = Some (Inr u, w') \<Longrightarrow> states_settled (wk_file w) (wk_file w')"
proof (induction ks arbitrary: w)
  case (Cons k ks)
  obtain b f where claim: "tryToSetStateSegmentStateToDownload (int_of_u32 k) (wk_file w) = (Inr b, f)"
    using Cons.prems by (auto simp: Let_def split: prod.splits sum.splits)
  show ?case
  proof (cases b)
    case False
    then have "f = wk_file w"
      using claim by (auto simp: tryToSetStateSegmentStateToDownload_def split: if_splits)
    with Cons.prems claim False Cons.IH[of "w\<lparr>wk_file := f\<rparr>"] show ?thesis by simp
  next
    case True
    obtain w1 st f1 where "setSegmentState (int_of_u32 k) st f = (Inr (), f1)" "st \<noteq> DOWNLOADING"
      "work_fragments parse t ks (w1\<lparr>wk_file := f1\<rparr>) = Some (Inr u, w')"
      using Cons.prems claim True
      by (fastforce simp: Let_def split: prod.splits sum.splits if_splits option.splits)
    with states_settled_round[of _ "wk_file w" f st "()" f1] claim True
      Cons.IH[of "w1\<lparr>wk_file := f1\<rparr>"]
    show ?thesis by (auto intro: states_settled_trans)
  qed
qed simp

text \<open>
  C21. Whatever the peer lists and answers, a worker that finishes leaves every segment as it was
  or has taken it from free to complete: no claim is left behind and no complete segment is lost.
\<close>

theorem work_settles_segments:
  assumes "work parse env peer t (f, m) = Some (Inr b, f', m')"
  shows "length (segments f') = length (segments f) \<and>
    (\<forall>j < length (segments f). segState (segments f' ! j) = segState (segments f ! j) \<or>
      segState (segments f ! j) = FREE \<and> segState (segments f' ! j) = COMPLETE)"
proof -
  have "states_settled f f'"
    using assms work_fragments_settles[of parse t _ "\<lparr>wk_file = f, wk_manager = m, wk_sock = _\<rparr>"]
    by (fastforce simp: work_def Let_def split: if_splits prod.splits sum.splits option.splits)
  then show ?thesis
    by (auto simp: states_settled_def settled_def list_all2_conv_all_nth)
qed

lemma work_settles_segments_witness:
  "work example_parse (example_env []) example_peer (Torrent_hashed 3 8000 ''f'')
      (example_file, example_manager []) = Some (Inr True, example_file, example_manager []) \<and>
    length (segments example_file) = 1 \<and>
    (segState (segments example_file ! 0) = FREE \<or> segState (segments example_file ! 0) = COMPLETE)"
proof -
  have run: "work example_parse (example_env []) example_peer (Torrent_hashed 3 8000 ''f'')
      (example_file, example_manager []) = Some (Inr True, example_file, example_manager [])"
    by (simp add: work_def example_peer_def PeerInfo_def connect_to_def example_env_def start_def
        BaseSocket_def requestFragmentsList_def send_def receive_def time_out_def Let_def
        default_list_response_def)
  show ?thesis
    using work_settles_segments [OF run] run by (simp add: example_file_def Segment_def)
qed

text \<open>
  Only \<open>F_ERROR\<close> counts as a failed fragment. Any other answer whose fragment is too short,
  such as an empty \<open>F_NO_FILE\<close>, is stored: the read runs past the fragment's bytes, with the
  segment still claimed and the file still locked for writing.
\<close>

theorem short_fragment_crashes_worker:
  assumes "free_segment f (unat k)" and "requestFragment parse t k s = (Inr r, s')"
    and "frs_fileCode r \<noteq> F_ERROR" and "length (frs_fragment r) < 7999"
    and "unlocked (fileName (fileTorrent f)) m" and "openable (fileName (fileTorrent f)) old m"
  shows "\<exists>w'. work_fragments parse t (k # ks) \<lparr>wk_file = f, wk_manager = m, wk_sock = s\<rparr> =
      Some (Inl (Undefined OutOfBounds), w') \<and>
    segState (segments (wk_file w') ! unat k) = DOWNLOADING \<and>
    writeLocked (fileName (fileTorrent f)) (wk_manager w')"
proof -
  have bound: "int (unat k) * 8000 < 2 ^ 31" "unat k < length (segments f)"
    using assms(1) by (simp_all only: free_segment_def)
  have i: "int_of_u32 k = int (unat k)" by (rule int_of_u32_small[OF small_offset[OF bound(1)]])
  have store: "storeSegmentToFile (fileName (fileTorrent f)) (filePath f) (int (unat k)) (frs_fragment r) m
      = Some (Inl (Undefined OutOfBounds),
          m\<lparr>writeLockedFiles := writeLockedFiles m @ [fileName (fileTorrent f)]\<rparr>)"
    using storeSegmentToFile_short[OF assms(5,6) bound(1)] assms(4) by simp
  show ?thesis
    using assms(2,3) bound(2)
    by (simp add: i claim_free_segment[OF assms(1)] store Let_def writeLocked_def claimed_def
        del: of_nat_unat)
qed

lemma short_fragment_crashes_worker_witness:
  "\<exists>w'. work_fragments (\<lambda>_ _. \<lparr>code = CC_FRAGMENT_RESPONSE, contents = FragmentResponse
        (default_fragment_response\<lparr>frs_fileCode := F_NO_FILE\<rparr>)\<rparr>) (Torrent_hashed 3 8000 ''f'') [0]
      \<lparr>wk_file = example_file, wk_manager = example_manager [],
       wk_sock = snd (connect_to (example_env (arrivals [(0, ''x'')])) ''10.0.0.7'' 59096)\<rparr> =
      Some (Inl (Undefined OutOfBounds), w') \<and>
    segState (segments (wk_file w') ! unat (0 :: 32 word)) = DOWNLOADING \<and>
    writeLocked (fileName (fileTorrent example_file)) (wk_manager w')"
proof (rule short_fragment_crashes_worker)
  let ?parse = "\<lambda>_ _. \<lparr>code = CC_FRAGMENT_RESPONSE, contents = FragmentResponse
        (default_fragment_response\<lparr>frs_fileCode := F_NO_FILE\<rparr>)\<rparr>"
  let ?s = "snd (connect_to (example_env (arrivals [(0, ''x'')])) ''10.0.0.7'' 59096)"
  have "fst (requestFragment ?parse (Torrent_hashed 3 8000 ''f'') 0 ?s) =
      Inr (default_fragment_response\<lparr>frs_fileCode := F_NO_FILE\<rparr>)"
    by (simp add: connect_to_def example_env_def start_def BaseSocket_def arrivals_def
      requestFragment_def send_def receive_def read_message_def Let_def)
  then show "requestFragment ?parse (Torrent_hashed 3 8000 ''f'') 0 ?s =
      (Inr (default_fragment_response\<lparr>frs_fileCode := F_NO_FILE\<rparr>),
       snd (requestFragment ?parse (Torrent_hashed 3 8000 ''f'') 0 ?s))"
    by (simp add: prod_eq_iff)
qed (simp_all add: free_segment_def example_file_def default_fragment_response_def
    example_manager_def FileManager_def unlocked_def readLocked_def writeLocked_def openable_def
    Torrent_hashed_def Segment_def)

text \<open>
  When the file cannot be opened the store returns quietly, and the worker marks the segment
  complete although no byte of it is on disk.
\<close>

theorem complete_without_bytes:
  assumes "free_segment f (unat k)" and "requestFragment parse t k s = (Inr r, s')"
    and "frs_fileCode r \<noteq> F_ERROR" and "\<not> readLocked (fileName (fileTorrent f)) m"
    and "files (disk m) (c_str (fileName (fileTorrent f))) = None"
  shows "\<exists>w'. work_fragments parse t [k] \<lparr>wk_file = f, wk_manager = m, wk_sock = s\<rparr> = Some (Inr (), w') \<and>
    segState (segments (wk_file w') ! unat k) = COMPLETE \<and> disk (wk_manager w') = disk m"
proof -
  have bound: "int (unat k) * 8000 < 2 ^ 31" "unat k < length (segments f)"
    using assms(1) by (simp_all only: free_segment_def)
  have i: "int_of_u32 k = int (unat k)" by (rule int_of_u32_small[OF small_offset[OF bound(1)]])
  have store: "storeSegmentToFile (fileName (fileTorrent f)) (filePath f) (int (unat k)) (frs_fragment r) m
      = Some (Inr (), m\<lparr>writeLockedFiles := writeLockedFiles m @ [fileName (fileTorrent f)]\<rparr>)"
    using assms(4,5) by (simp add: storeSegmentToFile_def writeLock_def)
  show ?thesis
    using assms(2,3) bound(2)
    by (simp add: i claim_free_segment[OF assms(1)] store complete_claimed_segment[OF assms(1)]
        Let_def segState_completed del: of_nat_unat)
qed

lemma complete_without_bytes_witness:
  "\<exists>w'. work_fragments (\<lambda>_ _. \<lparr>code = CC_FRAGMENT_RESPONSE, contents = FragmentResponse
        (default_fragment_response\<lparr>frs_fileCode := F_FINE\<rparr>)\<rparr>) (Torrent_hashed 3 8000 ''f'') [0]
      \<lparr>wk_file = example_file,
       wk_manager = FileManager \<lparr>files = (\<lambda>_. None), accessible = (\<lambda>_. True)\<rparr>,
       wk_sock = snd (connect_to (example_env (arrivals [(0, ''x'')])) ''10.0.0.7'' 59096)\<rparr> =
      Some (Inr (), w') \<and>
    segState (segments (wk_file w') ! unat (0 :: 32 word)) = COMPLETE \<and>
    disk (wk_manager w') = disk (FileManager \<lparr>files = (\<lambda>_. None), accessible = (\<lambda>_. True)\<rparr>)"
proof (rule complete_without_bytes)
  let ?parse = "\<lambda>_ _. \<lparr>code = CC_FRAGMENT_RESPONSE, contents = FragmentResponse
        (default_fragment_response\<lparr>frs_fileCode := F_FINE\<rparr>)\<rparr>"
  let ?s = "snd (connect_to (example_env (arrivals [(0, ''x'')])) ''10.0.0.7'' 59096)"
  have "fst (requestFragment ?parse (Torrent_hashed 3 8000 ''f'') 0 ?s) =
      Inr (default_fragment_response\<lparr>frs_fileCode := F_FINE\<rparr>)"
    by (simp add: connect_to_def example_env_def start_def BaseSocket_def arrivals_def
      requestFragment_def send_def receive_def read_message_def Let_def)
  then show "requestFragment ?parse (Torrent_hashed 3 8000 ''f'') 0 ?s =
      (Inr (default_fragment_response\<lparr>frs_fileCode := F_FINE\<rparr>),
       snd (requestFragment ?parse (Torrent_hashed 3 8000 ''f'') 0 ?s))"
    by (simp add: prod_eq_iff)
qed (simp_all add: free_segment_def example_file_def FileManager_def readLocked_def Segment_def)

section \<open>The manager\<close>

lemma DownloadWorker_null [simp]: "DownloadWorker file1 peer1 = Inl (Undefined NullPointer)"
  by (simp add: DownloadWorker_def split: option.split)

lemma addPeersTo_no_peers: "peers f = [] \<Longrightarrow> addPeersTo mk is f = (Inr (), f)"
  by (induction "is") (simp_all add: checkIfFileContainsPeer_def)

lemma addPeersToFile_no_peers: "peers f = [] \<Longrightarrow> addPeersToFile r f = (Inr (), f)"
  by (simp add: addPeersToFile_def addPeersTo_no_peers)

lemma updatePeers_no_peers:
  assumes "peers (dm_file m) = []"
  shows "updatePeersAndStartWorkers parse env m = (Inr (), m) \<or>
    updatePeersAndStartWorkers parse env m = (Inl (Undefined RepeatedIndex), m)"
proof -
  have "fst (sendSeedlistRequest parse h s) = Inl e \<Longrightarrow> e = Undefined RepeatedIndex" for h s e
    by (auto simp: sendSeedlistRequest_def repeated_get_def Let_def split: if_splits)
  then show ?thesis
    using assms by (auto simp: updatePeersAndStartWorkers_def addPeersToFile_no_peers
        startWorkersForNewPeers_def split: prod.split sum.split)
qed

text \<open>A manager whose file has no peers ends without having done anything.\<close>

lemma manager_without_peers:
  assumes "peers f = []"
  shows "manager_thread parse env rounds ends (DownloadManager f tracker) \<in>
    {Some (Inr (), DownloadManager f tracker), Some (Inl (Undefined RepeatedIndex), DownloadManager f tracker)}"
proof -
  let ?m = "DownloadManager f tracker"
  have m: "peers (dm_file ?m) = []" "workers ?m = []" using assms by (simp_all add: DownloadManager_def)
  have "start_manager parse env rounds ?m = Some (Inr (), ?m) \<or>
      start_manager parse env rounds ?m = Some (Inl (Undefined RepeatedIndex), ?m)"
    using updatePeers_no_peers[OF m(1), of parse env] m(2)
    by (subst (1 2) start_manager_def) (auto simp: manageWorkers.simps checkIfWorkersWork_def)
  then show ?thesis using m(2) by (auto simp: manager_thread_def)
qed

text \<open>
  C35. A download never starts. The thread of the manager a client creates for a new file ends
  without having added a peer or a worker, whatever the tracker answers: either it
  returns at once with everything unchanged, or the tracker's list had no IPv4 peer and reading
  the first one faults.
\<close>

theorem manager_downloads_nothing:
  "manager_thread parse env rounds ends (DownloadManager (File t path) tracker) \<in>
    {Some (Inr (), DownloadManager (File t path) tracker),
     Some (Inl (Undefined RepeatedIndex), DownloadManager (File t path) tracker)}"
  by (rule manager_without_peers) (simp add: File_segments)

definition example_dm :: download_manager where
  "example_dm = \<lparr>trackerAddress = \<lparr>ip = ''10.0.0.1'', port = 59095\<rparr>,
     dm_file = File (Torrent_hashed 3 8000 ''f'') ''f'', workers = []\<rparr>"

text \<open>
  A worker's thread ends with its \<open>finished\<close> set, or in undefined behaviour, or sleeps in a lock: the
  handler of \<open>startWorker\<close> never has anything to catch.
\<close>

lemma setSegmentState_fault: "setSegmentState i st f = (Inl e, f') \<Longrightarrow> st \<noteq> DOWNLOADING \<Longrightarrow> \<exists>u. e = Undefined u"
  by (auto simp: setSegmentState_def Let_def split: if_splits)

lemma storeSegmentToFile_fault: "storeSegmentToFile n p i d m = Some (Inl e, m') \<Longrightarrow> \<exists>u. e = Undefined u"
  by (auto simp: storeSegmentToFile_def Let_def split: option.splits if_splits)

lemma work_fragments_fault: "work_fragments parse t ks w = Some (Inl e, w') \<Longrightarrow> \<exists>u. e = Undefined u"
proof (induction ks arbitrary: w)
  case (Cons k ks)
  have req: "fst (requestFragment parse t k s) \<noteq> Inl e" for s
    using fragment_request.req_eq[of parse t k s] by (simp add: Let_def split: if_splits)
  from Cons.prems req[of "wk_sock w"] show ?case
    by (auto simp: Let_def tryToSetStateSegmentStateToDownload_def
        split: prod.splits sum.splits bool.splits option.splits if_splits
        dest: Cons.IH setSegmentState_fault storeSegmentToFile_fault)
qed simp

theorem startWorker_catches_nothing:
  "startWorker parse env peer t fm = work parse env peer t fm \<and>
   (case startWorker parse env peer t fm of
      None \<Rightarrow> True | Some (Inr b, _) \<Rightarrow> b | Some (Inl e, _) \<Rightarrow> \<exists>u. e = Undefined u)"
proof -
  have "fst (requestFragmentsList parse t s) \<noteq> Inl e" for s e
    using list_request.req_eq[of parse t s] by (simp add: Let_def split: if_splits)
  then have cases: "case work parse env peer t fm of
      None \<Rightarrow> True | Some (Inr b, _) \<Rightarrow> b | Some (Inl e, _) \<Rightarrow> \<exists>u. e = Undefined u"
    by (auto simp: work_def Let_def split: prod.splits sum.splits option.splits
        dest: work_fragments_fault) (metis fst_conv)+
  then have "startWorker parse env peer t fm = work parse env peer t fm"
    by (auto simp: startWorker_def split: option.splits sum.splits fault.splits)
  with cases show ?thesis by simp
qed

text \<open>
  With a peer in the file the manager fares no better: starting a worker for it reads the
  torrent through the moved-from pointer. And since the comparison with the peers at work takes
  two empty addresses for equal, one IPv4 peer at work hides all other IPv4 peers.
\<close>

theorem worker_start_faults:
  assumes "peers (dm_file m) = p # ps"
  shows "startWorkersForNewPeers m =
    (if \<exists>q \<in> set (p # ps). \<not> checkIfWorkersWorkWithPeer (map getPeer (workers m)) q
     then (Inl (Undefined NullPointer), m) else (Inr (), m)) \<and>
    (checkIfWorkersWorkWithPeer [peer_of_v4 a i] (peer_of_v4 b j))"
proof
  have "forEach (\<lambda>fp. if \<not> checkIfWorkersWorkWithPeer ws fp then startWorkerThreadForPeer fp else ret ()) qs m =
      (if \<exists>q \<in> set qs. \<not> checkIfWorkersWorkWithPeer ws q
       then (Inl (Undefined NullPointer), m) else (Inr (), m))" for qs ws
    by (induction qs) (simp_all add: andThen_def startWorkerThreadForPeer_def)
  then show "startWorkersForNewPeers m =
    (if \<exists>q \<in> set (p # ps). \<not> checkIfWorkersWorkWithPeer (map getPeer (workers m)) q
     then (Inl (Undefined NullPointer), m) else (Inr (), m))"
    unfolding startWorkersForNewPeers_def assms Let_def .
  show "checkIfWorkersWorkWithPeer [peer_of_v4 a i] (peer_of_v4 b j)"
    by (simp add: checkIfWorkersWorkWithPeer_def peer_of_v4_def PeerInfo_def)
qed

lemma worker_start_faults_witness:
  "startWorkersForNewPeers (example_dm\<lparr>dm_file := (dm_file example_dm)\<lparr>peers := [example_peer]\<rparr>\<rparr>) =
    (Inl (Undefined NullPointer), example_dm\<lparr>dm_file := (dm_file example_dm)\<lparr>peers := [example_peer]\<rparr>\<rparr>)"
  using worker_start_faults [of "example_dm\<lparr>dm_file := (dm_file example_dm)\<lparr>peers := [example_peer]\<rparr>\<rparr>"
      example_peer "[]" 0 "\<lparr>ipp_ip = [], ipp_port = 0\<rparr>" 0 "\<lparr>ipp_ip = [], ipp_port = 0\<rparr>"]
  by (simp add: example_dm_def checkIfWorkersWorkWithPeer_def)

end
