(* ===== verification/Client_Database.thy ===== *)
theory Client_Database
  imports Client_File
begin

text \<open>
  \<open>client/database/Database.*\<close>: the client's list of shared files and its file format. The
  uninitialised locals of \<open>loadFromFile\<close> (the count, and in every round the length of a path)
  and of the torrent constructor are arguments of the model.
\<close>

type_synonym client_db = "file_obj list"

text \<open>\<open>std::make_shared<File>(file)\<close> runs the copy constructor of \<open>File\<close>.\<close>

definition addFile :: "file_obj \<Rightarrow> client_db \<Rightarrow> client_db" where
  "addFile file db = db @ [File_copy file]"

text \<open>\<open>getFile\<close> returns a reference into the vector: the model returns the position.\<close>

fun getFile_from :: "nat \<Rightarrow> id \<Rightarrow> client_db \<Rightarrow> nat outcome" where
  "getFile_from k i [] = Inl (Undefined MissingReturn)"
| "getFile_from k i (f # fs) = (if File_getId f = i then Inr k else getFile_from (Suc k) i fs)"

definition getFile :: "id \<Rightarrow> client_db \<Rightarrow> nat outcome" where
  "getFile i db = getFile_from 0 i db"

definition isFileInDatabase :: "torrent \<Rightarrow> client_db \<Rightarrow> bool" where
  "isFileInDatabase t db = list_ex (\<lambda>f. hashed (fileTorrent f) = hashed t) db"

section \<open>The database file\<close>

fun path_records :: "client_db \<Rightarrow> string" where
  "path_records [] = []"
| "path_records (f # fs) =
     (if \<not> hasPath (fileTorrent f) then path_records fs
      else let path = currentPath (fileTorrent f);
               nameSize = (of_nat (length path) :: 32 word)
           in enc32 nameSize @ take (unat nameSize) path @ path_records fs)"

definition db_bytes :: "client_db \<Rightarrow> string" where
  "db_bytes db = enc16 (of_nat (length db)) @ path_records db"

definition Database_saveToFile :: "string \<Rightarrow> client_db \<Rightarrow> file_system \<Rightarrow> int \<times> file_system" where
  "Database_saveToFile filename db fs =
     (if \<not> accessible fs (c_str filename) then (1, fs)
      else (0, ofstream_store filename (db_bytes db) fs))"

text \<open>
  One round of the loop per entry of the count. \<open>junk i\<close> and \<open>tjunk i\<close> are the bytes found in the
  uninitialised \<open>nameSize\<close> of round \<open>i\<close>, here and in the constructor of \<open>Torrent\<close>.
\<close>

fun load_entries ::
  "(nat \<Rightarrow> 32 word) \<Rightarrow> (nat \<Rightarrow> 32 word) \<Rightarrow> file_system \<Rightarrow> nat \<Rightarrow> nat \<Rightarrow> istream \<Rightarrow> client_db
     \<Rightarrow> client_db" where
  "load_entries junk tjunk fs i 0 s db = db"
| "load_entries junk tjunk fs i (Suc n) s db =
     (let (b, s1) = istream_read 4 s;
          nameSize = dec32 (overlay b (enc32 (junk i)));
          (p, s2) = istream_read (unat nameSize) s1;
          torrentPath = overlay p (replicate (unat nameSize) NUL)
      in if \<not> stat_ok torrentPath fs then load_entries junk tjunk fs (Suc i) n s2 db
         else let t = Torrent_load (tjunk i) torrentPath fs;
                  f = File t (fileName t)
              in load_entries junk tjunk fs (Suc i) n s2 (addFile f db))"

definition Database_loadFromFile ::
  "16 word \<Rightarrow> (nat \<Rightarrow> 32 word) \<Rightarrow> (nat \<Rightarrow> 32 word) \<Rightarrow> string \<Rightarrow> file_system \<Rightarrow> client_db
     \<Rightarrow> int \<times> client_db" where
  "Database_loadFromFile cjunk junk tjunk filename fs db =
     (if \<not> stat_ok filename fs then (1, db)
      else let (b, s) = istream_read 2 (ifstream_open filename fs);
               torrentCount = dec16 (overlay b (enc16 cjunk))
           in (0, load_entries junk tjunk fs 0 (unat torrentCount) s []))"

section \<open>What the database holds\<close>

definition all_blank :: "client_db \<Rightarrow> bool" where
  "all_blank db \<longleftrightarrow> (\<forall>f \<in> set db. f = File_default)"

lemma addFile_blank: "all_blank db \<Longrightarrow> all_blank (addFile f db)"
  by (auto simp: all_blank_def addFile_def File_copy_def)

lemma load_entries_blank: "all_blank db \<Longrightarrow> all_blank (load_entries junk tjunk fs i n s db)"
  by (induction n arbitrary: i s db) (auto simp: Let_def addFile_blank split: prod.splits)

inductive client_db_step :: "client_db \<Rightarrow> client_db \<Rightarrow> bool" where
  cdb_add: "client_db_step db (addFile f db)"
| cdb_load: "Database_loadFromFile cjunk junk tjunk filename fs db = (r, db') \<Longrightarrow> client_db_step db db'"

inductive_simps client_db_step_iff: "client_db_step db db'"

definition no_files :: "client_db \<Rightarrow> bool" where
  "no_files db \<longleftrightarrow> db = []"

lemma load_blank:
  assumes "all_blank db" and "Database_loadFromFile cjunk junk tjunk filename fs db = (r, db')"
  shows "all_blank db'"
proof -
  have "all_blank []" by (simp add: all_blank_def)
  from load_entries_blank[OF this] assms show ?thesis
    by (auto simp: Database_loadFromFile_def Let_def split: prod.splits if_splits)
qed

interpretation client_db_history: invariant_system no_files client_db_step all_blank
proof unfold_locales
  show "all_blank db" if "no_files db" for db using that by (simp add: no_files_def all_blank_def)
  show "all_blank db'" if "all_blank db" "client_db_step db db'" for db db'
    using that load_blank by (auto simp: client_db_step_iff addFile_blank)
qed

text \<open>
  Whatever files are added or loaded, the client's database only ever holds blank files: no
  torrent, no segments, no path, and a file is found in it only under the hash 0.
\<close>

theorem client_database_blank:
  assumes "reachable no_files client_db_step db"
  shows "db = replicate (length db) File_default \<and>
    (isFileInDatabase t db \<longleftrightarrow> db \<noteq> [] \<and> hashed t = 0) \<and>
    getFile i db = (if db \<noteq> [] \<and> i = 0 then Inr 0 else Inl (Undefined MissingReturn))"
proof -
  have "all_blank db" using assms by (rule client_db_history.reachable_inv)
  then have db: "db = replicate (length db) File_default"
    by (auto simp: all_blank_def replicate_length_same)
  have id0: "File_getId File_default = 0"
    by (simp add: File_getId_def File_default_def Torrent_default_def id_of_hash_def)
  have miss: "getFile_from k i (replicate n File_default) = Inl (Undefined MissingReturn)"
    if "i \<noteq> 0" for k n
    using that by (induction n arbitrary: k) (auto simp: id0)
  have "getFile i (replicate n File_default) =
      (if n \<noteq> 0 \<and> i = 0 then Inr 0 else Inl (Undefined MissingReturn))" for n
    using miss[of 0 n] by (cases n; cases "i = 0") (auto simp: getFile_def id0 miss)
  moreover have "isFileInDatabase t (replicate n File_default) \<longleftrightarrow> n \<noteq> 0 \<and> hashed t = 0" for n
    by (auto simp: isFileInDatabase_def list_ex_iff File_default_def Torrent_default_def)
  ultimately show ?thesis using db by (metis length_0_conv length_replicate)
qed

theorem client_database_blank_witness:
  "[File_default] = replicate (length [File_default]) File_default \<and>
   (isFileInDatabase (Torrent_hashed 7 9 ''f'') [File_default] \<longleftrightarrow>
      [File_default] \<noteq> [] \<and> hashed (Torrent_hashed 7 9 ''f'') = 0) \<and>
   getFile 7 [File_default] =
     (if [File_default] \<noteq> [] \<and> (7::int) = 0 then Inr 0 else Inl (Undefined MissingReturn))"
proof -
  have "client_db_step [] [File_default]"
    using cdb_add[of "[]" "File (Torrent_hashed 7 9 ''f'') ''f''"]
    by (simp add: addFile_def File_copy_def)
  then have "reachable no_files client_db_step [File_default]"
    by (rule reachable_step[rotated]) (rule reachable_init, simp add: no_files_def)
  then show ?thesis by (rule client_database_blank)
qed

section \<open>Saving and loading\<close>

text \<open>At the end of the file every round reads nothing, and the path it tries is empty.\<close>

lemma istream_read_exhausted:
  assumes "failbit s \<or> eofbit s \<or> drop (gpos s) (content s) = []" and "0 < n"
  shows "\<exists>s'. istream_read n s = ([], s') \<and> failbit s'"
  using assms by (auto simp: istream_read_def Let_def)

lemma load_entries_exhausted:
  assumes "\<not> stat_ok [] fs"
    and "failbit s \<or> eofbit s \<or> drop (gpos s) (content s) = []"
  shows "load_entries junk tjunk fs i n s db = db"
  using assms(2)
proof (induction n arbitrary: i s)
  case 0
  then show ?case by simp
next
  case (Suc n)
  obtain s1 where r1: "istream_read 4 s = ([], s1)" and f1: "failbit s1"
    using istream_read_exhausted[OF Suc.prems, of 4] by auto
  obtain s2 where r2: "istream_read m s1 = ([], s2)" and f2: "failbit s2" for m
    using f1 by (auto simp: istream_read_def)
  have "\<not> stat_ok (replicate m NUL) fs" for m
    using assms(1) by (cases m) (simp_all add: stat_ok_def c_str_def)
  with r1 r2 f2 Suc.IH[of s2 "Suc i"] show ?case by (simp add: Let_def)
qed

definition saved_paths :: "client_db \<Rightarrow> string list" where
  "saved_paths db = map (\<lambda>f. currentPath (fileTorrent f))
     (filter (\<lambda>f. hasPath (fileTorrent f)) db)"

lemma saved_paths_simps [simp]:
  "saved_paths [] = []"
  "saved_paths (f # fs) =
     (if hasPath (fileTorrent f) then currentPath (fileTorrent f) # saved_paths fs else saved_paths fs)"
  by (simp_all add: saved_paths_def)

lemma replicate_snoc_blank:
  "addFile f (db @ replicate k File_default) = db @ replicate (Suc k) File_default"
  by (simp add: addFile_def File_copy_def replicate_append_same)

lemma load_entries_records:
  assumes "good s" and "drop (gpos s) (content s) = path_records db" and "length db \<le> n"
    and "\<forall>p \<in> set (saved_paths db). length p < 2 ^ 32" and "\<not> stat_ok [] fs"
  shows "load_entries junk tjunk fs i n s (replicate k File_default) =
    replicate (k + length (filter (\<lambda>p. stat_ok p fs) (saved_paths db))) File_default"
  using assms(1-4)
proof (induction db arbitrary: i n s k)
  case Nil
  then show ?case using load_entries_exhausted[OF assms(5)] by simp
next
  case (Cons f db)
  show ?case
  proof (cases "hasPath (fileTorrent f)")
    case False
    with Cons show ?thesis by simp
  next
    case True
    let ?p = "currentPath (fileTorrent f)"
    let ?w = "of_nat (length ?p) :: 32 word"
    have w: "unat ?w = length ?p"
      using Cons.prems(4) True by (simp add: unsigned_of_nat take_bit_nat_eq_self)
    obtain m where n: "n = Suc m" and m: "length db \<le> m"
      using Cons.prems(3) by (cases n) auto
    have d0: "drop (gpos s) (content s) = enc32 ?w @ ?p @ path_records db"
      using Cons.prems(2) True w by (simp add: Let_def)
    obtain s1 where r1: "istream_read 4 s = (enc32 ?w, s1)" and g1: "good s1"
      and d1: "drop (gpos s1) (content s1) = ?p @ path_records db"
      using istream_read_full[OF Cons.prems(1) d0 codec32.width_enc] by blast
    obtain s2 where r2: "istream_read (unat ?w) s1 = (?p, s2)" and g2: "good s2"
      and d2: "drop (gpos s2) (content s2) = path_records db"
      using istream_read_full[OF g1 d1 w[symmetric]] by blast
    have name: "dec32 (overlay (enc32 ?w) (enc32 (junk i))) = ?w"
      by (simp add: overlay_full codec32.width_enc codec32.dec_enc)
    have path: "overlay ?p (replicate (unat ?w) NUL) = ?p" using w by (simp add: overlay_full)
    have paths: "\<forall>p \<in> set (saved_paths db). length p < 2 ^ 32" using Cons.prems(4) True by simp
    show ?thesis
      using Cons.IH[OF g2 d2 m paths, of "Suc i" k] Cons.IH[OF g2 d2 m paths, of "Suc i" "Suc k"]
        replicate_snoc_blank[of _ "[]" k]
      by (simp add: n r1 r2 name path True Let_def)
  qed
qed

lemma load_after_save:
  assumes "accessible fs (c_str filename)" and "length db < 2 ^ 16"
    and "\<forall>p \<in> set (saved_paths db). length p < 2 ^ 32"
    and "Database_saveToFile filename db fs = (r, fs')" and "\<not> stat_ok [] fs'"
  shows "Database_loadFromFile cjunk junk tjunk filename fs' db0 =
    (0, replicate (length (filter (\<lambda>p. stat_ok p fs') (saved_paths db))) File_default)"
proof -
  let ?c = "of_nat (length db) :: 16 word"
  have fs': "fs' = ofstream_store filename (db_bytes db) fs"
    using assms(1,4) by (simp add: Database_saveToFile_def)
  have count: "unat ?c = length db"
    using assms(2) by (simp add: unsigned_of_nat take_bit_nat_eq_self)
  let ?s0 = "ifstream_open filename fs'"
  have g0: "good ?s0" and d0: "drop (gpos ?s0) (content ?s0) = enc16 ?c @ path_records db"
    using assms(1) by (simp_all add: fs' db_bytes_def)
  obtain s where r: "istream_read 2 ?s0 = (enc16 ?c, s)" and g: "good s"
    and d: "drop (gpos s) (content s) = path_records db"
    using istream_read_full[OF g0 d0 codec16.width_enc] by blast
  have "load_entries junk tjunk fs' 0 (length db) s (replicate 0 File_default) =
      replicate (0 + length (filter (\<lambda>p. stat_ok p fs') (saved_paths db))) File_default"
    by (rule load_entries_records[OF g d _ assms(3,5)]) simp
  moreover have "stat_ok filename fs'" using assms(1) by (simp add: fs')
  moreover have "dec16 (overlay (enc16 ?c) (enc16 cjunk)) = ?c"
    by (simp add: overlay_full codec16.width_enc codec16.dec_enc)
  ultimately show ?thesis using r count by (simp add: Database_loadFromFile_def)
qed

text \<open>
  Loading a saved database yields one blank file for each saved path that still names a file,
  although the stored count also counts the files without a path: the missing entries are read
  past the end of the file, where every round ends with the empty path.
\<close>

theorem database_roundtrip_count:
  assumes "accessible fs (c_str filename)" and "length db < 2 ^ 16"
    and "\<forall>p \<in> set (saved_paths db). length p < 2 ^ 32"
    and "Database_saveToFile filename db fs = (r, fs')" and "\<not> stat_ok [] fs'"
  shows "Database_loadFromFile cjunk junk tjunk filename fs' db0 =
    (0, replicate (length (filter (\<lambda>p. stat_ok p fs') (saved_paths db))) File_default)"
  using assms by (rule load_after_save)

definition example_fs :: file_system where
  "example_fs = \<lparr>files = [''a.tor'' \<mapsto> ''x''], accessible = (\<lambda>_. True)\<rparr>"

definition example_db :: client_db where
  "example_db = [File ((Torrent_hashed 7 9 ''f'')\<lparr>hasPath := True, currentPath := ''a.tor''\<rparr>) ''f'',
     File (Torrent_hashed 8 9 ''g'') ''g'',
     File ((Torrent_hashed 9 9 ''h'')\<lparr>hasPath := True, currentPath := ''gone.tor''\<rparr>) ''h'']"

lemma saved_paths_example [simp]: "saved_paths example_db = [''a.tor'', ''gone.tor'']"
  by (simp add: example_db_def File_segments Torrent_hashed_def)

theorem database_roundtrip_count_witness:
  "Database_loadFromFile 1 (\<lambda>_. 2) (\<lambda>_. 3) ''db''
      (snd (Database_saveToFile ''db'' example_db example_fs)) [] =
    (0, replicate (length (filter
           (\<lambda>p. stat_ok p (snd (Database_saveToFile ''db'' example_db example_fs)))
           (saved_paths example_db))) File_default)"
proof (rule database_roundtrip_count [where r = 0 and fs = example_fs and db = example_db])
  show "accessible example_fs (c_str ''db'')" by (simp add: example_fs_def)
  show "length example_db < 2 ^ 16" by (simp add: example_db_def)
  show "\<forall>p \<in> set (saved_paths example_db). length p < 2 ^ 32" by simp
  show "Database_saveToFile ''db'' example_db example_fs =
      (0, snd (Database_saveToFile ''db'' example_db example_fs))"
    by (simp add: Database_saveToFile_def example_fs_def)
  show "\<not> stat_ok [] (snd (Database_saveToFile ''db'' example_db example_fs))"
    by (simp add: Database_saveToFile_def example_fs_def stat_ok_def ofstream_store_def c_str_def)
qed

section \<open>The repository's own round trip\<close>

text \<open>
  The steps of the unit test \<open>database_save_read\<close>: save a torrent, read it back, add a file for
  it, save and load the database twice, save it once more, and check the name of \<open>f[0]\<close>.
\<close>

definition database_save_read ::
  "(nat \<Rightarrow> 16 word) \<Rightarrow> (nat \<Rightarrow> nat \<Rightarrow> 32 word) \<Rightarrow> 32 word \<Rightarrow> file_system \<Rightarrow> bool outcome" where
  "database_save_read cjunk junk tj fs =
     (let (t1, fs1) = Torrent_saveToFile ''torrent1.tor'' (Torrent_hashed 101 909 ''test1.html'') fs;
          t1_read = Torrent_load tj ''torrent1.tor'' fs1;
          db1 = addFile (File t1_read ''test1.html'') [];
          (_, fs2) = Database_saveToFile ''saveTest'' db1 fs1;
          (_, db2) = Database_loadFromFile (cjunk 0) (junk 0) (junk 1) ''saveTest'' fs2 db1;
          (_, fs3) = Database_saveToFile ''saveTestFinal'' db2 fs2;
          (_, db3) = Database_loadFromFile (cjunk 1) (junk 2) (junk 3) ''saveTestFinal'' fs3 db2;
          (_, fs4) = Database_saveToFile ''saveTestMoreFinal'' db3 fs3
      in case db3 of
           [] \<Rightarrow> Inl (Undefined OutOfBounds)
         | f0 # _ \<Rightarrow> Inr (fileName (fileTorrent f0) = ''test1.html''))"

lemma saved_paths_blank: "all_blank db \<Longrightarrow> saved_paths db = []"
  by (induction db) (auto simp: all_blank_def File_default_def Torrent_default_def)

lemma roundtrip_blank:
  assumes "all_blank db" and "length db < 2 ^ 16" and "accessible fs (c_str filename)"
    and "\<not> stat_ok [] fs" and "c_str filename \<noteq> []"
    and "Database_saveToFile filename db fs = (r, fs')"
  shows "Database_loadFromFile cjunk junk tjunk filename fs' db0 = (0, []) \<and>
    \<not> stat_ok [] fs' \<and> accessible fs' = accessible fs"
proof -
  have fs': "fs' = ofstream_store filename (db_bytes db) fs"
    using assms(3,6) by (simp add: Database_saveToFile_def)
  have "\<not> stat_ok [] fs'" using assms(3,4,5) by (simp add: fs' c_str_def)
  moreover from load_after_save[OF assms(3,2) _ assms(6) this]
  have "Database_loadFromFile cjunk junk tjunk filename fs' db0 = (0, [])"
    by (simp add: saved_paths_blank[OF assms(1)])
  ultimately show ?thesis by (simp add: fs')
qed

text \<open>
  On a file system where every path can be opened and the empty path names nothing, the
  unit test \<open>database_save_read\<close> does not pass, whatever the uninitialised variables hold: the database
  is empty in the end, and \<open>f[0]\<close>, which the test expects to be \<open>test1.html\<close>, does not exist.
\<close>

theorem unit_test_reads_past_end:
  assumes "\<forall>p. accessible fs p" and "files fs [] = None"
  shows "database_save_read cjunk junk tj fs = Inl (Undefined OutOfBounds)"
proof -
  obtain t1 fs1 where save1: "Torrent_saveToFile ''torrent1.tor'' (Torrent_hashed 101 909 ''test1.html'') fs
      = (t1, fs1)" by fastforce
  have fs1: "accessible fs1 = accessible fs" "\<not> stat_ok [] fs1"
    using save1 assms by (auto simp: Torrent_saveToFile_def stat_ok_def ofstream_store_def c_str_def)
  let ?db1 = "addFile (File (Torrent_load tj ''torrent1.tor'' fs1) ''test1.html'') []"
  obtain r2 fs2 where save2: "Database_saveToFile ''saveTest'' ?db1 fs1 = (r2, fs2)" by fastforce
  have load2: "Database_loadFromFile (cjunk 0) (junk 0) (junk 1) ''saveTest'' fs2 ?db1 = (0, []) \<and>
      \<not> stat_ok [] fs2 \<and> accessible fs2 = accessible fs1"
    by (rule roundtrip_blank[OF _ _ _ fs1(2) _ save2])
      (use assms(1) fs1 in \<open>simp_all add: addFile_blank all_blank_def addFile_def File_copy_def c_str_def\<close>)
  obtain r3 fs3 where save3: "Database_saveToFile ''saveTestFinal'' [] fs2 = (r3, fs3)" by fastforce
  have load3: "Database_loadFromFile (cjunk 1) (junk 2) (junk 3) ''saveTestFinal'' fs3 [] = (0, []) \<and>
      \<not> stat_ok [] fs3 \<and> accessible fs3 = accessible fs2"
    by (rule roundtrip_blank[OF _ _ _ _ _ save3])
      (use assms(1) fs1 load2 in \<open>simp_all add: all_blank_def c_str_def\<close>)
  show ?thesis
    using save1 save2 load2 save3 load3 by (simp add: database_save_read_def split: prod.split)
qed

theorem unit_test_reads_past_end_witness:
  "database_save_read (\<lambda>_. 1) (\<lambda>_ _. 2) 3 example_fs = Inl (Undefined OutOfBounds)"
  by (rule unit_test_reads_past_end) (simp_all add: example_fs_def)

end
