(* ===== verification/Serving.thy ===== *)
theory Serving
  imports Streams Messages
begin

text \<open>
  The receive loop that \<open>TrackerThread::run\<close> and \<open>ResponderThread::run\<close> share line by line: receive
  into a 128 KiB stack buffer, parse the buffer, hand the message to \<open>respond\<close>, until \<open>recv\<close>
  returns 0 or less. The loop is a function of the results of \<open>recv\<close>; the buffer keeps the bytes
  of earlier messages behind the new ones, and is parsed at its full size, as in the code.
\<close>

definition CLIENT_MAX_MESSAGE_SIZE :: int where
  "CLIENT_MAX_MESSAGE_SIZE = 128 * 1024"

text \<open>
  A handler maps a message to a reply, if there is one, and a new state; \<open>None\<close> is a handler
  that has not returned within its fuel.
\<close>

type_synonym 's handler = "tcp_message \<Rightarrow> 's \<Rightarrow> (tcp_message option outcome \<times> 's) option"

datatype loop_end =
    Waiting          \<comment> \<open>blocked in \<open>recv\<close>\<close>
  | Disconnected     \<comment> \<open>\<open>recv\<close> returned 0 or less\<close>
  | Faulted fault
  | Running          \<comment> \<open>still inside the handler\<close>

text \<open>
  \<open>std::string messageString(buf)\<close> scans the buffer for its first NUL, past its end if it holds
  none. A result of \<open>recv\<close> is the bytes received, \<open>None\<close> for 0 or less.
\<close>

fun recv_loop ::
  "'s handler \<Rightarrow> (string \<Rightarrow> int \<Rightarrow> tcp_message) \<Rightarrow> string \<Rightarrow> string option list \<Rightarrow> 's
     \<Rightarrow> tcp_message list \<times> loop_end \<times> 's" where
  "recv_loop handle parse buf [] s = ([], Waiting, s)"
| "recv_loop handle parse buf (None # rs) s = ([], Disconnected, s)"
| "recv_loop handle parse buf (Some bs # rs) s =
     (let buf' = overlay bs buf
      in if NUL \<notin> set buf' then ([], Faulted (Undefined OutOfBounds), s)
         else (case handle (parse buf' CLIENT_MAX_MESSAGE_SIZE) s of
             None \<Rightarrow> ([], Running, s)
           | Some (Inl e, s') \<Rightarrow> ([], Faulted e, s')
           | Some (Inr None, s') \<Rightarrow> recv_loop handle parse buf' rs s'
           | Some (Inr (Some reply), s') \<Rightarrow>
               (case recv_loop handle parse buf' rs s' of
                  (out, e, s'') \<Rightarrow> (reply # out, e, s''))))"

text \<open>\<open>guard(close(connFd), ...)\<close> after the loop, reached only when the peer disconnected.\<close>

definition close_after ::
  "int \<Rightarrow> tcp_message list \<times> loop_end \<times> 's \<Rightarrow> tcp_message list \<times> loop_end \<times> 's" where
  "close_after closed r =
     (case r of (out, Disconnected, s) \<Rightarrow>
        (case guard closed of Inl e \<Rightarrow> (out, Faulted e, s) | Inr _ \<Rightarrow> (out, Disconnected, s))
      | _ \<Rightarrow> r)"

lemma close_after_simps [simp]:
  "fst (close_after c r) = fst r" "snd (snd (close_after c r)) = snd (snd r)"
  by (auto simp: close_after_def split: prod.splits loop_end.splits sum.splits)

text \<open>
  What the loop owes to its handler: an invariant of the state that handling keeps, and a
  property of the replies that holds while the invariant does, hold for the whole connection.
\<close>

locale message_handler =
  fixes handle :: "'s handler" and inv :: "'s \<Rightarrow> bool" and fine :: "tcp_message \<Rightarrow> bool"
  assumes handle_inv: "inv s \<Longrightarrow> handle m s = Some (r, s') \<Longrightarrow> inv s'"
    and handle_fine: "inv s \<Longrightarrow> handle m s = Some (Inr (Some reply), s') \<Longrightarrow> fine reply"
begin

lemma recv_loop_inv:
  "inv s \<Longrightarrow> recv_loop handle parse buf rs s = (out, e, s') \<Longrightarrow> inv s' \<and> (\<forall>m \<in> set out. fine m)"
proof (induction rs arbitrary: buf s out)
  case Nil
  then show ?case by simp
next
  case (Cons r rs)
  show ?case
  proof (cases r)
    case None
    with Cons.prems show ?thesis by simp
  next
    case (Some bs)
    let ?h = "handle (parse (overlay bs buf) CLIENT_MAX_MESSAGE_SIZE) s"
    show ?thesis
    proof (cases "\<exists>reply s1. ?h = Some (Inr reply, s1) \<and> NUL \<in> set (overlay bs buf)")
      case True
      then obtain reply s1 where h: "?h = Some (Inr reply, s1)"
        and nul: "NUL \<in> set (overlay bs buf)" by blast
      have inv1: "inv s1" using handle_inv[OF Cons.prems(1) h] .
      obtain out1 e1 s2 where rest: "recv_loop handle parse (overlay bs buf) rs s1 = (out1, e1, s2)"
        by (cases "recv_loop handle parse (overlay bs buf) rs s1")
      show ?thesis
        using Cons.prems Some h nul rest Cons.IH[OF inv1, of "overlay bs buf"]
          handle_fine[OF Cons.prems(1)]
        by (cases reply) auto
    next
      case False
      with Cons.prems Some handle_inv[OF Cons.prems(1)] show ?thesis
        by (auto simp: Let_def split: if_splits option.splits prod.splits sum.splits)
    qed
  qed
qed

end

end
