(* ===== verification/Responder.thy ===== *)
theory Responder
  imports Client_Database Serving Sockets
begin

text \<open>
  \<open>client/networking/ResponderThread.*\<close>: what a client answers to other clients. \<open>respond\<close> builds its
  database anew for every message (the code's own test data). \<open>cstring_at\<close> is the C string at an
  address, or nothing if the address is not valid memory.
\<close>

section \<open>Handlers\<close>

definition testdb :: client_db where
  "testdb = addFile (File (Torrent_hashed 1337 10 ''./path'') ''./path'') []"

text \<open>One file of the list request: the loop over its segments with the running index \<open>totalSegs\<close>.\<close>

fun list_segments ::
  "file_obj \<Rightarrow> nat list \<Rightarrow> nat \<Rightarrow> 32 word list \<Rightarrow> (nat \<times> 32 word list) outcome" where
  "list_segments f [] totalSegs frags = Inr (totalSegs, frags)"
| "list_segments f (i # is) totalSegs frags =
     (case fst (getSegmentState (int i) f) of
        Inl e \<Rightarrow> Inl e
      | Inr st \<Rightarrow>
          if st = COMPLETE then
            (case repeated_set totalSegs (of_nat i) frags of
               Inl e \<Rightarrow> Inl e
             | Inr frags' \<Rightarrow> list_segments f is (Suc totalSegs) frags')
          else list_segments f is totalSegs frags)"

fun list_files ::
  "hash_value \<Rightarrow> client_db \<Rightarrow> nat \<Rightarrow> 32 word list \<Rightarrow> (nat \<times> 32 word list) outcome" where
  "list_files h [] totalSegs frags = Inr (totalSegs, frags)"
| "list_files h (f # fs) totalSegs frags =
     (if h = hashed (fileTorrent f) then
        (case list_segments f [0..<nat (numOfSegments f)] totalSegs frags of
           Inl e \<Rightarrow> Inl e
         | Inr (totalSegs', frags') \<Rightarrow> list_files h fs totalSegs' frags')
      else list_files h fs totalSegs frags)"

fun fragment_files ::
  "(int \<Rightarrow> string option) \<Rightarrow> fragment_request \<Rightarrow> client_db \<Rightarrow> fragment_response
     \<Rightarrow> fragment_response outcome" where
  "fragment_files cstring_at q [] r = Inr r"
| "fragment_files cstring_at q (f # fs) r =
     (if hashed (fileTorrent f) = frq_hashedTorrent q then
        (case fst (getSegmentState (int_of_u32 (frq_fragNum q)) f) of
           Inl e \<Rightarrow> Inl e
         | Inr st \<Rightarrow>
             if st = COMPLETE then
               (case fst (getSegment (int_of_u32 (frq_fragNum q)) f) of
                  Inl e \<Rightarrow> Inl e
                | Inr s \<Rightarrow>
                    (case cstring_at (segData s) of
                       None \<Rightarrow> Inl (Undefined NullPointer)
                     | Some bs \<Rightarrow> fragment_files cstring_at q fs
                         (r\<lparr>frs_fileCode := F_FINE, frs_fragNum := frq_fragNum q,
                            frs_hashedTorrent := frq_hashedTorrent q, frs_fragment := bs\<rparr>)))
             else fragment_files cstring_at q fs r)
      else fragment_files cstring_at q fs r)"

text \<open>
  The branches of \<open>respond\<close>, over a given database. The code declares a test database in its first lines and
  searches that; \<open>Responder_respond\<close> below is \<open>respond\<close> with it.
\<close>

definition respond_from ::
  "(int \<Rightarrow> string option) \<Rightarrow> client_db \<Rightarrow> tcp_message \<Rightarrow> tcp_message option outcome" where
  "respond_from cstring_at db msg =
     (if code msg = OK then Inr (Some \<lparr>code = OK, contents = NoContents\<rparr>)
      else if code msg = CC_LIST_REQUEST then
        (let h = listRequest_hashedTorrent (contents msg)
         in case list_files h db 0 [] of
              Inl e \<Rightarrow> Inl e
            | Inr (_, frags) \<Rightarrow> Inr (Some \<lparr>code = CC_LIST_RESPONSE, contents = ListResponse
                \<lparr>lr_hashedTorrent = h, lr_fileCode = F_FRAG_COMPLETE, lr_fragments = frags\<rparr>\<rparr>))
      else if code msg = CC_FRAGMENT_REQUEST then
        (case fragment_files cstring_at (fragmentRequest_of (contents msg)) db
                (default_fragment_response\<lparr>frs_fileCode := F_NO_FILE\<rparr>) of
           Inl e \<Rightarrow> Inl e
         | Inr r \<Rightarrow> Inr (Some \<lparr>code = CC_FRAGMENT_RESPONSE, contents = FragmentResponse r\<rparr>))
      else Inr None)"

definition Responder_respond :: "(int \<Rightarrow> string option) \<Rightarrow> unit handler" where
  "Responder_respond cstring_at msg u = Some (respond_from cstring_at testdb msg, u)"

definition ResponderThread_run ::
  "(int \<Rightarrow> string option) \<Rightarrow> (string \<Rightarrow> int \<Rightarrow> tcp_message) \<Rightarrow> int \<Rightarrow> string \<Rightarrow> string option list
     \<Rightarrow> tcp_message list \<times> loop_end \<times> unit" where
  "ResponderThread_run cstring_at parse closed buf recvs =
     close_after closed (recv_loop (Responder_respond cstring_at) parse buf recvs ())"

section \<open>The answers over any database\<close>

text \<open>A file whose segment list has the length it announces.\<close>

definition well_cut :: "file_obj \<Rightarrow> bool" where
  "well_cut f \<longleftrightarrow> int (length (segments f)) = numOfSegments f"

definition has_complete :: "file_obj \<Rightarrow> bool" where
  "has_complete f \<longleftrightarrow> (\<exists>s \<in> set (segments f). segState s = COMPLETE)"

lemma list_segments_Nil:
  assumes "\<forall>i \<in> set is. i < length (segments f)"
  shows "list_segments f is n [] =
    (if \<exists>i \<in> set is. segState (segments f ! i) = COMPLETE then Inl (Undefined RepeatedIndex)
     else Inr (n, []))"
  using assms by (induction "is") (auto simp: getSegmentState_def inRange_def)

lemma list_segments_well_cut:
  assumes "well_cut f"
  shows "list_segments f [0..<nat (numOfSegments f)] n [] =
    (if has_complete f then Inl (Undefined RepeatedIndex) else Inr (n, []))"
proof -
  have n: "nat (numOfSegments f) = length (segments f)" using assms by (simp add: well_cut_def)
  show ?thesis
    unfolding n by (subst list_segments_Nil) (force simp: has_complete_def in_set_conv_nth)+
qed

lemma list_files_Nil:
  assumes "\<forall>f \<in> set fs. well_cut f"
  shows "list_files h fs n [] =
    (if \<exists>f \<in> set fs. hashed (fileTorrent f) = h \<and> has_complete f
     then Inl (Undefined RepeatedIndex) else Inr (n, []))"
  using assms by (induction fs) (auto simp: list_segments_well_cut)

text \<open>
  The list of complete fragments can never be sent. Over any database of properly cut files
  a list request faults if a file with the torrent's hash has a complete segment (its number is
  set at an index of an empty repeated field), and the list is empty otherwise.
\<close>

theorem list_request_never_lists:
  assumes "\<forall>f \<in> set db. well_cut f" and "code msg = CC_LIST_REQUEST"
  shows "respond_from cstring_at db msg =
    (let h = listRequest_hashedTorrent (contents msg)
     in if \<exists>f \<in> set db. hashed (fileTorrent f) = h \<and> has_complete f
        then Inl (Undefined RepeatedIndex)
        else Inr (Some \<lparr>code = CC_LIST_RESPONSE, contents = ListResponse
          \<lparr>lr_hashedTorrent = h, lr_fileCode = F_FRAG_COMPLETE, lr_fragments = []\<rparr>\<rparr>))"
  using assms by (auto simp: respond_from_def list_files_Nil Let_def)

definition complete_file :: file_obj where
  "complete_file = snd (setSegmentState 0 COMPLETE (File (Torrent_hashed 3 10 ''f'') ''f''))"

lemma complete_file_eq: "complete_file =
    File_default\<lparr>fileTorrent := Torrent_hashed 3 10 ''f'', segments := [Segment 0 0 COMPLETE],
      numOfSegments := 1, fileSize := 10, filePath := ''f''\<rparr>"
  by (simp add: complete_file_def setSegmentState_def File_def generateSegments_def Let_def
      File_default_def segment_count_def DEFAULTSEGMENTSIZE_def inRange_def Torrent_hashed_def
      int_of_u32_eq Segment_setState_def Segment_def signed_divide_int_def signed_modulo_int_def)

lemma list_request_never_lists_witness:
  "respond_from (\<lambda>_. None) [complete_file] \<lparr>code = CC_LIST_REQUEST, contents = ListRequest 3\<rparr> =
     Inl (Undefined RepeatedIndex)"
  using list_request_never_lists [of "[complete_file]"
      "\<lparr>code = CC_LIST_REQUEST, contents = ListRequest 3\<rparr>" "\<lambda>_. None"]
  by (simp add: complete_file_eq well_cut_def has_complete_def Torrent_hashed_def Segment_def)

text \<open>The key of a file in the database is its torrent's hash.\<close>

definition file_hash :: "file_obj \<Rightarrow> hash_value" where
  "file_hash f = hashed (fileTorrent f)"

lemma fragment_files_absent:
  "frq_hashedTorrent q \<notin> file_hash ` set db \<Longrightarrow> fragment_files cstring_at q db r = Inr r"
  by (induction db) (auto simp: file_hash_def)

lemma fragment_files_eq:
  assumes "distinct (map file_hash db)"
  shows "fragment_files cstring_at q db r =
    (case lookupBy file_hash (frq_hashedTorrent q) db of
       None \<Rightarrow> Inr r
     | Some f \<Rightarrow>
         let i = int_of_u32 (frq_fragNum q)
         in if \<not> inRange i (segments f) then Inl (Undefined OutOfBounds)
            else if segState (segments f ! nat i) \<noteq> COMPLETE then Inr r
            else (case cstring_at (segData (segments f ! nat i)) of
                    None \<Rightarrow> Inl (Undefined NullPointer)
                  | Some bs \<Rightarrow> Inr (r\<lparr>frs_fileCode := F_FINE, frs_fragNum := frq_fragNum q,
                      frs_hashedTorrent := frq_hashedTorrent q, frs_fragment := bs\<rparr>)))"
  using assms
proof (induction db)
  case (Cons f db)
  show ?case
  proof (cases "file_hash f = frq_hashedTorrent q")
    case True
    then have "frq_hashedTorrent q \<notin> file_hash ` set db" using Cons.prems by auto
    note rest = fragment_files_absent[OF this]
    have "hashed (fileTorrent f) = frq_hashedTorrent q" using True by (simp add: file_hash_def)
    with True rest show ?thesis
      by (auto simp: getSegmentState_def getSegment_def Let_def Segment_copy_def split: option.split)
  next
    case False
    then have "hashed (fileTorrent f) \<noteq> frq_hashedTorrent q" by (simp add: file_hash_def)
    with False Cons show ?thesis by simp
  qed
qed simp

definition fragment_reply :: "fragment_response \<Rightarrow> tcp_message option outcome" where
  "fragment_reply r = Inr (Some \<lparr>code = CC_FRAGMENT_RESPONSE, contents = FragmentResponse r\<rparr>)"

text \<open>
  What a fragment request gets over a database with distinct hashes, on every branch. An
  unknown torrent or an incomplete segment is answered \<open>F_NO_FILE\<close>, a number outside the file
  indexes the segments out of bounds, and a complete segment is answered with the C string found
  at its data pointer, so the fragment ends at its first zero byte.
\<close>

theorem fragment_request_answer:
  assumes "distinct (map file_hash db)" and "code msg = CC_FRAGMENT_REQUEST"
  shows "respond_from cstring_at db msg =
    (let q = fragmentRequest_of (contents msg);
         i = int_of_u32 (frq_fragNum q);
         no_file = default_fragment_response\<lparr>frs_fileCode := F_NO_FILE\<rparr>
     in case lookupBy file_hash (frq_hashedTorrent q) db of
          None \<Rightarrow> fragment_reply no_file
        | Some f \<Rightarrow>
            if \<not> inRange i (segments f) then Inl (Undefined OutOfBounds)
            else if segState (segments f ! nat i) \<noteq> COMPLETE then fragment_reply no_file
            else (case cstring_at (segData (segments f ! nat i)) of
                    None \<Rightarrow> Inl (Undefined NullPointer)
                  | Some bs \<Rightarrow> fragment_reply \<lparr>frs_hashedTorrent = frq_hashedTorrent q,
                      frs_fragNum = frq_fragNum q, frs_fileCode = F_FINE, frs_fragment = bs\<rparr>))"
  using assms
  by (auto simp: respond_from_def fragment_files_eq fragment_reply_def Let_def
      default_fragment_response_def split: option.split)

lemma fragment_request_answer_witness:
  "respond_from (\<lambda>a. if a = 0 then None else Some ''data'') [complete_file]
     \<lparr>code = CC_FRAGMENT_REQUEST, contents = FragmentRequest \<lparr>frq_hashedTorrent = 3, frq_fragNum = 0\<rparr>\<rparr>
   = Inl (Undefined NullPointer)"
  using fragment_request_answer [of "[complete_file]"
      "\<lparr>code = CC_FRAGMENT_REQUEST, contents = FragmentRequest \<lparr>frq_hashedTorrent = 3, frq_fragNum = 0\<rparr>\<rparr>"
      "\<lambda>a. if a = 0 then None else Some ''data''"]
  by (simp add: complete_file_eq file_hash_def Torrent_hashed_def Segment_def int_of_u32_eq inRange_def)

section \<open>The answers of the program\<close>

text \<open>\<open>addFile\<close> stores a blank copy, so the database searched holds one file without segments, of hash 0.\<close>

lemma testdb_eq: "testdb = [File_default]"
  by (simp add: testdb_def addFile_def File_copy_def)

text \<open>A message that asks for the one hash the database knows.\<close>

definition asks_for_zero :: "tcp_message \<Rightarrow> bool" where
  "asks_for_zero msg \<longleftrightarrow> code msg = CC_FRAGMENT_REQUEST \<and>
     frq_hashedTorrent (fragmentRequest_of (contents msg)) = 0"

text \<open>The answers a responder gives: none carries a fragment or a fragment number.\<close>

definition serves_nothing :: "tcp_message \<Rightarrow> bool" where
  "serves_nothing reply \<longleftrightarrow>
     reply = \<lparr>code = OK, contents = NoContents\<rparr> \<or>
     (\<exists>h. reply = \<lparr>code = CC_LIST_RESPONSE, contents = ListResponse
        \<lparr>lr_hashedTorrent = h, lr_fileCode = F_FRAG_COMPLETE, lr_fragments = []\<rparr>\<rparr>) \<or>
     reply = \<lparr>code = CC_FRAGMENT_RESPONSE, contents = FragmentResponse
        (default_fragment_response\<lparr>frs_fileCode := F_NO_FILE\<rparr>)\<rparr>"

lemma respond_testdb:
  "respond_from cstring_at testdb msg =
    (if code msg = OK then Inr (Some \<lparr>code = OK, contents = NoContents\<rparr>)
     else if code msg = CC_LIST_REQUEST then
       Inr (Some \<lparr>code = CC_LIST_RESPONSE, contents = ListResponse
         \<lparr>lr_hashedTorrent = listRequest_hashedTorrent (contents msg),
          lr_fileCode = F_FRAG_COMPLETE, lr_fragments = []\<rparr>\<rparr>)
     else if asks_for_zero msg then Inl (Undefined OutOfBounds)
     else if code msg = CC_FRAGMENT_REQUEST then
       fragment_reply (default_fragment_response\<lparr>frs_fileCode := F_NO_FILE\<rparr>)
     else Inr None)"
  by (simp add: respond_from_def testdb_eq asks_for_zero_def File_default_def Torrent_default_def
      getSegmentState_def fragment_reply_def Let_def)

interpretation responder: message_handler "Responder_respond cstring_at" "\<lambda>_. True" serves_nothing
  for cstring_at
  by unfold_locales
    (auto simp: Responder_respond_def respond_testdb serves_nothing_def fragment_reply_def
      split: if_splits)

text \<open>
  C34. Whatever another client sends, and whatever the memory holds, a responder never hands out
  a fragment: over a whole connection each reply is an OK, an empty list marked complete, or
  \<open>F_NO_FILE\<close>; and a fragment request for hash 0 ends it with an index out of bounds.
\<close>

theorem responder_serves_nothing:
  assumes "ResponderThread_run cstring_at parse closed buf recvs = (out, e, u)"
  shows "(\<forall>m \<in> set out. serves_nothing m) \<and>
    (asks_for_zero msg \<longrightarrow> Responder_respond cstring_at msg u = Some (Inl (Undefined OutOfBounds), u))"
proof
  obtain e' where "recv_loop (Responder_respond cstring_at) parse buf recvs () = (out, e', u)"
    using assms close_after_simps[of closed "recv_loop (Responder_respond cstring_at) parse buf recvs ()"]
    unfolding ResponderThread_run_def by (metis fst_conv prod.collapse snd_conv)
  from responder.recv_loop_inv[OF TrueI this] show "\<forall>m \<in> set out. serves_nothing m"
    by simp
  show "asks_for_zero msg \<longrightarrow> Responder_respond cstring_at msg u = Some (Inl (Undefined OutOfBounds), u)"
    by (auto simp: Responder_respond_def respond_testdb asks_for_zero_def)
qed

lemma responder_serves_nothing_witness:
  "ResponderThread_run (\<lambda>_. None) (\<lambda>_ _. \<lparr>code = OK, contents = NoContents\<rparr>) 0 [NUL, NUL]
     [Some ''x'', None] = ([\<lparr>code = OK, contents = NoContents\<rparr>], Disconnected, ()) \<and>
   serves_nothing \<lparr>code = OK, contents = NoContents\<rparr> \<and>
   Responder_respond (\<lambda>_. None) \<lparr>code = CC_FRAGMENT_REQUEST, contents = NoContents\<rparr> () =
     Some (Inl (Undefined OutOfBounds), ())"
proof -
  have run: "ResponderThread_run (\<lambda>_. None) (\<lambda>_ _. \<lparr>code = OK, contents = NoContents\<rparr>) 0 [NUL, NUL]
     [Some ''x'', None] = ([\<lparr>code = OK, contents = NoContents\<rparr>], Disconnected, ())"
    by (simp add: ResponderThread_run_def Responder_respond_def respond_testdb overlay_def
        close_after_def guard_def)
  show ?thesis
    using responder_serves_nothing [OF run, of "\<lparr>code = CC_FRAGMENT_REQUEST, contents = NoContents\<rparr>"] run
    by (simp add: asks_for_zero_def)
qed

end
