(* ===== verification/Options.thy ===== *)
theory Options
  imports Messages
begin

text \<open>
  Command-line ports, as \<open>server/main.cpp\<close> and \<open>client/main.cpp\<close> read them: the successive results
  of \<open>getopt\<close> are an input of the model, the argument of \<open>-p\<close> goes through \<open>strtol\<close> (base 10), the
  conversion of its \<open>long\<close> to \<open>int\<close>, and the range check.
\<close>

text \<open>One result of \<open>getopt\<close>: an option character with its argument; \<open>-1\<close> is the end of the list.\<close>

datatype getopt_result =
    OptP string          \<comment> \<open>\<open>'p'\<close> with \<open>optarg\<close>\<close>
  | OptT string          \<comment> \<open>\<open>'t'\<close> with \<open>optarg\<close>\<close>
  | OptMissingArg        \<comment> \<open>\<open>':'\<close>\<close>
  | OptUnknown           \<comment> \<open>\<open>'?'\<close>\<close>

definition digit_of :: "char \<Rightarrow> nat option" where
  "digit_of c = (let n = of_char c in if 48 \<le> n \<and> n \<le> 57 then Some (n - 48) else None)"

fun digits_value :: "nat \<Rightarrow> string \<Rightarrow> nat" where
  "digits_value acc [] = acc"
| "digits_value acc (c # cs) =
     (case digit_of c of None \<Rightarrow> acc | Some d \<Rightarrow> digits_value (10 * acc + d) cs)"

definition isspace :: "char \<Rightarrow> bool" where
  "isspace c = (let n = (of_char c :: nat) in n = 32 \<or> 9 \<le> n \<and> n \<le> 13)"

definition LONG_MAX :: int where "LONG_MAX = 2 ^ 63 - 1"
definition LONG_MIN :: int where "LONG_MIN = - (2 ^ 63)"

text \<open>\<open>strtol(s, nullptr, 10)\<close>: white space, a sign, digits; 0 without digits; saturating.\<close>

definition strtol :: "string \<Rightarrow> int" where
  "strtol s =
     (let s = dropWhile isspace s
      in case s of
           [] \<Rightarrow> 0
         | c # cs \<Rightarrow>
             (if c = CHR ''-'' then max LONG_MIN (- int (digits_value 0 cs))
              else if c = CHR ''+'' then min LONG_MAX (int (digits_value 0 cs))
              else min LONG_MAX (int (digits_value 0 s))))"

definition int_of_long :: "int \<Rightarrow> int" where
  "int_of_long n = signed_take_bit 31 n"

definition potentialPort :: "string \<Rightarrow> int" where
  "potentialPort optarg = int_of_long (strtol optarg)"

definition validPort :: "int \<Rightarrow> bool" where
  "validPort p \<longleftrightarrow> \<not> (p < 1024 \<or> p > 65535)"

section \<open>Reading back decimal numbers\<close>

lemma digit_of_char_of: "d < 10 \<Longrightarrow> digit_of (char_of (48 + d)) = Some d"
  by (simp add: digit_of_def Let_def)

lemma digits_value_append:
  assumes "\<forall>c \<in> set xs. digit_of c \<noteq> None"
  shows "digits_value acc (xs @ ys) = digits_value (digits_value acc xs) ys"
  using assms by (induction xs arbitrary: acc) (auto split: option.splits)

lemma to_string_digits: "\<forall>c \<in> set (to_string n). \<exists>d<(10::nat). c = char_of (48 + d)"
proof (induction n rule: to_string.induct)
  case (1 n)
  show ?case
  proof (cases "n < 10")
    case True
    then show ?thesis by (subst to_string.simps) auto
  next
    case False
    have "\<exists>d<(10::nat). (char_of (48 + n mod 10) :: char) = char_of (48 + d)"
      by (rule exI[of _ "n mod 10"]) simp
    with False 1 show ?thesis
      by (subst to_string.simps) (auto simp del: char_of_eq_iff)
  qed
qed

lemma digits_value_to_string: "digits_value 0 (to_string n) = n"
proof (induction n rule: to_string.induct)
  case (1 n)
  show ?case
  proof (cases "n < 10")
    case True
    then show ?thesis by (subst to_string.simps) (simp add: digit_of_char_of)
  next
    case False
    have "\<forall>c \<in> set (to_string (n div 10)). digit_of c \<noteq> None"
      using to_string_digits[of "n div 10"] by (auto simp: digit_of_char_of)
    with False 1 show ?thesis
      by (subst to_string.simps) (simp add: digits_value_append digit_of_char_of)
  qed
qed

lemma strtol_to_string: "strtol (to_string n) = min LONG_MAX (int n)"
proof -
  obtain c cs where cons: "to_string n = c # cs" by (cases "to_string n") auto
  obtain d :: nat where d: "d < 10" and c: "c = char_of (48 + d)"
    using to_string_digits[of n] cons by auto
  have code: "of_char c = 48 + d" using d c by simp
  have "\<not> isspace c" using code by (simp add: isspace_def)
  moreover have "c \<noteq> CHR ''-''" and "c \<noteq> CHR ''+''" using code d by auto
  ultimately show ?thesis
    using digits_value_to_string[of n] cons by (simp add: strtol_def)
qed

lemma potentialPort_to_string:
  assumes "n < 2 ^ 63"
  shows "potentialPort (to_string n) = signed_take_bit 31 (int n)"
proof -
  have "int n \<le> LONG_MAX" using assms by (simp add: LONG_MAX_def)
  then show ?thesis
    by (simp add: potentialPort_def int_of_long_def strtol_to_string min_absorb2)
qed

text \<open>Which decimal numbers pass the range check: their residue modulo \<open>2 ^ 32\<close> counts.\<close>

lemma validPort_residue:
  assumes "n < 2 ^ 63"
  shows "validPort (potentialPort (to_string n)) \<longleftrightarrow> 1024 \<le> n mod 2 ^ 32 \<and> n mod 2 ^ 32 \<le> 65535"
    and "validPort (potentialPort (to_string n)) \<Longrightarrow>
           potentialPort (to_string n) = int (n mod 2 ^ 32)"
proof -
  define m where "m = int n mod 4294967296"
  have m_bounds: "0 \<le> m" "m < 4294967296" by (simp_all add: m_def)
  have m_nat: "int (n mod 2 ^ 32) = m" by (simp add: zmod_int m_def)
  have q: "potentialPort (to_string n) = (if m < 2147483648 then m else m - 4294967296)"
    using potentialPort_to_string[OF assms] by (simp add: signed_take_bit_31 m_def)
  have "validPort (potentialPort (to_string n)) \<longleftrightarrow> 1024 \<le> m \<and> m \<le> 65535"
    using m_bounds by (simp add: validPort_def q not_less)
  then show "validPort (potentialPort (to_string n)) \<longleftrightarrow>
      1024 \<le> n mod 2 ^ 32 \<and> n mod 2 ^ 32 \<le> 65535"
    using m_nat by linarith
  show "potentialPort (to_string n) = int (n mod 2 ^ 32)"
    if "validPort (potentialPort (to_string n))"
    using that m_bounds m_nat by (simp add: validPort_def q split: if_splits)
qed

end
