(* ===== verification/Client_Main.thy ===== *)
theory Client_Main
  imports Download Responder Options
begin

text \<open>
  \<open>client/main.cpp\<close>: the command line, the listener that starts a responder thread per connection,
  and the menu. Standard input is the characters still to be read and the fail bit of \<open>std::cin\<close>. The
  menu loops are partial functions: a loop that never ends has the result \<open>None\<close>.
\<close>

section \<open>Listening\<close>

text \<open>The thread function flows off its end without returning a value.\<close>

definition runResponderThread ::
  "(int \<Rightarrow> string option) \<Rightarrow> (string \<Rightarrow> int \<Rightarrow> tcp_message) \<Rightarrow> int \<Rightarrow> string \<Rightarrow> string option list
     \<Rightarrow> tcp_message list \<times> loop_end \<times> unit" where
  "runResponderThread cstring_at parse closed buf recvs =
     (case ResponderThread_run cstring_at parse closed buf recvs of
        (out, Disconnected, u) \<Rightarrow> (out, Faulted (Undefined MissingReturn), u)
      | r \<Rightarrow> r)"

text \<open>
  The accept loop: each result of \<open>accept\<close> comes with that of \<open>pthread_create\<close>; the descriptor is
  passed by value. The result is the descriptors served by the threads started and the reason the
  loop ended, if it did (otherwise it is waiting in \<open>accept\<close>).
\<close>

fun accept_loop :: "(int \<times> int) list \<Rightarrow> int list \<Rightarrow> int list \<times> fault option" where
  "accept_loop [] served = (served, None)"
| "accept_loop ((conn_fd, created) # rs) served =
     (case guard conn_fd of
        Inl e \<Rightarrow> (served, Some e)
      | Inr fd \<Rightarrow>
          if created \<noteq> 0 then (served, Some (Exited 1)) else accept_loop rs (served @ [fd]))"

record listen_env =
  le_socket :: int
  le_bind :: "int \<Rightarrow> int"           \<comment> \<open>the result for the port bound\<close>
  le_listen :: int
  le_accepts :: "(int \<times> int) list"

text \<open>The first result is \<open>GLOB_responder_port\<close>, written before anything can fail.\<close>

definition connListen :: "int \<Rightarrow> listen_env \<Rightarrow> 32 word \<times> int list \<times> fault option" where
  "connListen lport env =
     (of_int lport,
      case guard (le_socket env) of Inl e \<Rightarrow> ([], Some e) | Inr _ \<Rightarrow>
       (case guard (le_bind env lport) of Inl e \<Rightarrow> ([], Some e) | Inr _ \<Rightarrow>
         (case guard (le_listen env) of Inl e \<Rightarrow> ([], Some e) | Inr _ \<Rightarrow>
           accept_loop (le_accepts env) [])))"

section \<open>Standard input\<close>

record console =
  unread :: string
  cin_fail :: bool

text \<open>
  \<open>std::cin >> choice\<close>: a sign and digits; no digit, or a number that does not fit, sets the fail
  bit. With the bit set nothing is read. The code never clears it.
\<close>

definition cin_int :: "console \<Rightarrow> int \<times> console" where
  "cin_int c =
     (if cin_fail c then (0, c)
      else
        let s = dropWhile isspace (unread c);
            (neg, s1) = (case s of
               [] \<Rightarrow> (False, [])
             | x # xs \<Rightarrow> if x = CHR ''-'' then (True, xs) else if x = CHR ''+'' then (False, xs)
                         else (False, s));
            ds = takeWhile (\<lambda>x. digit_of x \<noteq> None) s1;
            n = (if neg then - int (digits_value 0 ds) else int (digits_value 0 ds));
            c' = c\<lparr>unread := drop (length ds) s1\<rparr>
        in if ds = [] \<or> \<not> fits_int n then (0, c'\<lparr>cin_fail := True\<rparr>) else (n, c'))"

definition cin_word :: "console \<Rightarrow> string \<times> console" where
  "cin_word c =
     (if cin_fail c then ([], c)
      else
        let s = dropWhile isspace (unread c); w = takeWhile (\<lambda>x. \<not> isspace x) s
        in if w = [] then ([], c\<lparr>unread := [], cin_fail := True\<rparr>)
           else (w, c\<lparr>unread := drop (length w) s\<rparr>))"

text \<open>The inner \<open>for (;;)\<close> of the menu.\<close>

partial_function (option) read_choice :: "console \<Rightarrow> (int \<times> console) option" where
  "read_choice c =
     (case cin_int c of (n, c') \<Rightarrow> if cin_fail c' then read_choice c' else Some (n, c'))"

section \<open>The menu\<close>

text \<open>The database, the files, the global of \<open>SSocket.cpp\<close>, and the managers whose threads were started.\<close>

record menu_state =
  con :: console
  db :: client_db
  fs :: file_system
  GLOB_responder_port :: "32 word"
  managers :: "download_manager list"

definition TRACKER_PORT :: "32 word" where "TRACKER_PORT = 59095"

text \<open>The contents of uninitialised locals, and the network of the listener.\<close>

record menu_env =
  me_count :: "16 word"
  me_sizes :: "nat \<Rightarrow> 32 word"
  me_torrents :: "nat \<Rightarrow> 32 word"
  me_listen :: listen_env

text \<open>
  One \<open>switch\<close>: the result says whether the menu ends. In case 3 the \<open>std::thread\<close> of the download
  manager is destroyed at the end of the block, joinable, and that terminates the process.
  Case 4 does not come back unless a system call fails.
\<close>

definition menu_choice ::
  "menu_env \<Rightarrow> int \<Rightarrow> ip_string \<Rightarrow> int \<Rightarrow> menu_state \<Rightarrow> (bool outcome \<times> menu_state) option" where
  "menu_choice env lport trackerIp choice s =
     (if choice = 1 then
        (case cin_word (con s) of (name, c) \<Rightarrow>
          if \<not> cin_fail c then
            Some (Inr False, s\<lparr>con := c, db := snd (Database_loadFromFile (me_count env) (me_sizes env)
              (me_torrents env) name (fs s) (db s))\<rparr>)
          else Some (Inr False, s\<lparr>con := c\<rparr>))
      else if choice = 2 then
        (case cin_word (con s) of (name, c) \<Rightarrow>
          if \<not> cin_fail c then
            Some (Inr False, s\<lparr>con := c, fs := disk (createLocalFile
              (Torrent_load (me_torrents env 0) name (fs s)) (FileManager (fs s)))\<rparr>)
          else Some (Inr False, s\<lparr>con := c\<rparr>))
      else if choice = 3 then
        (case cin_word (con s) of (name, c) \<Rightarrow>
          let requestedTorrent = Torrent_load (me_torrents env 0) name (fs s)
          in if \<not> cin_fail c then
               if isFileInDatabase requestedTorrent (db s) then
                 (case getFile (id_of_hash (hashed requestedTorrent)) (db s) of
                    Inl e \<Rightarrow> Some (Inl e, s\<lparr>con := c\<rparr>)
                  | Inr k \<Rightarrow>
                      let dm = DownloadManager (db s ! k) \<lparr>ip = trackerIp, port = TRACKER_PORT\<rparr>
                      in Some (Inl Terminated, s\<lparr>con := c, managers := managers s @ [dm]\<rparr>))
               else Some (Inr False, s\<lparr>con := c\<rparr>)
             else Some (Inr False, s\<lparr>con := c\<rparr>))
      else if choice = 4 then
        (case connListen lport (me_listen env) of
           (_, _, None) \<Rightarrow> None
         | (responder_port, _, Some e) \<Rightarrow> Some (Inl e, s\<lparr>GLOB_responder_port := responder_port\<rparr>))
      else if choice = 5 then Some (Inr True, s)
      else Some (Inr False, s))"

partial_function (option) runMenu ::
  "menu_env \<Rightarrow> int \<Rightarrow> ip_string \<Rightarrow> menu_state \<Rightarrow> (unit outcome \<times> menu_state) option" where
  "runMenu env lport trackerIp s =
     (case read_choice (con s) of
        None \<Rightarrow> None
      | Some (choice, c) \<Rightarrow>
          (case menu_choice env lport trackerIp choice (s\<lparr>con := c\<rparr>) of
             None \<Rightarrow> None
           | Some (Inl e, s') \<Rightarrow> Some (Inl e, s')
           | Some (Inr quit, s') \<Rightarrow> if quit then Some (Inr (), s') else runMenu env lport trackerIp s'))"

section \<open>The command line\<close>

fun client_options :: "int \<Rightarrow> ip_string \<Rightarrow> getopt_result list \<Rightarrow> (int \<times> ip_string) outcome" where
  "client_options p t [] = Inr (p, t)"
| "client_options p t (OptP optarg # rs) =
     (if \<not> validPort (potentialPort optarg) then Inl (Exited 1)
      else client_options (potentialPort optarg) t rs)"
| "client_options p t (OptT optarg # rs) = client_options p optarg rs"
| "client_options p t (OptMissingArg # rs) = client_options p t rs"
| "client_options p t (OptUnknown # rs) = client_options p t rs"

text \<open>\<open>main\<close>: the exit status and the state the menu leaves.\<close>

definition client_main ::
  "menu_env \<Rightarrow> getopt_result list \<Rightarrow> console \<Rightarrow> file_system \<Rightarrow> (int outcome \<times> menu_state) option" where
  "client_main env opts c f =
     (let s = \<lparr>con = c, db = [], fs = f, GLOB_responder_port = 0, managers = []\<rparr>
      in case client_options CLIENT_DEFAULT_PORT [] opts of
           Inl e \<Rightarrow> Some (Inl e, s)
         | Inr (p, trackerIp) \<Rightarrow>
             if trackerIp = [] then Some (Inr 1, s)
             else (case runMenu env p trackerIp s of
                     None \<Rightarrow> None
                   | Some (Inl e, s') \<Rightarrow> Some (Inl e, s')
                   | Some (Inr _, s') \<Rightarrow> Some (Inr 0, s')))"

section \<open>The menu loop\<close>

lemma cin_int_failed [simp]: "cin_fail c \<Longrightarrow> cin_int c = (0, c)"
  by (simp add: cin_int_def)

lemma read_choice_not_failed: "read_choice c = Some r \<Longrightarrow> \<not> cin_fail c"
proof (erule read_choice.raw_induct[rotated, where P = "\<lambda>c r. \<not> cin_fail c"])
  fix f c r
  assume ih: "\<And>c r. f c = Some r \<Longrightarrow> \<not> cin_fail c"
    and body: "(case cin_int c of (n, c') \<Rightarrow> if cin_fail c' then f c' else Some (n, c')) = Some r"
  show "\<not> cin_fail c"
  proof
    assume fail: "cin_fail c"
    with body have "f c = Some r" by simp
    from ih[OF this] fail show False by simp
  qed
qed

lemma read_choice_eq:
  "read_choice c = (case cin_int c of (n, c') \<Rightarrow> if cin_fail c' then None else Some (n, c'))"
proof (cases "cin_int c")
  case (Pair n c')
  have "read_choice c' = None" if "cin_fail c'"
    using that read_choice_not_failed by (cases "read_choice c'") auto
  with Pair show ?thesis by (subst read_choice.simps) simp
qed

text \<open>
  The first input that is not a number, the end of the input included, hangs the client: the
  fail bit of \<open>std::cin\<close> is never cleared, so the loop that asks again reads nothing, for ever.
\<close>

theorem bad_input_hangs:
  assumes "dropWhile isspace (unread c) = [] \<or>
    digit_of (hd (dropWhile isspace (unread c))) = None \<and>
    hd (dropWhile isspace (unread c)) \<notin> {CHR ''-'', CHR ''+''}"
  shows "runMenu env lport trackerIp (s0\<lparr>con := c\<rparr>) = None"
proof -
  define s where "s = dropWhile isspace (unread c)"
  have "cin_fail (snd (cin_int c))"
  proof (cases s)
    case Nil
    then show ?thesis unfolding cin_int_def s_def [symmetric] by (simp add: Let_def)
  next
    case (Cons x xs)
    have "digit_of x = None" "x \<noteq> CHR ''-''" "x \<noteq> CHR ''+''"
      using assms unfolding s_def [symmetric] Cons by simp_all
    with Cons show ?thesis unfolding cin_int_def s_def [symmetric] by (simp add: Let_def)
  qed
  then have "read_choice c = None" by (auto simp: read_choice_eq split: prod.split)
  then show ?thesis by (subst runMenu.simps) simp
qed

definition example_menu_env :: menu_env where
  "example_menu_env = \<lparr>me_count = 0, me_sizes = (\<lambda>_. 0), me_torrents = (\<lambda>_. 0),
     me_listen = \<lparr>le_socket = 3, le_bind = (\<lambda>_. 0), le_listen = 0, le_accepts = []\<rparr>\<rparr>"

definition example_menu :: "console \<Rightarrow> menu_state" where
  "example_menu c = \<lparr>con = c, db = [], fs = example_fs, GLOB_responder_port = 0, managers = []\<rparr>"

lemma bad_input_hangs_witness:
  "runMenu example_menu_env 59096 ''10.0.0.1'' (example_menu \<lparr>unread = '' quit'', cin_fail = False\<rparr>) = None"
  using bad_input_hangs [of "\<lparr>unread = '' quit'', cin_fail = False\<rparr>" example_menu_env 59096 "''10.0.0.1''"
    "example_menu \<lparr>unread = [], cin_fail = False\<rparr>"]
  by (simp add: isspace_def digit_of_def example_menu_def)

text \<open>
  What every menu round keeps: the database is blank, and no manager has been started; where the process
  is terminated, exactly one has, for a blank file.
\<close>

definition idle_menu :: "menu_state \<Rightarrow> bool" where
  "idle_menu s \<longleftrightarrow> all_blank (db s) \<and> managers s = []"

definition ends_well :: "ip_string \<Rightarrow> unit outcome \<times> menu_state \<Rightarrow> bool" where
  "ends_well trackerIp r \<longleftrightarrow> (case r of (e, s) \<Rightarrow>
     (e = Inr () \<or> e = Inl (Exited 1)) \<and> idle_menu s \<or>
     e = Inl Terminated \<and> all_blank (db s) \<and>
       managers s = [DownloadManager File_default \<lparr>ip = trackerIp, port = TRACKER_PORT\<rparr>])"

lemma load_all_blank:
  "all_blank d \<Longrightarrow> all_blank (snd (Database_loadFromFile cj js ts name f d))"
  by (cases "Database_loadFromFile cj js ts name f d") (simp add: load_blank)

text \<open>The request for a download: in a blank database only a torrent of hash 0 is found.\<close>

lemma blank_isFileInDatabase:
  assumes "all_blank d"
  shows "isFileInDatabase t d \<longleftrightarrow> d \<noteq> [] \<and> hashed t = 0"
  using assms by (cases d) (auto simp: all_blank_def isFileInDatabase_def list_ex_iff File_default_def
      Torrent_default_def)

lemma blank_getFile:
  assumes "all_blank d" and "d \<noteq> []"
  shows "getFile 0 d = Inr 0" and "d ! 0 = File_default"
  using assms by (cases d; auto simp: all_blank_def getFile_def File_getId_def File_default_def
      Torrent_default_def id_of_hash_def)+

lemma connListen_fault: "connListen lport env = (g, served, Some e) \<Longrightarrow> e = Exited 1"
proof -
  have "accept_loop rs served = (served', Some e) \<Longrightarrow> e = Exited 1" for rs served served'
    by (induction rs served rule: accept_loop.induct) (auto simp: guard_def split: if_splits)
  then show "connListen lport env = (g, served, Some e) \<Longrightarrow> e = Exited 1"
    by (auto simp: connListen_def guard_def split: if_splits)
qed

lemma menu_choice_ends:
  assumes "idle_menu s" and "menu_choice env lport trackerIp n s = Some (r, s')"
  shows "case r of Inr _ \<Rightarrow> idle_menu s' | Inl e \<Rightarrow> ends_well trackerIp (Inl e, s')"
proof (cases "n = 3")
  case True
  have "id_of_hash 0 = 0" by (simp add: id_of_hash_def)
  then show ?thesis
    using assms True by (auto simp: menu_choice_def Let_def blank_isFileInDatabase blank_getFile
        idle_menu_def ends_well_def split: prod.splits if_splits)
next
  case False
  then show ?thesis
    using assms by (auto simp: menu_choice_def Let_def load_all_blank idle_menu_def ends_well_def
        split: if_splits prod.splits option.splits dest: connListen_fault)
qed

lemma runMenu_ends:
  "runMenu env lport trackerIp s = Some r \<Longrightarrow> idle_menu s \<longrightarrow> ends_well trackerIp r"
proof (erule runMenu.raw_induct[rotated, where
    P = "\<lambda>env lport trackerIp s r. idle_menu s \<longrightarrow> ends_well trackerIp r"])
  fix f env lport trackerIp s r
  assume ih: "\<And>env lport trackerIp s r. f env lport trackerIp s = Some r \<Longrightarrow> idle_menu s \<longrightarrow> ends_well trackerIp r"
    and body: "(case read_choice (con s) of None \<Rightarrow> None
      | Some (choice, c) \<Rightarrow>
          (case menu_choice env lport trackerIp choice (s\<lparr>con := c\<rparr>) of
             None \<Rightarrow> None
           | Some (Inl e, s') \<Rightarrow> Some (Inl e, s')
           | Some (Inr quit, s') \<Rightarrow> if quit then Some (Inr (), s') else f env lport trackerIp s')) = Some r"
  show "idle_menu s \<longrightarrow> ends_well trackerIp r"
  proof
    assume idle: "idle_menu s"
    obtain choice c where "read_choice (con s) = Some (choice, c)"
      using body by (auto split: option.splits)
    note body = body[unfolded this option.case prod.case]
    obtain o1 s1 where m: "menu_choice env lport trackerIp choice (s\<lparr>con := c\<rparr>) = Some (o1, s1)"
      using body by (auto split: option.splits)
    have "idle_menu (s\<lparr>con := c\<rparr>)" using idle by (simp add: idle_menu_def)
    from menu_choice_ends[OF this m] show "ends_well trackerIp r"
      using body m ih[of env lport trackerIp s1 r]
      by (cases o1) (auto simp: ends_well_def split: if_splits)
  qed
qed

lemma client_main_ends:
  assumes "client_main env opts c f = Some (r, s)"
  shows "all_blank (db s) \<and>
    ((r = Inr 0 \<or> r = Inr 1 \<or> r = Inl (Exited 1)) \<and> managers s = [] \<or>
     (\<exists>a. r = Inl Terminated \<and> managers s = [DownloadManager File_default \<lparr>ip = a, port = TRACKER_PORT\<rparr>]))"
proof -
  let ?s = "\<lparr>con = c, db = [], fs = f, GLOB_responder_port = 0, managers = []\<rparr>"
  have start: "idle_menu ?s" by (simp add: all_blank_def idle_menu_def)
  have opts: "client_options p t os = Inl e \<Longrightarrow> e = Exited 1" for p t os e
    by (induction p t os rule: client_options.induct) (auto split: if_splits)
  show ?thesis
  proof (cases "client_options CLIENT_DEFAULT_PORT [] opts")
    case (Inl e)
    then show ?thesis using assms opts start by (auto simp: client_main_def Let_def idle_menu_def)
  next
    case (Inr pt)
    then show ?thesis
      using assms start runMenu_ends[of env "fst pt" "snd pt" ?s]
      by (fastforce simp: client_main_def Let_def ends_well_def idle_menu_def split: prod.splits if_splits
          option.splits sum.splits)
  qed
qed

text \<open>
  C40. However the client is used, its process ends in one of four ways or not at all: status 1 for
  a bad command line or a failed listener, status 0 after option 5, or \<open>std::terminate\<close> at the first
  requested download whose file is found, right after its manager's thread was started. At every
  end its database holds blank files only.
\<close>

theorem client_ends:
  assumes "client_main env opts c f = Some (r, s)"
  shows "all_blank (db s) \<and>
    (r = Inr 0 \<and> managers s = [] \<or> r = Inr 1 \<and> managers s = [] \<or> r = Inl (Exited 1) \<and> managers s = [] \<or>
     r = Inl Terminated \<and> length (managers s) = 1)"
  using client_main_ends[OF assms] by auto

lemma client_ends_witness:
  "client_main example_menu_env [OptT ''10.0.0.1''] \<lparr>unread = ''5'', cin_fail = False\<rparr> example_fs =
      Some (Inr 0, example_menu \<lparr>unread = [], cin_fail = False\<rparr>) \<and>
   all_blank (db (example_menu \<lparr>unread = [], cin_fail = False\<rparr>))"
proof -
  have "cin_int \<lparr>unread = ''5'', cin_fail = False\<rparr> = (5, \<lparr>unread = [], cin_fail = False\<rparr>)"
    by (simp add: cin_int_def isspace_def digit_of_def fits_int_def)
  then have run: "client_main example_menu_env [OptT ''10.0.0.1''] \<lparr>unread = ''5'', cin_fail = False\<rparr>
      example_fs = Some (Inr 0, example_menu \<lparr>unread = [], cin_fail = False\<rparr>)"
    by (subst client_main_def, subst runMenu.simps)
      (simp add: read_choice_eq menu_choice_def example_menu_def)
  from client_ends [OF run] run show ?thesis by simp
qed

text \<open>
  C36. From the command line to the download: whatever is typed, whatever the files hold and the tracker
  answers, the thread of a manager the client has started is the last thing it starts, for a file of hash 0
  without segments, and ends without a peer, a worker or a change.
\<close>

theorem client_downloads_nothing:
  assumes "client_main env opts c f = Some (r, s)" and "m \<in> set (managers s)"
  shows "manager_thread parse nenv rounds ends m \<in> {Some (Inr (), m), Some (Inl (Undefined RepeatedIndex), m)} \<and>
    r = Inl Terminated \<and> hashed (fileTorrent (dm_file m)) = 0 \<and> segments (dm_file m) = []"
proof -
  obtain a where r: "r = Inl Terminated" and "managers s = [DownloadManager File_default a]"
    using client_main_ends[OF assms(1)] assms(2) by auto
  then have m: "m = DownloadManager File_default a" using assms(2) by simp
  show ?thesis
    unfolding m using r manager_without_peers[of File_default parse nenv rounds ends a]
    by (simp add: File_default_def DownloadManager_def Torrent_default_def)
qed

text \<open>A session: a database of one file is loaded, then a download is asked for by the name of no file.\<close>

definition session_fs :: file_system where
  "session_fs = \<lparr>files = [''d'' \<mapsto> enc16 1 @ enc32 1 @ ''d''], accessible = (\<lambda>_. True)\<rparr>"

lemma session_run:
  "client_main example_menu_env [OptT ''10.0.0.1''] \<lparr>unread = ''1 d 3 t'', cin_fail = False\<rparr> session_fs =
    Some (Inl Terminated, \<lparr>con = \<lparr>unread = [], cin_fail = False\<rparr>, db = [File_default], fs = session_fs,
      GLOB_responder_port = 0,
      managers = [DownloadManager File_default \<lparr>ip = ''10.0.0.1'', port = TRACKER_PORT\<rparr>]\<rparr>)"
proof -
  note input = cin_int_def cin_word_def isspace_def digit_of_def fits_int_def
  have typed: "cin_int \<lparr>unread = ''1 d 3 t'', cin_fail = False\<rparr> = (1, \<lparr>unread = '' d 3 t'', cin_fail = False\<rparr>)"
    "cin_word \<lparr>unread = '' d 3 t'', cin_fail = False\<rparr> = (''d'', \<lparr>unread = '' 3 t'', cin_fail = False\<rparr>)"
    "cin_int \<lparr>unread = '' 3 t'', cin_fail = False\<rparr> = (3, \<lparr>unread = '' t'', cin_fail = False\<rparr>)"
    "cin_word \<lparr>unread = '' t'', cin_fail = False\<rparr> = (''t'', \<lparr>unread = [], cin_fail = False\<rparr>)"
    by (simp_all add: input)
  have loaded: "snd (Database_loadFromFile 0 (\<lambda>_. 0) (\<lambda>_. 0) ''d'' session_fs []) = [File_default]"
  proof -
    have count: "enc16 1 = [CHR 0x01, NUL]" "enc32 1 = [CHR 0x01, NUL, NUL, NUL]"
      by code_simp+
    have words: "dec16 [CHR 0x01, NUL] = 1" "dec32 [CHR 0x01, NUL, NUL, NUL] = 1"
      by code_simp+
    let ?s = "\<lambda>n. \<lparr>content = [CHR 0x01, NUL, CHR 0x01, NUL, NUL, NUL] @ ''d'', gpos = n, eofbit = False, failbit = False\<rparr>"
    have opened: "ifstream_open ''d'' session_fs = ?s 0"
      by (simp add: ifstream_open_def istream_open_def session_fs_def c_str_def count)
    have reads: "istream_read 2 (?s 0) = ([CHR 0x01, NUL], ?s 2)"
      "istream_read 4 (?s 2) = ([CHR 0x01, NUL, NUL, NUL], ?s 6)" "istream_read (Suc 0) (?s 6) = (''d'', ?s 7)"
      by (simp_all add: istream_read_def Let_def)
    have over: "overlay [CHR 0x01, NUL] (enc16 0) = [CHR 0x01, NUL]"
      "overlay [CHR 0x01, NUL, NUL, NUL] (enc32 0) = [CHR 0x01, NUL, NUL, NUL]" "overlay ''d'' [NUL] = ''d''"
      by (simp_all add: overlay_def enc16_def enc32_def)
    have there: "stat_ok ''d'' session_fs" by (simp add: stat_ok_def session_fs_def c_str_def)
    have entry: "load_entries (\<lambda>_. 0) (\<lambda>_. 0) session_fs 0 (Suc 0) (?s 2) [] = [File_default]"
      unfolding load_entries.simps reads(2) prod.case Let_def over(2) words
      using reads(3) over(3) there by (simp add: addFile_def File_copy_def)
    show ?thesis
      unfolding Database_loadFromFile_def opened reads(1) Let_def prod.case over(1) words
      by (simp only: there entry unat_1 One_nat_def if_False not_True_eq_False snd_conv)
  qed
  have none: "isFileInDatabase (Torrent_load 0 ''t'' session_fs) [File_default]"
    "hashed (Torrent_load 0 ''t'' session_fs) = 0"
    by (simp_all add: Torrent_load_def stat_ok_def session_fs_def c_str_def Torrent_default_def
        isFileInDatabase_def File_default_def)
  have "getFile (id_of_hash 0) [File_default] = Inr 0"
    using blank_getFile[of "[File_default]"] by (simp add: all_blank_def id_of_hash_def)
  with typed loaded none show ?thesis
    by (subst client_main_def, subst runMenu.simps, subst runMenu.simps)
      (simp add: read_choice_eq menu_choice_def example_menu_env_def)
qed

lemma client_downloads_nothing_witness:
  "manager_thread (\<lambda>_ _. default_message) (example_env []) [] []
     (DownloadManager File_default \<lparr>ip = ''10.0.0.1'', port = TRACKER_PORT\<rparr>) \<in>
    {Some (Inr (), DownloadManager File_default \<lparr>ip = ''10.0.0.1'', port = TRACKER_PORT\<rparr>),
     Some (Inl (Undefined RepeatedIndex), DownloadManager File_default \<lparr>ip = ''10.0.0.1'', port = TRACKER_PORT\<rparr>)}"
  using client_downloads_nothing [OF session_run] by simp

section \<open>Listener and options\<close>

definition served_pair :: "int \<times> int \<Rightarrow> bool" where
  "served_pair r \<longleftrightarrow> fst r \<noteq> -1 \<and> snd r = 0"

lemma accept_loop_eq:
  "accept_loop rs served =
    (served @ map fst (takeWhile served_pair rs),
     if \<forall>r \<in> set rs. served_pair r then None else Some (Exited 1))"
  by (induction rs served rule: accept_loop.induct) (auto simp: guard_def served_pair_def)

text \<open>
  The client's listener starts one thread for every accepted connection, in order and each on
  its own descriptor, until the first failure of \<open>accept\<close> or \<open>pthread_create\<close>, which ends the
  process with status 1.
\<close>

theorem connListen_serves_accepted:
  assumes "le_socket env \<noteq> -1" and "le_bind env lport \<noteq> -1" and "le_listen env \<noteq> -1"
  shows "connListen lport env = (of_int lport, map fst (takeWhile served_pair (le_accepts env)),
    if \<forall>r \<in> set (le_accepts env). served_pair r then None else Some (Exited 1))"
  using assms by (simp add: connListen_def guard_def accept_loop_eq)

lemma connListen_serves_accepted_witness:
  "connListen 2000 \<lparr>le_socket = 3, le_bind = (\<lambda>_. 0), le_listen = 0, le_accepts = [(4, 0), (5, 0), (-1, 0)]\<rparr> =
     (2000, [4, 5], Some (Exited 1))"
  using connListen_serves_accepted
    [of "\<lparr>le_socket = 3, le_bind = (\<lambda>_. 0), le_listen = 0, le_accepts = [(4, 0), (5, 0), (-1, 0)]\<rparr>" 2000]
  by (simp add: served_pair_def)

text \<open>
  The client, unlike the server, keeps the port it is given: with \<open>-t\<close> and \<open>-p\<close> in any order the
  menu runs with the number's residue modulo \<open>2 ^ 32\<close> if that is between 1024 and 65535, and the
  process ends with status 1 otherwise.
\<close>

theorem client_port_kept:
  assumes "n < 2 ^ 63"
  shows "client_options p t [OptP (to_string n), OptT a] =
      (if 1024 \<le> n mod 2 ^ 32 \<and> n mod 2 ^ 32 \<le> 65535 then Inr (int (n mod 2 ^ 32), a)
       else Inl (Exited 1)) \<and>
    client_options p t [OptT a, OptP (to_string n)] = client_options p t [OptP (to_string n), OptT a]"
  using validPort_residue[OF assms] by auto

lemma client_port_kept_witness:
  "client_options 1 [] [OptP (to_string 2000), OptT ''h''] = Inr (2000, ''h'') \<and>
   client_options 1 [] [OptT ''h'', OptP (to_string 2000)] =
     client_options 1 [] [OptP (to_string 2000), OptT ''h'']"
  using client_port_kept [of 2000 1 "[]" "''h''"] by simp

section \<open>The other listener\<close>

text \<open>
  \<open>RequestHandler::openListener\<close>, which nothing calls: connections are accepted and left alone.
  The list holds the results of \<open>accept\<close>; \<open>None\<close> is a listener that is still waiting.
\<close>

fun accept_ignored :: "int list \<Rightarrow> int outcome option" where
  "accept_ignored [] = None"
| "accept_ignored (r # rs) = (case guard r of Inl e \<Rightarrow> Some (Inl e) | Inr _ \<Rightarrow> accept_ignored rs)"

definition openListener :: "int \<Rightarrow> int \<Rightarrow> int \<Rightarrow> int list \<Rightarrow> int outcome option" where
  "openListener acceptorFd bindRes listenRes accepts =
     (if acceptorFd = -1 then Some (Inr (-1))
      else if bindRes = -1 then Some (Inr (-1))
      else if listenRes = -1 then Some (Inr (-1))
      else accept_ignored accepts)"

text \<open>Its header promises 0 otherwise; that value is never returned.\<close>

lemma openListener_never_zero: "openListener a b l rs \<noteq> Some (Inr 0)"
proof -
  have "accept_ignored rs \<noteq> Some (Inr n)" for n
    by (induction rs) (auto simp: guard_def)
  then show ?thesis by (simp add: openListener_def)
qed

end
