(* ===== verification/Keyed_Tables.thy ===== *)
theory Keyed_Tables
  imports Prelude
begin

text \<open>
  The contract shared by the vectors the program uses as tables: elements carry a key, the
  operations keep the keys distinct, and the first element with a key is the one found. The
  tables of the tracker (clients by address, torrents of a client by hash) interpret it.
\<close>

locale keyed_growth =
  fixes key :: "'e \<Rightarrow> 'k" and put :: "'e \<Rightarrow> 'e list \<Rightarrow> 'e list"
  assumes keys_put: "map key (put e xs) =
    (if key e \<in> key ` set xs then map key xs else map key xs @ [key e])"
begin

lemma distinct_put:
  assumes "distinct (map key xs)"
  shows "distinct (map key (put e xs))"
  using assms by (simp add: keys_put)

lemma set_keys_put: "key ` set (put e xs) = insert (key e) (key ` set xs)"
proof -
  have "set (map key (put e xs)) = insert (key e) (set (map key xs))"
    by (auto simp: keys_put)
  then show ?thesis by simp
qed

lemma length_put: "length (put e xs) \<le> Suc (length xs)"
  using arg_cong[OF keys_put, of length e xs] by (simp split: if_splits)

lemma distinct_fold_put: "distinct (map key xs) \<Longrightarrow> distinct (map key (fold put es xs))"
  by (induction es arbitrary: xs) (simp_all add: distinct_put)

lemma set_keys_fold_put: "key ` set (fold put es xs) = key ` set es \<union> key ` set xs"
  by (induction es arbitrary: xs) (simp_all add: set_keys_put)

end

text \<open>Insertion that keeps the element already there.\<close>

locale insert_if_absent = keyed_growth +
  assumes put_present: "key e \<in> key ` set xs \<Longrightarrow> put e xs = xs"
    and put_absent: "key e \<notin> key ` set xs \<Longrightarrow> put e xs = xs @ [e]"
begin

lemma put_idem: "put e (put e xs) = put e xs"
  by (simp add: put_present set_keys_put)

lemma lookup_put: "lookupBy key k (put e xs) =
    (case lookupBy key k xs of Some x \<Rightarrow> Some x | None \<Rightarrow> if k = key e then Some e else None)"
proof (cases "key e \<in> key ` set xs")
  case True
  then have "lookupBy key (key e) xs \<noteq> None" by (simp add: lookupBy_None_iff)
  with True show ?thesis by (auto simp: put_present split: option.splits)
next
  case False
  then show ?thesis by (auto simp: put_absent lookupBy_append split: option.splits)
qed

end

text \<open>Insertion that replaces the value (not the whole element) of the element already there.\<close>

locale keyed_upsert = keyed_growth key put
  for key :: "'e \<Rightarrow> 'k" and put :: "'e \<Rightarrow> 'e list \<Rightarrow> 'e list" +
  fixes val :: "'e \<Rightarrow> 'v"
  assumes val_put: "map_option val (lookupBy key k (put e xs)) =
    (if k = key e then Some (val e) else map_option val (lookupBy key k xs))"
begin

definition table :: "'e list \<Rightarrow> 'k \<Rightarrow> 'v option" where
  "table xs = (\<lambda>k. map_option val (lookupBy key k xs))"

lemma table_put: "table (put e xs) = (table xs)(key e \<mapsto> val e)"
  by (rule ext) (simp add: table_def val_put)

lemma table_put_overwrite:
  assumes "key e = key e'"
  shows "table (put e (put e' xs)) = table (put e xs)"
  using assms by (simp add: table_put)

lemma table_put_commute:
  assumes "key e \<noteq> key e'"
  shows "table (put e (put e' xs)) = table (put e' (put e xs))"
  using assms by (simp add: table_put fun_upd_twist)

lemma table_fold_put: "table (fold put es xs) = table xs ++ map_of (map (\<lambda>e. (key e, val e)) (rev es))"
  by (induction es arbitrary: xs) (simp_all add: table_put map_add_upd_left map_add_def fun_eq_iff
      split: option.splits)

end

end
