(* ===== verification/Server_Database.thy ===== *)
theory Server_Database
  imports Torrents Keyed_Tables
begin

text \<open>
  The tracker's database: \<open>server/database/ClientInfo.h\<close> and \<open>server/database/Database.*\<close>. The
  \<open>std::shared_mutex\<close> is part of the state and every \<open>lock\<close>, \<open>unlock\<close>, \<open>lock_shared\<close> and
  \<open>unlock_shared\<close> of the code is a step of the model. An operation runs on one thread from its
  first to its last statement, so a mutex found locked is locked by this very thread: the
  standard leaves that undefined (in practice a deadlock, or a \<open>system_error\<close> that ends the
  process), and the model stops with \<open>SelfLock\<close>.
\<close>

section \<open>ClientInfo\<close>

record client_info =
  isIpV4 :: bool
  address :: ip_address
  ci_torrents :: "torrent list"

definition ClientInfo :: "bool \<Rightarrow> ip_address \<Rightarrow> client_info" where
  "ClientInfo v4 a = \<lparr>isIpV4 = v4, address = a, ci_torrents = []\<rparr>"

definition ClientInfo_with :: "bool \<Rightarrow> ip_address \<Rightarrow> torrent list \<Rightarrow> client_info" where
  "ClientInfo_with v4 a ts = \<lparr>isIpV4 = v4, address = a, ci_torrents = ts\<rparr>"

definition setTorrents :: "torrent list \<Rightarrow> client_info \<Rightarrow> client_info" where
  "setTorrents ts c = c\<lparr>ci_torrents := ts\<rparr>"

definition getTorrents :: "client_info \<Rightarrow> torrent list" where
  "getTorrents c = ci_torrents c"

definition getAddress :: "client_info \<Rightarrow> ip_address" where
  "getAddress c = address c"

definition getIsIpV4 :: "client_info \<Rightarrow> bool" where
  "getIsIpV4 c = isIpV4 c"

lemmas client_getters [simp] = getTorrents_def getAddress_def getIsIpV4_def

definition ClientInfo_hasTorrent :: "torrent \<Rightarrow> client_info \<Rightarrow> bool" where
  "ClientInfo_hasTorrent t c = list_ex (\<lambda>i. hashed i = hashed t) (ci_torrents c)"

definition ClientInfo_hasHash :: "hash_value \<Rightarrow> client_info \<Rightarrow> bool" where
  "ClientInfo_hasHash h c = list_ex (\<lambda>i. hashed i = h) (ci_torrents c)"

fun emplaceTorrent :: "torrent \<Rightarrow> torrent list \<Rightarrow> torrent list" where
  "emplaceTorrent t [] = [t]"
| "emplaceTorrent t (f # fs) = (if hashed f = hashed t then f # fs else f # emplaceTorrent t fs)"

definition ClientInfo_addTorrent :: "torrent \<Rightarrow> client_info \<Rightarrow> client_info" where
  "ClientInfo_addTorrent t c = c\<lparr>ci_torrents := emplaceTorrent t (ci_torrents c)\<rparr>"

definition deleteFileToShare :: "torrent \<Rightarrow> client_info \<Rightarrow> client_info" where
  "deleteFileToShare t c = c\<lparr>ci_torrents := filter (\<lambda>f. \<not> Torrent_eq f t) (ci_torrents c)\<rparr>"

definition ClientInfo_eq :: "client_info \<Rightarrow> client_info \<Rightarrow> bool" where
  "ClientInfo_eq a b \<longleftrightarrow> IpAddress_eq (getAddress a) (getAddress b) \<and> getIsIpV4 a = getIsIpV4 b"

lemma emplaceTorrent_eq:
  "emplaceTorrent t ts = (if hashed t \<in> hashed ` set ts then ts else ts @ [t])"
  by (induction ts) auto

interpretation torrents_of: insert_if_absent hashed emplaceTorrent
  by unfold_locales (auto simp: emplaceTorrent_eq)

lemma hasHash_iff [simp]: "ClientInfo_hasHash h c \<longleftrightarrow> h \<in> hashed ` set (ci_torrents c)"
  by (auto simp: ClientInfo_hasHash_def list_ex_iff intro: rev_image_eqI)

lemma hasTorrent_iff [simp]:
  "ClientInfo_hasTorrent t c \<longleftrightarrow> hashed t \<in> hashed ` set (ci_torrents c)"
  by (auto simp: ClientInfo_hasTorrent_def list_ex_iff intro: rev_image_eqI)

lemma ClientInfo_addTorrent_address [simp]: "address (ClientInfo_addTorrent t c) = address c"
  by (simp add: ClientInfo_addTorrent_def)

lemma setTorrents_simps [simp]:
  "address (setTorrents ts c) = address c" "ci_torrents (setTorrents ts c) = ts"
  by (simp_all add: setTorrents_def)

section \<open>The database and its mutex\<close>

datatype mutex_state = Unlocked | LockedShared | LockedExclusive

record server_db =
  clients :: "client_info list"
  torrents :: "torrent list"
  mutex :: mutex_state

definition Server_empty :: server_db where
  "Server_empty = \<lparr>clients = [], torrents = [], mutex = Unlocked\<rparr>"

definition lock :: "(server_db, unit) op" where
  "lock db = (if mutex db = Unlocked then (Inr (), db\<lparr>mutex := LockedExclusive\<rparr>)
              else (Inl (Undefined SelfLock), db))"

definition lock_shared :: "(server_db, unit) op" where
  "lock_shared db = (if mutex db = Unlocked then (Inr (), db\<lparr>mutex := LockedShared\<rparr>)
                     else (Inl (Undefined SelfLock), db))"

definition unlock :: "(server_db, unit) op" where
  "unlock = modify (\<lambda>db. db\<lparr>mutex := Unlocked\<rparr>)"

section \<open>Operations\<close>

text \<open>The loop of \<open>addOrUpdateClient\<close>: the first client with the address gets the torrents.\<close>

fun updateClient :: "client_info \<Rightarrow> client_info list \<Rightarrow> client_info list option" where
  "updateClient ci [] = None"
| "updateClient ci (c # cs) =
     (if IpAddress_eq (getAddress ci) (getAddress c) then Some (setTorrents (getTorrents ci) c # cs)
      else map_option ((#) c) (updateClient ci cs))"

definition putClient :: "client_info \<Rightarrow> client_info list \<Rightarrow> client_info list" where
  "putClient ci cs = (case updateClient ci cs of Some cs' \<Rightarrow> cs' | None \<Rightarrow> cs @ [ci])"

definition addOrUpdateClient :: "client_info \<Rightarrow> (server_db, unit) op" where
  "addOrUpdateClient ci =
     andThen lock (\<lambda>_. andThen (modify (\<lambda>db. db\<lparr>clients := putClient ci (clients db)\<rparr>)) (\<lambda>_.
       unlock))"

text \<open>
  \<open>for (auto c : clients)\<close> binds \<open>c\<close> to a copy, and \<open>ClientInfo ci = clients.emplace_back(...)\<close>
  copies the appended element: both calls of \<open>addTorrent\<close> act on a local that dies with the
  scope, so only the appended \<open>clientInfo\<close> itself reaches the database.
\<close>

definition addTorrentToClient :: "client_info \<Rightarrow> torrent \<Rightarrow> (server_db, unit) op" where
  "addTorrentToClient ci t =
     andThen lock (\<lambda>_. andThen (gets clients) (\<lambda>cs.
       (case lookupBy address (address ci) cs of
          Some c \<Rightarrow>
            (let local_copy = ClientInfo_addTorrent t c in unlock)
        | None \<Rightarrow>
            andThen (modify (\<lambda>db. db\<lparr>clients := clients db @ [ci]\<rparr>)) (\<lambda>_.
              (let local_copy = ClientInfo_addTorrent t ci in unlock)))))"

definition deleteClient :: "client_info \<Rightarrow> (server_db, unit) op" where
  "deleteClient ci =
     andThen lock (\<lambda>_.
       andThen (modify (\<lambda>db. db\<lparr>clients := filter (\<lambda>c. \<not> ClientInfo_eq ci c) (clients db)\<rparr>)) (\<lambda>_.
         unlock))"

definition getClients :: "(server_db, client_info list) op" where
  "getClients =
     andThen lock_shared (\<lambda>_. andThen (gets clients) (\<lambda>cs. andThen unlock (\<lambda>_. ret cs)))"

definition isHashUnique :: "hash_value \<Rightarrow> (server_db, bool) op" where
  "isHashUnique h =
     andThen lock_shared (\<lambda>_. andThen (gets torrents) (\<lambda>ts.
       if list_ex (\<lambda>t. hashed t = h) ts then andThen unlock (\<lambda>_. ret False)
       else andThen unlock (\<lambda>_. ret True)))"

text \<open>
  The \<open>while\<close> loop of \<open>addTorrent\<close>, with fuel for its iterations (\<open>None\<close>: still running). Each
  round appends the decimal salt to the name and hashes again.
\<close>

fun addTorrent_loop ::
  "(string \<Rightarrow> hash_value) \<Rightarrow> nat \<Rightarrow> 32 word \<Rightarrow> torrent \<Rightarrow> server_db
     \<Rightarrow> (torrent outcome \<times> server_db) option" where
  "addTorrent_loop std_hash 0 salt t db = None"
| "addTorrent_loop std_hash (Suc n) salt t db =
     (case isHashUnique (hashed t) db of
        (Inl e, db') \<Rightarrow> Some (Inl e, db')
      | (Inr True, db') \<Rightarrow> Some (Inr t, db')
      | (Inr False, db') \<Rightarrow>
          addTorrent_loop std_hash n (salt + 1) (genSaltedHash std_hash salt t) db')"

definition Database_addTorrent ::
  "(string \<Rightarrow> hash_value) \<Rightarrow> nat \<Rightarrow> torrent \<Rightarrow> server_db
     \<Rightarrow> (hash_value outcome \<times> server_db) option" where
  "Database_addTorrent std_hash fuel t db =
     (case lock db of
        (Inl e, db') \<Rightarrow> Some (Inl e, db')
      | (Inr _, db') \<Rightarrow>
          (case addTorrent_loop std_hash fuel 1 (genDefaultHash std_hash t) db' of
             None \<Rightarrow> None
           | Some (Inl e, db'') \<Rightarrow> Some (Inl e, db'')
           | Some (Inr t', db'') \<Rightarrow>
               Some (andThen (modify (\<lambda>d. d\<lparr>torrents := torrents d @ [t']\<rparr>)) (\<lambda>_.
                       andThen unlock (\<lambda>_. ret (hashed t'))) db'')))"

definition getClientsWith :: "torrent \<Rightarrow> (server_db, client_info list) op" where
  "getClientsWith t =
     andThen lock_shared (\<lambda>_. andThen (gets clients) (\<lambda>cs. andThen unlock (\<lambda>_.
       ret (filter (ClientInfo_hasTorrent t) cs))))"

definition getClientsWithHash :: "hash_value \<Rightarrow> (server_db, client_info list) op" where
  "getClientsWithHash h =
     andThen lock_shared (\<lambda>_. andThen (gets clients) (\<lambda>cs. andThen unlock (\<lambda>_.
       ret (filter (ClientInfo_hasHash h) cs))))"

definition Database_hasTorrent :: "torrent \<Rightarrow> (server_db, bool) op" where
  "Database_hasTorrent t =
     andThen lock_shared (\<lambda>_. andThen (gets torrents) (\<lambda>ts. andThen unlock (\<lambda>_.
       ret (list_ex (\<lambda>x. Torrent_eq x t) ts))))"

text \<open>\<open>torrentVector\<close> hands out the vector itself, without the mutex.\<close>

definition torrentVector :: "server_db \<Rightarrow> torrent list" where
  "torrentVector db = torrents db"

section \<open>What the operations do when the mutex is free\<close>

lemma unlocked_update [simp]: "mutex db = Unlocked \<Longrightarrow> db\<lparr>mutex := Unlocked\<rparr> = db"
  by (cases db) simp

lemmas lock_simps = lock_def lock_shared_def unlock_def andThen_def

lemma addOrUpdateClient_run [op_simps]:
  "mutex db = Unlocked \<Longrightarrow>
     addOrUpdateClient ci db = (Inr (), db\<lparr>clients := putClient ci (clients db)\<rparr>)"
  by (cases db) (simp add: addOrUpdateClient_def lock_simps)

lemma addTorrentToClient_run [op_simps]:
  "mutex db = Unlocked \<Longrightarrow>
     addTorrentToClient ci t db =
       (Inr (), if address ci \<in> address ` set (clients db) then db
                else db\<lparr>clients := clients db @ [ci]\<rparr>)"
  by (cases db) (auto simp: addTorrentToClient_def lock_simps lookupBy_None_iff
      split: option.splits dest: lookupBy_Some_key)

lemma deleteClient_run [op_simps]:
  "mutex db = Unlocked \<Longrightarrow>
     deleteClient ci db =
       (Inr (), db\<lparr>clients := filter (\<lambda>c. \<not> ClientInfo_eq ci c) (clients db)\<rparr>)"
  by (cases db) (simp add: deleteClient_def lock_simps)

lemma getClients_run [op_simps]:
  "mutex db = Unlocked \<Longrightarrow> getClients db = (Inr (clients db), db)"
  by (cases db) (simp add: getClients_def lock_simps)

lemma isHashUnique_run [op_simps]:
  "mutex db = Unlocked \<Longrightarrow> isHashUnique h db = (Inr (h \<notin> hashed ` set (torrents db)), db)"
  by (cases db) (auto simp: isHashUnique_def lock_simps list_ex_iff)

lemma getClientsWithHash_run [op_simps]:
  "mutex db = Unlocked \<Longrightarrow>
     getClientsWithHash h db = (Inr (filter (ClientInfo_hasHash h) (clients db)), db)"
  by (cases db) (simp add: getClientsWithHash_def lock_simps)

lemma getClientsWith_run [op_simps]:
  "mutex db = Unlocked \<Longrightarrow>
     getClientsWith t db = (Inr (filter (ClientInfo_hasTorrent t) (clients db)), db)"
  by (cases db) (simp add: getClientsWith_def lock_simps)

lemma Database_hasTorrent_run [op_simps]:
  "mutex db = Unlocked \<Longrightarrow>
     Database_hasTorrent t db = (Inr (\<exists>x \<in> set (torrents db). Torrent_eq x t), db)"
  by (cases db) (simp add: Database_hasTorrent_def lock_simps list_ex_iff)

lemma isHashUnique_locked:
  "mutex db \<noteq> Unlocked \<Longrightarrow> isHashUnique h db = (Inl (Undefined SelfLock), db)"
  by (simp add: isHashUnique_def lock_simps)

lemma mutators_locked:
  assumes "mutex db \<noteq> Unlocked"
  shows "addOrUpdateClient ci db = (Inl (Undefined SelfLock), db)"
    and "addTorrentToClient ci t db = (Inl (Undefined SelfLock), db)"
    and "deleteClient ci db = (Inl (Undefined SelfLock), db)"
    and "getClientsWithHash h db = (Inl (Undefined SelfLock), db)"
  using assms
  by (simp_all add: addOrUpdateClient_def addTorrentToClient_def deleteClient_def
      getClientsWithHash_def lock_simps)

section \<open>The client table\<close>

definition client_table :: "server_db \<Rightarrow> ip_address \<Rightarrow> torrent list option" where
  "client_table db = (\<lambda>a. map_option ci_torrents (lookupBy address a (clients db)))"

lemma updateClient_None: "updateClient ci cs = None \<longleftrightarrow> address ci \<notin> address ` set cs"
  by (induction cs) auto

lemma updateClient_keys: "updateClient ci cs = Some cs' \<Longrightarrow> map address cs' = map address cs"
  by (induction cs arbitrary: cs') (auto split: if_splits)

lemma updateClient_lookup: "updateClient ci cs = Some cs' \<Longrightarrow>
    map_option ci_torrents (lookupBy address a cs') =
      (if a = address ci then Some (ci_torrents ci)
       else map_option ci_torrents (lookupBy address a cs))"
  by (induction cs arbitrary: cs') (auto split: if_splits)

interpretation client_rows: keyed_upsert address putClient ci_torrents
proof unfold_locales
  fix ci :: client_info and cs k
  show "map address (putClient ci cs) =
      (if address ci \<in> address ` set cs then map address cs else map address cs @ [address ci])"
    using updateClient_None[of ci cs] updateClient_keys[of ci cs]
    by (auto simp: putClient_def split: option.splits)
  show "map_option ci_torrents (lookupBy address k (putClient ci cs)) =
      (if k = address ci then Some (ci_torrents ci)
       else map_option ci_torrents (lookupBy address k cs))"
    using updateClient_None[of ci cs] updateClient_lookup[of ci cs _ k]
    by (auto simp: putClient_def lookupBy_append dest: lookupBy_Some_key split: option.splits)
qed

text \<open>
  C10. \<open>addOrUpdateClient\<close> implements a map from addresses to torrent lists: the address of the
  given client is mapped to its torrents, every other address keeps its entry, and the mutex is
  free again.
\<close>

theorem addOrUpdateClient_refines_map:
  assumes "mutex db = Unlocked"
  shows "\<exists>db'. addOrUpdateClient ci db = (Inr (), db') \<and> mutex db' = Unlocked \<and>
           torrents db' = torrents db \<and>
           client_table db' = (client_table db)(address ci \<mapsto> ci_torrents ci)"
  using assms client_rows.table_put[of ci "clients db"]
  by (simp add: addOrUpdateClient_run client_table_def client_rows.table_def)

theorem addOrUpdateClient_refines_map_witness:
  "\<exists>db'. addOrUpdateClient (ClientInfo True \<lparr>ip = ''10.0.0.1'', port = 7\<rparr>) Server_empty
           = (Inr (), db') \<and> mutex db' = Unlocked \<and> torrents db' = torrents Server_empty \<and>
         client_table db' = (client_table Server_empty)
           (address (ClientInfo True \<lparr>ip = ''10.0.0.1'', port = 7\<rparr>) \<mapsto>
            ci_torrents (ClientInfo True \<lparr>ip = ''10.0.0.1'', port = 7\<rparr>))"
  by (rule addOrUpdateClient_refines_map) (simp add: Server_empty_def)

text \<open>
  \<open>addTorrentToClient\<close> never records the torrent it is given: a known address leaves the
  database as it was, an unknown one appends the client with the torrents it already had, and
  either way the result is the same for every torrent.
\<close>

theorem addTorrentToClient_ignores_torrent:
  assumes "mutex db = Unlocked"
  shows "addTorrentToClient ci t db =
           (Inr (), if client_table db (address ci) \<noteq> None then db
                    else db\<lparr>clients := clients db @ [ci]\<rparr>) \<and>
         addTorrentToClient ci t db = addTorrentToClient ci t' db"
  using assms by (simp add: addTorrentToClient_run client_table_def lookupBy_None_iff)

theorem addTorrentToClient_ignores_torrent_witness:
  "addTorrentToClient (ClientInfo True \<lparr>ip = ''10.0.0.1'', port = 7\<rparr>) (Torrent_sized 5 ''f'')
     Server_empty =
   (Inr (), if client_table Server_empty
                 (address (ClientInfo True \<lparr>ip = ''10.0.0.1'', port = 7\<rparr>)) \<noteq> None
            then Server_empty
            else Server_empty\<lparr>clients := clients Server_empty @
                   [ClientInfo True \<lparr>ip = ''10.0.0.1'', port = 7\<rparr>]\<rparr>) \<and>
   addTorrentToClient (ClientInfo True \<lparr>ip = ''10.0.0.1'', port = 7\<rparr>) (Torrent_sized 5 ''f'')
     Server_empty =
   addTorrentToClient (ClientInfo True \<lparr>ip = ''10.0.0.1'', port = 7\<rparr>) Torrent_default Server_empty"
  by (rule addTorrentToClient_ignores_torrent) (simp add: Server_empty_def)

text \<open>
  \<open>deleteClient\<close> removes every client with the given address and protocol version and no
  other, keeps the order of the rest, and frees the mutex; when the addresses in the table are
  distinct and the version matches, its effect on the client table is to unmap that address.
\<close>

theorem deleteClient_unmaps:
  assumes "mutex db = Unlocked"
  shows "\<exists>db'. deleteClient ci db = (Inr (), db') \<and> mutex db' = Unlocked \<and>
           clients db' = filter (\<lambda>c. \<not> (address c = address ci \<and> isIpV4 c = isIpV4 ci)) (clients db) \<and>
           (distinct (map address (clients db)) \<and>
              (\<forall>c \<in> set (clients db). address c = address ci \<longrightarrow> isIpV4 c = isIpV4 ci) \<longrightarrow>
            client_table db' = (client_table db)(address ci := None))"
proof -
  let ?keep = "\<lambda>c. \<not> (address c = address ci \<and> isIpV4 c = isIpV4 ci)"
  let ?db' = "db\<lparr>clients := filter ?keep (clients db)\<rparr>"
  have run: "deleteClient ci db = (Inr (), ?db')"
    using assms by (auto simp: deleteClient_run ClientInfo_eq_def intro!: arg_cong2[where f = filter]
        arg_cong[where f = "\<lambda>x. db\<lparr>clients := x\<rparr>"])
  have table: "map_option ci_torrents (lookupBy address a (filter ?keep cs)) =
      (if a = address ci then None else map_option ci_torrents (lookupBy address a cs))"
    if "\<forall>c \<in> set cs. address c = address ci \<longrightarrow> isIpV4 c = isIpV4 ci" for a cs
    using that by (induction cs) auto
  show ?thesis
    using run assms table[of "clients db"]
    by (auto simp: client_table_def fun_eq_iff)
qed

theorem deleteClient_unmaps_witness:
  "\<exists>db'. deleteClient (ClientInfo True \<lparr>ip = ''10.0.0.1'', port = 7\<rparr>) Server_empty = (Inr (), db') \<and>
     mutex db' = Unlocked \<and>
     clients db' = filter (\<lambda>c. \<not> (address c = address (ClientInfo True \<lparr>ip = ''10.0.0.1'', port = 7\<rparr>) \<and>
        isIpV4 c = isIpV4 (ClientInfo True \<lparr>ip = ''10.0.0.1'', port = 7\<rparr>))) (clients Server_empty) \<and>
     (distinct (map address (clients Server_empty)) \<and>
        (\<forall>c \<in> set (clients Server_empty).
           address c = address (ClientInfo True \<lparr>ip = ''10.0.0.1'', port = 7\<rparr>) \<longrightarrow>
           isIpV4 c = isIpV4 (ClientInfo True \<lparr>ip = ''10.0.0.1'', port = 7\<rparr>)) \<longrightarrow>
      client_table db' = (client_table Server_empty)
        (address (ClientInfo True \<lparr>ip = ''10.0.0.1'', port = 7\<rparr>) := None))"
  by (rule deleteClient_unmaps) (simp add: Server_empty_def)

section \<open>Registering a torrent\<close>

text \<open>
  The salting loop of \<open>addTorrent\<close> never gets past its first test: \<open>addTorrent\<close> holds the exclusive lock when it
  calls \<open>isHashUnique\<close>, which locks the same mutex again. For every hash function, torrent and
  database the first round ends in that self-lock, the torrent is not registered and the mutex
  stays locked.
\<close>

theorem addTorrent_locks_itself:
  assumes "mutex db = Unlocked"
  shows "Database_addTorrent std_hash (Suc fuel) t db =
           Some (Inl (Undefined SelfLock), db\<lparr>mutex := LockedExclusive\<rparr>)"
  using assms by (simp add: Database_addTorrent_def lock_def isHashUnique_locked)

theorem addTorrent_locks_itself_witness:
  "Database_addTorrent (\<lambda>_. 0) (Suc 4) Torrent_default Server_empty =
     Some (Inl (Undefined SelfLock), Server_empty\<lparr>mutex := LockedExclusive\<rparr>)"
  by (rule addTorrent_locks_itself) (simp add: Server_empty_def)

lemma client_table_Some:
  assumes "distinct (map address (clients db))"
  shows "client_table db a = Some ts \<longleftrightarrow>
    (\<exists>c \<in> set (clients db). address c = a \<and> ci_torrents c = ts)"
proof
  assume "client_table db a = Some ts"
  then show "\<exists>c \<in> set (clients db). address c = a \<and> ci_torrents c = ts"
    by (auto simp: client_table_def dest: lookupBy_SomeD)
next
  assume "\<exists>c \<in> set (clients db). address c = a \<and> ci_torrents c = ts"
  then show "client_table db a = Some ts"
    using lookupBy_distinct[OF assms] by (auto simp: client_table_def)
qed

text \<open>
  \<open>getClientsWith\<close>, asked for a hash, returns the clients in table order whose torrents have
  one with that hash and changes nothing; as a set of addresses the answer is the one the client
  table gives, provided the addresses in the table are distinct. The overload on a torrent
  answers for its hash.
\<close>

theorem getClientsWith_exact:
  assumes "mutex db = Unlocked" and "distinct (map address (clients db))"
  shows "\<exists>cs. getClientsWithHash h db = (Inr cs, db) \<and>
           cs = filter (\<lambda>c. h \<in> hashed ` set (ci_torrents c)) (clients db) \<and>
           address ` set cs = {a. \<exists>ts. client_table db a = Some ts \<and> h \<in> hashed ` set ts} \<and>
           (\<forall>t. hashed t = h \<longrightarrow> getClientsWith t db = (Inr cs, db))"
proof -
  let ?cs = "filter (\<lambda>c. h \<in> hashed ` set (ci_torrents c)) (clients db)"
  have "address ` set ?cs = {a. \<exists>ts. client_table db a = Some ts \<and> h \<in> hashed ` set ts}"
    by (auto simp: client_table_Some[OF assms(2)])
  moreover have "filter (ClientInfo_hasHash h) (clients db) = ?cs"
    by (rule filter_cong) simp_all
  moreover have "filter (ClientInfo_hasTorrent t) (clients db) = ?cs" if "hashed t = h" for t
    using that by (intro filter_cong) simp_all
  ultimately show ?thesis
    using assms(1) by (simp add: getClientsWithHash_run getClientsWith_run)
qed

theorem getClientsWith_exact_witness:
  "\<exists>cs. getClientsWithHash 3 Server_empty = (Inr cs, Server_empty) \<and>
     cs = filter (\<lambda>c. 3 \<in> hashed ` set (ci_torrents c)) (clients Server_empty) \<and>
     address ` set cs =
       {a. \<exists>ts. client_table Server_empty a = Some ts \<and> 3 \<in> hashed ` set ts} \<and>
     (\<forall>t. hashed t = 3 \<longrightarrow> getClientsWith t Server_empty = (Inr cs, Server_empty))"
  by (rule getClientsWith_exact) (simp_all add: Server_empty_def)

section \<open>Every history of the database\<close>

text \<open>
  The operations, in any order and with any arguments, as the steps of a transition system. The
  mutex makes each operation one step also when several threads call them.
\<close>

inductive db_step :: "server_db \<Rightarrow> server_db \<Rightarrow> bool" where
  step_addOrUpdate: "addOrUpdateClient ci db = (r, db') \<Longrightarrow> db_step db db'"
| step_addTorrentTo: "addTorrentToClient ci t db = (r, db') \<Longrightarrow> db_step db db'"
| step_delete: "deleteClient ci db = (r, db') \<Longrightarrow> db_step db db'"
| step_addTorrent: "Database_addTorrent std_hash n t db = Some (r', db') \<Longrightarrow> db_step db db'"
| step_query: "getClientsWithHash h db = (r'', db') \<Longrightarrow> db_step db db'"

inductive_cases db_stepE: "db_step db db'"

lemma addTorrent_frame:
  assumes "Database_addTorrent std_hash n t db = Some (r, db')"
  shows "clients db' = clients db \<and> torrents db' = torrents db \<and> r = Inl (Undefined SelfLock)"
  using assms
  by (cases n) (auto simp: Database_addTorrent_def lock_def isHashUnique_locked split: if_splits)

definition distinct_addresses :: "server_db \<Rightarrow> bool" where
  "distinct_addresses db \<longleftrightarrow> distinct (map address (clients db))"

lemma distinct_map_filter: "distinct (map f xs) \<Longrightarrow> distinct (map f (filter P xs))"
  by (induction xs) auto

lemma db_step_distinct:
  assumes "distinct_addresses db" and "db_step db db'"
  shows "distinct_addresses db'"
  using assms(2,1)
proof cases
  case (step_addOrUpdate ci r)
  then show ?thesis
    using assms(1) client_rows.distinct_put[of "clients db" ci]
    by (cases "mutex db = Unlocked")
      (auto simp: distinct_addresses_def addOrUpdateClient_run mutators_locked)
next
  case (step_addTorrentTo ci t r)
  then show ?thesis
    using assms(1)
    by (cases "mutex db = Unlocked")
      (auto simp: distinct_addresses_def addTorrentToClient_run mutators_locked split: if_splits)
next
  case (step_delete ci r)
  then show ?thesis
    using assms(1)
    by (cases "mutex db = Unlocked")
      (auto simp: distinct_addresses_def deleteClient_run mutators_locked distinct_map_filter)
next
  case (step_addTorrent std_hash n t r')
  then show ?thesis using assms(1) addTorrent_frame by (simp add: distinct_addresses_def)
next
  case (step_query h r'')
  then show ?thesis
    using assms(1)
    by (cases "mutex db = Unlocked")
      (auto simp: distinct_addresses_def getClientsWithHash_run mutators_locked)
qed

definition initial_db :: "server_db \<Rightarrow> bool" where
  "initial_db db \<longleftrightarrow> db = Server_empty"

interpretation db_history: invariant_system initial_db db_step distinct_addresses
  by unfold_locales
    (auto simp: initial_db_def distinct_addresses_def Server_empty_def intro: db_step_distinct
      [unfolded distinct_addresses_def])

text \<open>
  C33. In every state the tracker's database can reach, by any interleaving of its operations,
  including those that fault, no two clients have the same address, so the client table says
  everything about the vector: each client is the entry its own address finds.
\<close>

theorem reachable_clients_distinct:
  assumes "reachable initial_db db_step db" and "c \<in> set (clients db)"
  shows "client_table db (address c) = Some (ci_torrents c) \<and>
         (\<forall>c' \<in> set (clients db). address c' = address c \<longrightarrow> c' = c)"
proof -
  have "distinct (map address (clients db))"
    using db_history.reachable_inv[OF assms(1)] by (simp add: distinct_addresses_def)
  with assms(2) show ?thesis
    by (auto simp: client_table_def lookupBy_distinct distinct_map inj_on_def)
qed

lemma one_client_reachable:
  "reachable initial_db db_step (Server_empty\<lparr>clients := [ClientInfo True \<lparr>ip = ''h'', port = 7\<rparr>]\<rparr>)"
proof (rule reachable_step)
  show "reachable initial_db db_step Server_empty"
    by (rule reachable_init) (simp add: initial_db_def)
  show "db_step Server_empty (Server_empty\<lparr>clients := [ClientInfo True \<lparr>ip = ''h'', port = 7\<rparr>]\<rparr>)"
    by (rule step_addOrUpdate [where ci = "ClientInfo True \<lparr>ip = ''h'', port = 7\<rparr>" and r = "Inr ()"])
      (simp add: addOrUpdateClient_run Server_empty_def putClient_def)
qed

lemma reachable_clients_distinct_witness:
  "client_table (Server_empty\<lparr>clients := [ClientInfo True \<lparr>ip = ''h'', port = 7\<rparr>]\<rparr>)
      (address (ClientInfo True \<lparr>ip = ''h'', port = 7\<rparr>)) =
      Some (ci_torrents (ClientInfo True \<lparr>ip = ''h'', port = 7\<rparr>))"
  using reachable_clients_distinct
    [OF one_client_reachable, of "ClientInfo True \<lparr>ip = ''h'', port = 7\<rparr>"] by simp

end
