(* ===== verification/Tracker.thy ===== *)
theory Tracker
  imports Server_Database Serving
begin

text \<open>
  \<open>server/TrackerThread.*\<close>: the tracker's answer to each message and its thread. \<open>std_hash\<close> is the
  hash function, \<open>fuel\<close> bounds the rounds of the salting loop of \<open>addTorrent\<close> (one is enough, see
  \<open>addTorrent_locks_itself\<close>); a reply is the message handed to \<open>sendTcpMsg\<close>.
\<close>

section \<open>Handlers\<close>

fun notifySeed :: "client_info \<Rightarrow> hash_value \<Rightarrow> torrent list \<Rightarrow> (server_db, unit) op" where
  "notifySeed ci h [] = ret ()"
| "notifySeed ci h (t # ts) =
     (if hashed t = h then addTorrentToClient ci t else notifySeed ci h ts)"

definition handleSeedNotification :: "ip_address \<Rightarrow> hash_value \<Rightarrow> (server_db, unit) op" where
  "handleSeedNotification addr h db = notifySeed (ClientInfo True addr) h (torrentVector db) db"

definition handleUnavailables :: "ips \<Rightarrow> (server_db, unit) op" where
  "handleUnavailables u = ret ()"

definition connected_address :: "connection \<Rightarrow> ip_address" where
  "connected_address c = \<lparr>ip = getConnectedIp c, port = getConnectedPort c\<rparr>"

text \<open>The loop over the clients found: each becomes an \<open>IpPort\<close> of the peers of its protocol version.\<close>

fun add_peers :: "client_info list \<Rightarrow> seedlist_response \<Rightarrow> seedlist_response" where
  "add_peers [] t = t"
| "add_peers (c # cs) t =
     (let ipport = \<lparr>ipp_ip = ip (getAddress c), ipp_port = port (getAddress c)\<rparr>
      in add_peers cs (if getIsIpV4 c then t\<lparr>ipV4Peers := ipV4Peers t @ [ipport]\<rparr>
                       else t\<lparr>ipV6Peers := ipV6Peers t @ [ipport]\<rparr>))"

definition respond ::
  "(string \<Rightarrow> hash_value) \<Rightarrow> nat \<Rightarrow> connection \<Rightarrow> server_db handler" where
  "respond std_hash fuel conn msg db =
     (if code msg = OK then
        Some (Inr (Some \<lparr>code = OK, contents = NoContents\<rparr>), db)
      else if code msg = CS_SEEDLIST_REQUEST then
        Some (andThen (getClientsWithHash (seedlistRequest_hashedTorrent (contents msg))) (\<lambda>res.
          ret (Some \<lparr>code = CS_SEEDLIST_RESPONSE,
                     contents = SeedlistResponse (add_peers res default_seedlist_response)\<rparr>)) db)
      else if code msg = CS_NEW_REQUEST then
        (let newTorrent = genDefaultHash std_hash
               (Torrent_of_msg (newRequest_torrentMsg (contents msg)));
             ci = ClientInfo True (connected_address conn);
             t = \<lparr>nrs_fileCode = F_FINE, nrs_newHash = hashed newTorrent\<rparr>
         in case Database_addTorrent std_hash fuel newTorrent db of
              None \<Rightarrow> None
            | Some (Inl e, db') \<Rightarrow> Some (Inl e, db')
            | Some (Inr _, db') \<Rightarrow>
                Some (andThen (addTorrentToClient ci newTorrent) (\<lambda>_.
                  ret (Some \<lparr>code = CS_NEW_RESPONSE, contents = NewResponse t\<rparr>)) db'))
      else if code msg = CS_IM_A_SEED then
        Some (andThen (handleSeedNotification (connected_address conn)
                (imASeed_hashedTorrent (contents msg))) (\<lambda>_. ret None) db)
      else if code msg = CS_CLIENT_UNAVAILABLE then
        (let u = clientUnavailable_of (contents msg)
         in Some (andThen (handleUnavailables \<lparr>ipv4s = ipV4Addresses u, ipv6s = ipV6Addresses u\<rparr>)
              (\<lambda>_. ret None) db))
      else Some (Inr None, db))"

definition TrackerThread_run ::
  "(string \<Rightarrow> hash_value) \<Rightarrow> nat \<Rightarrow> (string \<Rightarrow> int \<Rightarrow> tcp_message) \<Rightarrow> connection \<Rightarrow> int \<Rightarrow> string
     \<Rightarrow> string option list \<Rightarrow> server_db \<Rightarrow> tcp_message list \<times> loop_end \<times> server_db" where
  "TrackerThread_run std_hash fuel parse conn closed buf recvs db =
     close_after closed (recv_loop (respond std_hash fuel conn) parse buf recvs db)"

section \<open>Answers\<close>

definition ipport_of :: "client_info \<Rightarrow> ip_port" where
  "ipport_of c = \<lparr>ipp_ip = ip (address c), ipp_port = port (address c)\<rparr>"

lemma add_peers_eq:
  "add_peers cs t = t\<lparr>ipV4Peers := ipV4Peers t @ map ipport_of (filter isIpV4 cs),
     ipV6Peers := ipV6Peers t @ map ipport_of (filter (\<lambda>c. \<not> isIpV4 c) cs)\<rparr>"
  by (induction cs arbitrary: t) (simp_all add: Let_def ipport_of_def)

text \<open>
  C9. A seed-list request is answered with the address and port of every client that owns the
  torrent, in table order, IPv4 clients under the IPv4 peers and the others under the IPv6 peers;
  the seeds and the torrent hash of the answer stay at their defaults, and nothing is changed.
\<close>

theorem respond_seedlist:
  assumes "mutex db = Unlocked" and "code msg = CS_SEEDLIST_REQUEST"
  shows "\<exists>r owners. respond std_hash fuel conn msg db =
      Some (Inr (Some \<lparr>code = CS_SEEDLIST_RESPONSE, contents = SeedlistResponse r\<rparr>), db) \<and>
    owners = filter (ClientInfo_hasHash (seedlistRequest_hashedTorrent (contents msg))) (clients db) \<and>
    ipV4Peers r = map ipport_of (filter isIpV4 owners) \<and>
    ipV6Peers r = map ipport_of (filter (\<lambda>c. \<not> isIpV4 c) owners) \<and>
    ipV4Seeds r = [] \<and> ipV6Seeds r = [] \<and> sr_hashedTorrent r = 0"
  using assms
  by (simp add: respond_def op_simps add_peers_eq default_seedlist_response_def)

definition owned_db :: server_db where
  "owned_db = Server_empty\<lparr>clients :=
     [ClientInfo_with True \<lparr>ip = ''10.0.0.1'', port = 7\<rparr> [Torrent_hashed 3 0 ''f'']]\<rparr>"

theorem respond_seedlist_witness:
  "\<exists>r owners. respond (\<lambda>_. 0) 1 example_connection \<lparr>code = CS_SEEDLIST_REQUEST, contents = SeedlistRequest 3\<rparr> owned_db =
      Some (Inr (Some \<lparr>code = CS_SEEDLIST_RESPONSE, contents = SeedlistResponse r\<rparr>), owned_db) \<and>
    owners = filter (ClientInfo_hasHash (seedlistRequest_hashedTorrent
      (contents \<lparr>code = CS_SEEDLIST_REQUEST, contents = SeedlistRequest 3\<rparr>))) (clients owned_db) \<and>
    ipV4Peers r = map ipport_of (filter isIpV4 owners) \<and>
    ipV6Peers r = map ipport_of (filter (\<lambda>c. \<not> isIpV4 c) owners) \<and>
    ipV4Seeds r = [] \<and> ipV6Seeds r = [] \<and> sr_hashedTorrent r = 0"
  by (rule respond_seedlist) (simp_all add: owned_db_def Server_empty_def)

text \<open>
  The port a client announces for incoming connections has no effect: two seed
  notifications, or two new-torrent requests, that differ only in \<open>receiverPort\<close> get the same
  answer and leave the same database; what is recorded is the address and (byte-swapped) port
  of the connection itself.
\<close>

theorem receiverPort_ignored:
  "respond std_hash fuel conn \<lparr>code = CS_IM_A_SEED, contents = ImASeed (m\<lparr>ias_receiverPort := p\<rparr>)\<rparr> =
     respond std_hash fuel conn \<lparr>code = CS_IM_A_SEED, contents = ImASeed m\<rparr> \<and>
   respond std_hash fuel conn \<lparr>code = CS_NEW_REQUEST, contents = NewRequest (n\<lparr>nrq_receiverPort := p\<rparr>)\<rparr> =
     respond std_hash fuel conn \<lparr>code = CS_NEW_REQUEST, contents = NewRequest n\<rparr>"
  by (rule conjI; rule ext) (simp_all add: respond_def)

lemma notifySeed_run:
  assumes "mutex db = Unlocked"
  shows "notifySeed ci h ts db =
    (Inr (), if h \<in> hashed ` set ts \<and> address ci \<notin> address ` set (clients db)
             then db\<lparr>clients := clients db @ [ci]\<rparr> else db)"
  using assms by (induction ts) (auto simp: op_simps)

text \<open>
  A seed notification for a registered torrent, from a connection whose address the tracker
  does not know, appends one client: IPv4, with the address of the connection and no torrent.
  For an unregistered torrent or a known address nothing changes; there is never a reply.
\<close>

theorem respond_seed_notification:
  assumes "mutex db = Unlocked" and "code msg = CS_IM_A_SEED"
  shows "respond std_hash fuel conn msg db = Some (Inr None,
    if imASeed_hashedTorrent (contents msg) \<in> hashed ` set (torrents db) \<and>
       connected_address conn \<notin> address ` set (clients db)
    then db\<lparr>clients := clients db @
           [\<lparr>isIpV4 = True, address = connected_address conn, ci_torrents = []\<rparr>]\<rparr>
    else db)"
  using assms
  by (simp add: respond_def handleSeedNotification_def notifySeed_run torrentVector_def
      ClientInfo_def andThen_def)

theorem respond_seed_notification_witness:
  "respond (\<lambda>_. 0) 1 example_connection
     \<lparr>code = CS_IM_A_SEED, contents = ImASeed \<lparr>ias_hashedTorrent = 3, ias_receiverPort = 9\<rparr>\<rparr>
     (Server_empty\<lparr>torrents := [Torrent_hashed 3 0 ''f'']\<rparr>) = Some (Inr None,
    if imASeed_hashedTorrent (contents \<lparr>code = CS_IM_A_SEED,
           contents = ImASeed \<lparr>ias_hashedTorrent = 3, ias_receiverPort = 9\<rparr>\<rparr>)
         \<in> hashed ` set (torrents (Server_empty\<lparr>torrents := [Torrent_hashed 3 0 ''f'']\<rparr>)) \<and>
       connected_address example_connection
         \<notin> address ` set (clients (Server_empty\<lparr>torrents := [Torrent_hashed 3 0 ''f'']\<rparr>))
    then (Server_empty\<lparr>torrents := [Torrent_hashed 3 0 ''f'']\<rparr>)\<lparr>clients :=
           clients (Server_empty\<lparr>torrents := [Torrent_hashed 3 0 ''f'']\<rparr>) @
           [\<lparr>isIpV4 = True, address = connected_address example_connection, ci_torrents = []\<rparr>]\<rparr>
    else Server_empty\<lparr>torrents := [Torrent_hashed 3 0 ''f'']\<rparr>)"
  by (rule respond_seed_notification) (simp_all add: Server_empty_def)

text \<open>
  Registering a torrent never succeeds: on a database with a free mutex a new-torrent
  request ends in the self-lock of \<open>addTorrent\<close>, whatever torrent it carries; no reply is sent
  and the mutex stays locked, so that the next request on the database faults as well.
\<close>

theorem respond_new_request_faults:
  assumes "mutex db = Unlocked" and "code msg = CS_NEW_REQUEST"
  shows "\<exists>db'. respond std_hash (Suc fuel) conn msg db = Some (Inl (Undefined SelfLock), db') \<and>
    clients db' = clients db \<and> torrents db' = torrents db \<and>
    (\<forall>msg' conn'. code msg' = CS_SEEDLIST_REQUEST \<longrightarrow>
       respond std_hash (Suc fuel) conn' msg' db' = Some (Inl (Undefined SelfLock), db'))"
proof -
  have "Database_addTorrent std_hash (Suc fuel) t db =
      Some (Inl (Undefined SelfLock), db\<lparr>mutex := LockedExclusive\<rparr>)" for t
    using assms(1) by (simp add: Database_addTorrent_def lock_def isHashUnique_locked)
  then show ?thesis
    using assms by (simp add: respond_def mutators_locked)
qed

theorem respond_new_request_faults_witness:
  "\<exists>db'. respond (\<lambda>_. 0) (Suc 0) example_connection
       \<lparr>code = CS_NEW_REQUEST, contents = NoContents\<rparr> Server_empty =
       Some (Inl (Undefined SelfLock), db') \<and>
    clients db' = clients Server_empty \<and> torrents db' = torrents Server_empty \<and>
    (\<forall>msg' conn'. code msg' = CS_SEEDLIST_REQUEST \<longrightarrow>
       respond (\<lambda>_. 0) (Suc 0) conn' msg' db' = Some (Inl (Undefined SelfLock), db'))"
  by (rule respond_new_request_faults) (simp_all add: Server_empty_def)

section \<open>What the tracker can ever announce\<close>

definition nobody_owns :: "server_db \<Rightarrow> bool" where
  "nobody_owns db \<longleftrightarrow> (\<forall>c \<in> set (clients db). ci_torrents c = [])"

definition announces_nobody :: "tcp_message \<Rightarrow> bool" where
  "announces_nobody m \<longleftrightarrow>
     (case contents m of SeedlistResponse r \<Rightarrow>
        ipV4Peers r = [] \<and> ipV6Peers r = [] \<and> ipV4Seeds r = [] \<and> ipV6Seeds r = []
      | _ \<Rightarrow> True)"

lemma nobody_owns_addTorrentToClient:
  assumes "nobody_owns db" and "ci_torrents ci = []"
    and "addTorrentToClient ci t db = (r, db')"
  shows "nobody_owns db'"
  using assms
  by (cases "mutex db = Unlocked")
    (auto simp: op_simps mutators_locked nobody_owns_def split: if_splits)

lemma nobody_owns_notifySeed:
  "nobody_owns db \<Longrightarrow> ci_torrents ci = [] \<Longrightarrow> notifySeed ci h ts db = (r, db') \<Longrightarrow> nobody_owns db'"
  by (induction ts) (auto simp: nobody_owns_addTorrentToClient split: if_splits)

lemma nobody_owns_getClients:
  assumes "nobody_owns db" and "getClientsWithHash h db = (r, db')"
  shows "db' = db \<and> (\<forall>cs. r = Inr cs \<longrightarrow> cs = [])"
  using assms
  by (cases "mutex db = Unlocked")
    (auto simp: op_simps mutators_locked nobody_owns_def filter_empty_conv)

lemma respond_new_request:
  assumes "code m = CS_NEW_REQUEST" and "respond std_hash fuel conn m db = Some (r, db')"
  shows "r = Inl (Undefined SelfLock) \<and> clients db' = clients db \<and> torrents db' = torrents db"
  using assms
  by (auto simp: respond_def Let_def dest: addTorrent_frame split: option.splits sum.splits)

lemma respond_nobody_owns:
  assumes owns: "nobody_owns db" and resp: "respond std_hash fuel conn m db = Some (r, db')"
  shows "nobody_owns db' \<and> (\<forall>reply. r = Inr (Some reply) \<longrightarrow> announces_nobody reply)"
proof (cases "code m = CS_NEW_REQUEST")
  case True
  with owns respond_new_request[OF True resp] show ?thesis by (simp add: nobody_owns_def)
next
  case False
  show ?thesis
  proof (cases "code m = CS_SEEDLIST_REQUEST")
    case True
    obtain q db1 where get: "getClientsWithHash (seedlistRequest_hashedTorrent (contents m)) db = (q, db1)"
      by fastforce
    from nobody_owns_getClients[OF owns get] have "db1 = db" and "\<forall>cs. q = Inr cs \<longrightarrow> cs = []"
      by auto
    with True get owns resp show ?thesis
      by (cases q) (auto simp: respond_def andThen_def announces_nobody_def
          default_seedlist_response_def)
  next
    case other: False
    obtain q db1 where notify: "handleSeedNotification (connected_address conn)
        (imASeed_hashedTorrent (contents m)) db = (q, db1)" by fastforce
    have "nobody_owns db1"
      by (rule nobody_owns_notifySeed[OF owns _ notify[unfolded handleSeedNotification_def]])
        (simp add: ClientInfo_def)
    with other False notify owns resp show ?thesis
      by (cases q) (auto simp: respond_def andThen_def announces_nobody_def Let_def
          handleUnavailables_def split: if_splits)
  qed
qed

interpretation tracker: message_handler "respond std_hash fuel conn" nobody_owns announces_nobody
  for std_hash fuel conn
  by unfold_locales (auto dest: respond_nobody_owns)

inductive tracker_step :: "server_db \<Rightarrow> server_db \<Rightarrow> bool" where
  handled: "respond std_hash fuel conn m db = Some (r, db') \<Longrightarrow> tracker_step db db'"

inductive_simps tracker_step_iff: "tracker_step db db'"

interpretation tracker_history: invariant_system initial_db tracker_step nobody_owns
  by unfold_locales
    (auto simp: initial_db_def nobody_owns_def Server_empty_def tracker_step_iff
      dest: respond_nobody_owns [unfolded nobody_owns_def])

text \<open>
  The tracker never tells anybody about a peer: in every state of the database that any
  messages of any connections, interleaved in any order, can produce, a connection that sends
  any sequence of bytes gets back only seed lists that are empty.
\<close>

theorem tracker_announces_nobody:
  assumes "reachable initial_db tracker_step db"
    and "TrackerThread_run std_hash fuel parse conn closed buf recvs db = (out, e, db')"
    and "m \<in> set out" and "contents m = SeedlistResponse r"
  shows "ipV4Peers r = [] \<and> ipV6Peers r = [] \<and> ipV4Seeds r = [] \<and> ipV6Seeds r = []"
proof -
  have "nobody_owns db" using assms(1) by (rule tracker_history.reachable_inv)
  moreover obtain e1 where
    "recv_loop (respond std_hash fuel conn) parse buf recvs db = (out, e1, db')"
    using assms(2) unfolding TrackerThread_run_def
    by (metis close_after_simps fst_conv prod.collapse snd_conv)
  ultimately have "announces_nobody m"
    using tracker.recv_loop_inv assms(3) by blast
  with assms(4) show ?thesis by (simp add: announces_nobody_def)
qed

theorem tracker_announces_nobody_witness:
  "ipV4Peers default_seedlist_response = [] \<and> ipV6Peers default_seedlist_response = [] \<and>
   ipV4Seeds default_seedlist_response = [] \<and> ipV6Seeds default_seedlist_response = []"
proof -
  let ?parse = "\<lambda>_ _. \<lparr>code = CS_SEEDLIST_REQUEST, contents = SeedlistRequest 3\<rparr>"
  let ?reply = "\<lparr>code = CS_SEEDLIST_RESPONSE, contents = SeedlistResponse default_seedlist_response\<rparr>"
  have start: "reachable initial_db tracker_step Server_empty"
    by (rule reachable_init) (simp add: initial_db_def)
  have run: "TrackerThread_run (\<lambda>_. 0) 1 ?parse example_connection 0
      [NUL, NUL] [Some ''q'', None] Server_empty =
      ([?reply], Disconnected, Server_empty)"
    by (simp add: TrackerThread_run_def overlay_def close_after_def respond_def guard_def
        op_simps Server_empty_def)
  show ?thesis
    by (rule tracker_announces_nobody [OF start run, of ?reply]) simp_all
qed

section \<open>What the tracker can ever know\<close>

definition knows_nothing :: "server_db \<Rightarrow> bool" where
  "knows_nothing db \<longleftrightarrow> clients db = [] \<and> torrents db = []"

definition ok_message :: tcp_message where
  "ok_message = \<lparr>code = OK, contents = NoContents\<rparr>"

definition empty_list_message :: tcp_message where
  "empty_list_message = \<lparr>code = CS_SEEDLIST_RESPONSE, contents = SeedlistResponse default_seedlist_response\<rparr>"

lemma respond_knows_nothing:
  assumes "knows_nothing db" and "respond std_hash fuel conn m db = Some (r, db')"
  shows "knows_nothing db' \<and> (\<forall>reply. r = Inr (Some reply) \<longrightarrow> reply \<in> {ok_message, empty_list_message})"
proof (cases "code m = CS_NEW_REQUEST")
  case True
  with assms(1) respond_new_request[OF True assms(2)] show ?thesis by (simp add: knows_nothing_def)
next
  case False
  with assms show ?thesis
    by (cases "mutex db = Unlocked")
      (auto simp: respond_def op_simps mutators_locked knows_nothing_def andThen_def ok_message_def
        empty_list_message_def handleSeedNotification_def torrentVector_def handleUnavailables_def Let_def
        split: if_splits)
qed

interpretation ignorant_tracker: message_handler "respond std_hash fuel conn" knows_nothing
  "\<lambda>reply. reply \<in> {ok_message, empty_list_message}" for std_hash fuel conn
  by unfold_locales (auto dest: respond_knows_nothing)

interpretation tracker_tables: invariant_system initial_db tracker_step knows_nothing
proof
  show "initial_db db \<Longrightarrow> knows_nothing db" for db
    by (simp add: initial_db_def knows_nothing_def Server_empty_def)
  show "knows_nothing db \<Longrightarrow> tracker_step db db' \<Longrightarrow> knows_nothing db'" for db db'
    by (auto simp: tracker_step_iff dest: respond_knows_nothing)
qed

text \<open>
  C18. The tracker never learns anything: whatever messages have come over whatever connections, in any
  order, and whatever a further connection sends, its tables stay empty, and its answers are \<open>OK\<close> and
  the empty seed list.
\<close>

theorem tracker_learns_nothing:
  assumes "reachable initial_db tracker_step db"
    and "TrackerThread_run std_hash fuel parse conn closed buf recvs db = (out, e, db')"
  shows "clients db' = [] \<and> torrents db' = [] \<and> set out \<subseteq> {ok_message, empty_list_message}"
proof -
  have "knows_nothing db" using assms(1) by (rule tracker_tables.reachable_inv)
  moreover obtain e1 where
    "recv_loop (respond std_hash fuel conn) parse buf recvs db = (out, e1, db')"
    using assms(2) unfolding TrackerThread_run_def
    by (metis close_after_simps fst_conv prod.collapse snd_conv)
  ultimately have "knows_nothing db' \<and> (\<forall>m \<in> set out. m \<in> {ok_message, empty_list_message})"
    by (rule ignorant_tracker.recv_loop_inv)
  then show ?thesis by (auto simp: knows_nothing_def)
qed

lemma tracker_learns_nothing_witness:
  "clients Server_empty = [] \<and> torrents Server_empty = [] \<and>
    set [ok_message] \<subseteq> {ok_message, empty_list_message}"
proof -
  have start: "reachable initial_db tracker_step Server_empty"
    by (rule reachable_init) (simp add: initial_db_def)
  have run: "TrackerThread_run (\<lambda>_. 0) 1 (\<lambda>_ _. ok_message) example_connection 0
      [NUL, NUL] [Some ''q'', None] Server_empty = ([ok_message], Disconnected, Server_empty)"
    by (simp add: TrackerThread_run_def overlay_def close_after_def respond_def guard_def ok_message_def)
  show ?thesis by (rule tracker_learns_nothing [OF start run])
qed

end
