(* ===== verification/Tracker_Threads.thy ===== *)
theory Tracker_Threads
  imports Tracker
begin

text \<open>
  The tracker's database called by many threads at once. \<open>Server_Database\<close> runs each operation alone, from
  its first statement to its last. Here every thread of the tracker makes any calls it likes, an
  operation takes one step for each statement on the \<open>shared_mutex\<close> and one for each round of its
  loop, and the steps of the threads interleave in any order. Who holds the mutex is read off the
  threads that are between locking and unlocking it; the field \<open>mutex\<close> is not used.
\<close>

section \<open>Calls\<close>

datatype db_call =
    AddOrUpdateClient client_info
  | AddTorrentToClient client_info torrent
  | DeleteClient client_info
  | GetClients
  | IsHashUnique hash_value
  | AddTorrent torrent
  | GetClientsWith torrent
  | GetClientsWithHash hash_value
  | HasTorrent torrent

datatype db_result = Returned | ReturnedClients "client_info list" | ReturnedBool bool | ReturnedHash hash_value

text \<open>\<open>mutex.lock()\<close> or \<open>mutex.lock_shared()\<close>.\<close>

fun exclusive :: "db_call \<Rightarrow> bool" where
  "exclusive (AddOrUpdateClient ci) = True"
| "exclusive (AddTorrentToClient ci t) = True"
| "exclusive (DeleteClient ci) = True"
| "exclusive (AddTorrent t) = True"
| "exclusive _ = False"

text \<open>The operations run alone, as \<open>Server_Database\<close> has them.\<close>

definition returning :: "('a \<Rightarrow> db_result) \<Rightarrow> 'a outcome \<times> server_db \<Rightarrow> db_result outcome \<times> server_db" where
  "returning f r = (map_sum id f (fst r), snd r)"

fun atomic_call :: "(string \<Rightarrow> hash_value) \<Rightarrow> db_call \<Rightarrow> server_db \<Rightarrow> (db_result outcome \<times> server_db) option" where
  "atomic_call std_hash (AddOrUpdateClient ci) db = Some (returning (\<lambda>_. Returned) (addOrUpdateClient ci db))"
| "atomic_call std_hash (AddTorrentToClient ci t) db = Some (returning (\<lambda>_. Returned) (addTorrentToClient ci t db))"
| "atomic_call std_hash (DeleteClient ci) db = Some (returning (\<lambda>_. Returned) (deleteClient ci db))"
| "atomic_call std_hash GetClients db = Some (returning ReturnedClients (getClients db))"
| "atomic_call std_hash (IsHashUnique h) db = Some (returning ReturnedBool (isHashUnique h db))"
| "atomic_call std_hash (AddTorrent t) db = map_option (returning ReturnedHash) (Database_addTorrent std_hash 1 t db)"
| "atomic_call std_hash (GetClientsWith t) db = Some (returning ReturnedClients (getClientsWith t db))"
| "atomic_call std_hash (GetClientsWithHash h) db = Some (returning ReturnedClients (getClientsWithHash h db))"
| "atomic_call std_hash (HasTorrent t) db = Some (returning ReturnedBool (Database_hasTorrent t db))"

text \<open>A sequence of calls, one after the other, all of which return.\<close>

fun replay :: "(string \<Rightarrow> hash_value) \<Rightarrow> db_call list \<Rightarrow> server_db \<Rightarrow> (db_result list \<times> server_db) option" where
  "replay std_hash [] db = Some ([], db)"
| "replay std_hash (c # cs) db =
     (case atomic_call std_hash c db of
        Some (Inr r, db') \<Rightarrow> map_option (\<lambda>(rs, db''). (r # rs, db'')) (replay std_hash cs db')
      | _ \<Rightarrow> None)"

lemma replay_snoc:
  assumes "replay std_hash cs db = Some (rs, db1)" and "atomic_call std_hash c db1 = Some (Inr r, db2)"
  shows "replay std_hash (cs @ [c]) db = Some (rs @ [r], db2)"
  using assms by (induction cs arbitrary: db rs) (auto split: option.splits prod.splits sum.splits)

section \<open>The rounds of the loops\<close>

text \<open>
  What one round of an operation's loop comes to: go on with the next element and the local
  vector, be done with a result, or lock the mutex a second time.
\<close>

datatype db_round = Next "client_info list" | Finish db_result | LocksAgain

text \<open>
  Round \<open>i\<close>, with the local vector \<open>acc\<close>. \<open>std::remove_if\<close> with \<open>erase\<close> is one round; \<open>addTorrent\<close>'s
  first step is the call of \<open>isHashUnique\<close>.
\<close>

fun db_iterate :: "db_call \<Rightarrow> nat \<Rightarrow> client_info list \<Rightarrow> server_db \<Rightarrow> db_round \<times> server_db" where
  "db_iterate (AddOrUpdateClient ci) i acc db =
     (if i < length (clients db) then
        (if IpAddress_eq (getAddress ci) (getAddress (clients db ! i)) then
           (Finish Returned, db\<lparr>clients := (clients db)
              [i := setTorrents (getTorrents ci) (clients db ! i)]\<rparr>)
         else (Next acc, db))
      else (Finish Returned, db\<lparr>clients := clients db @ [ci]\<rparr>))"
| "db_iterate (AddTorrentToClient ci t) i acc db =
     (if i < length (clients db) then
        (let c = clients db ! i
         in if IpAddress_eq (getAddress c) (getAddress ci) then
              (let local_copy = ClientInfo_addTorrent t c in (Finish Returned, db))
            else (Next acc, db))
      else (let local_copy = ClientInfo_addTorrent t ci
            in (Finish Returned, db\<lparr>clients := clients db @ [ci]\<rparr>)))"
| "db_iterate (DeleteClient ci) i acc db =
     (Finish Returned, db\<lparr>clients := filter (\<lambda>c. \<not> ClientInfo_eq ci c) (clients db)\<rparr>)"
| "db_iterate GetClients i acc db =
     (if i < length (clients db) then (Next (acc @ [clients db ! i]), db)
      else (Finish (ReturnedClients acc), db))"
| "db_iterate (IsHashUnique h) i acc db =
     (if i < length (torrents db) then
        (if hashed (torrents db ! i) = h then (Finish (ReturnedBool False), db) else (Next acc, db))
      else (Finish (ReturnedBool True), db))"
| "db_iterate (AddTorrent t) i acc db = (LocksAgain, db)"
| "db_iterate (GetClientsWith t) i acc db =
     (if i < length (clients db) then
        (Next (if ClientInfo_hasTorrent t (clients db ! i) then acc @ [clients db ! i] else acc), db)
      else (Finish (ReturnedClients acc), db))"
| "db_iterate (GetClientsWithHash h) i acc db =
     (if i < length (clients db) then
        (Next (if ClientInfo_hasHash h (clients db ! i) then acc @ [clients db ! i] else acc), db)
      else (Finish (ReturnedClients acc), db))"
| "db_iterate (HasTorrent t) i acc db =
     (if i < length (torrents db) then
        (if Torrent_eq (torrents db ! i) t then (Finish (ReturnedBool True), db) else (Next acc, db))
      else (Finish (ReturnedBool False), db))"

section \<open>Threads\<close>

datatype db_pc =
    Outside
  | Locking db_call                              \<comment> \<open>about to lock\<close>
  | Inside db_call nat "client_info list"        \<comment> \<open>in round \<open>i\<close>, with the local vector\<close>
  | Unlocking db_call db_result                  \<comment> \<open>about to unlock and return\<close>
  | SelfLocked db_call                           \<comment> \<open>locking the mutex it holds\<close>

fun db_holds :: "db_pc \<Rightarrow> db_call option" where
  "db_holds (Inside c i acc) = Some c"
| "db_holds (Unlocking c r) = Some c"
| "db_holds (SelfLocked c) = Some c"
| "db_holds _ = None"

text \<open>When \<open>lock\<close> and \<open>lock_shared\<close> go through.\<close>

definition lockable :: "db_call \<Rightarrow> db_pc list \<Rightarrow> bool" where
  "lockable c ps \<longleftrightarrow> list_all (\<lambda>p. case db_holds p of None \<Rightarrow> True
     | Some d \<Rightarrow> \<not> exclusive c \<and> \<not> exclusive d) ps"

type_synonym db_threads = "db_pc list \<times> server_db \<times> (db_call \<times> db_result) list"

inductive db_thread_step :: "db_threads \<Rightarrow> db_threads \<Rightarrow> bool" where
  calls: "w < length ps \<Longrightarrow> ps ! w = Outside \<Longrightarrow>
    db_thread_step (ps, db, hist) (ps[w := Locking c], db, hist)"
| locks: "w < length ps \<Longrightarrow> ps ! w = Locking c \<Longrightarrow> lockable c ps \<Longrightarrow>
    db_thread_step (ps, db, hist) (ps[w := Inside c 0 []], db, hist)"
| goes_on: "w < length ps \<Longrightarrow> ps ! w = Inside c i acc \<Longrightarrow> db_iterate c i acc db = (Next acc', db') \<Longrightarrow>
    db_thread_step (ps, db, hist) (ps[w := Inside c (Suc i) acc'], db', hist)"
| finishes: "w < length ps \<Longrightarrow> ps ! w = Inside c i acc \<Longrightarrow> db_iterate c i acc db = (Finish r, db') \<Longrightarrow>
    db_thread_step (ps, db, hist) (ps[w := Unlocking c r], db', hist)"
| locks_again: "w < length ps \<Longrightarrow> ps ! w = Inside c i acc \<Longrightarrow> db_iterate c i acc db = (LocksAgain, db') \<Longrightarrow>
    db_thread_step (ps, db, hist) (ps[w := SelfLocked c], db', hist)"
| unlocks: "w < length ps \<Longrightarrow> ps ! w = Unlocking c r \<Longrightarrow>
    db_thread_step (ps, db, hist) (ps[w := Outside], db, hist @ [(c, r)])"

definition db_threads_start :: "server_db \<Rightarrow> db_threads \<Rightarrow> bool" where
  "db_threads_start db0 s \<longleftrightarrow> mutex db0 = Unlocked \<and> (\<exists>n. s = (replicate n Outside, db0, []))"

section \<open>A round and the whole operation\<close>

text \<open>What the first \<open>i\<close> rounds have established.\<close>

fun scanned :: "db_call \<Rightarrow> nat \<Rightarrow> client_info list \<Rightarrow> server_db \<Rightarrow> bool" where
  "scanned (AddOrUpdateClient ci) i acc db \<longleftrightarrow>
     i \<le> length (clients db) \<and> address ci \<notin> address ` set (take i (clients db))"
| "scanned (AddTorrentToClient ci t) i acc db \<longleftrightarrow>
     i \<le> length (clients db) \<and> address ci \<notin> address ` set (take i (clients db))"
| "scanned GetClients i acc db \<longleftrightarrow> i \<le> length (clients db) \<and> acc = take i (clients db)"
| "scanned (IsHashUnique h) i acc db \<longleftrightarrow>
     i \<le> length (torrents db) \<and> h \<notin> hashed ` set (take i (torrents db))"
| "scanned (GetClientsWith t) i acc db \<longleftrightarrow>
     i \<le> length (clients db) \<and> acc = filter (ClientInfo_hasTorrent t) (take i (clients db))"
| "scanned (GetClientsWithHash h) i acc db \<longleftrightarrow>
     i \<le> length (clients db) \<and> acc = filter (ClientInfo_hasHash h) (take i (clients db))"
| "scanned (HasTorrent t) i acc db \<longleftrightarrow>
     i \<le> length (torrents db) \<and> (\<forall>x \<in> set (take i (torrents db)). \<not> Torrent_eq x t)"
| "scanned _ i acc db \<longleftrightarrow> True"

lemma scanned_0: "scanned c 0 [] db"
  by (cases c) simp_all

lemma db_iterate_Next:
  assumes "scanned c i acc db" and "db_iterate c i acc db = (Next acc', db')"
  shows "scanned c (Suc i) acc' db \<and> db' = db"
  using assms by (cases c) (auto simp: take_Suc_conv_app_nth Let_def split: if_splits)

lemma updateClient_split:
  "address ci \<notin> address ` set xs \<Longrightarrow>
   updateClient ci (xs @ ys) = map_option (\<lambda>zs. xs @ zs) (updateClient ci ys)"
  by (induction xs) (auto simp: option.map_comp o_def option.map_ident cong: option.map_cong)

text \<open>The element the scan stopped at is the first with the address.\<close>

lemma putClient_at:
  assumes "i < length cs" and "address ci \<notin> address ` set (take i cs)" and "address ci = address (cs ! i)"
  shows "putClient ci cs = cs[i := setTorrents (ci_torrents ci) (cs ! i)]"
proof -
  have "cs = take i cs @ cs ! i # drop (Suc i) cs" using assms(1) by (rule id_take_nth_drop)
  then have "updateClient ci cs = updateClient ci (take i cs @ cs ! i # drop (Suc i) cs)" by simp
  also have "\<dots> = Some (take i cs @ setTorrents (ci_torrents ci) (cs ! i) # drop (Suc i) cs)"
    using assms by (simp add: updateClient_split[OF assms(2)])
  finally show ?thesis using assms(1) by (simp add: putClient_def upd_conv_take_nth_drop)
qed

lemma putClient_new: "address ci \<notin> address ` set cs \<Longrightarrow> putClient ci cs = cs @ [ci]"
  using updateClient_None[of ci cs] by (simp add: putClient_def)

lemma found_key: "key (xs ! i) = k \<Longrightarrow> i < length xs \<Longrightarrow> k \<in> key ` set xs"
  by auto

lemma db_iterate_Finish:
  assumes "scanned c i acc db" and "mutex db = Unlocked" and "db_iterate c i acc db = (Finish r, db')"
  shows "atomic_call std_hash c db = Some (Inr r, db')"
  using assms
  by (cases c)
    (auto simp: op_simps returning_def putClient_at putClient_new Let_def
      split: if_splits dest: found_key)

lemma db_iterate_mutex: "db_iterate c i acc db = (q, db') \<Longrightarrow> mutex db' = mutex db"
  by (cases c) (auto simp: Let_def split: if_splits)

lemma db_iterate_LocksAgain:
  "db_iterate c i acc db = (LocksAgain, db') \<Longrightarrow> exclusive c \<and> db' = db"
  by (cases c) (auto simp: Let_def split: if_splits)

lemma db_iterate_shared:
  "\<not> exclusive c \<Longrightarrow> db_iterate c i acc db = (q, db') \<Longrightarrow> db' = db"
  by (cases c) (auto simp: Let_def split: if_splits)

section \<open>What every interleaving keeps\<close>

text \<open>A thread that holds the mutex for itself is the only one that holds it.\<close>

definition db_exclusion :: "db_pc list \<Rightarrow> bool" where
  "db_exclusion ps \<longleftrightarrow> (\<forall>v w c d. v < length ps \<longrightarrow> w < length ps \<longrightarrow> v \<noteq> w \<longrightarrow>
     db_holds (ps ! v) = Some c \<longrightarrow> db_holds (ps ! w) = Some d \<longrightarrow> \<not> exclusive c)"

definition nobody_exclusive :: "db_pc list \<Rightarrow> bool" where
  "nobody_exclusive ps \<longleftrightarrow> (\<forall>w c. w < length ps \<longrightarrow> db_holds (ps ! w) = Some c \<longrightarrow> \<not> exclusive c)"

lemma db_exclusion_same:
  assumes "db_exclusion ps" and "w < length ps" and "db_holds p = db_holds (ps ! w)"
  shows "db_exclusion (ps[w := p])" and "nobody_exclusive (ps[w := p]) = nobody_exclusive ps"
  using assms by (auto simp: db_exclusion_def nobody_exclusive_def nth_list_update)

lemma db_exclusion_leave:
  "db_exclusion ps \<Longrightarrow> w < length ps \<Longrightarrow> db_holds p = None \<Longrightarrow> db_exclusion (ps[w := p])"
  by (auto simp: db_exclusion_def nth_list_update)

lemma lockableD:
  "lockable c ps \<Longrightarrow> v < length ps \<Longrightarrow> db_holds (ps ! v) = Some d \<Longrightarrow> \<not> exclusive c \<and> \<not> exclusive d"
  by (fastforce simp: lockable_def list_all_length)

lemma db_exclusion_enter:
  assumes "db_exclusion ps" and "w < length ps" and "lockable c ps" and "db_holds p = Some c"
  shows "db_exclusion (ps[w := p])"
  using assms lockableD[OF assms(3)]
  unfolding db_exclusion_def length_list_update nth_list_update
  by (metis option.inject nth_list_update)

text \<open>
  The database before the calls under way (\<open>db1\<close>), the database now, and how far a thread has got.
\<close>

fun keeps_pace :: "(string \<Rightarrow> hash_value) \<Rightarrow> server_db \<Rightarrow> server_db \<Rightarrow> db_pc \<Rightarrow> bool" where
  "keeps_pace std_hash db1 db (Inside c i acc) \<longleftrightarrow> db = db1 \<and> scanned c i acc db"
| "keeps_pace std_hash db1 db (Unlocking c r) \<longleftrightarrow> atomic_call std_hash c db1 = Some (Inr r, db)"
| "keeps_pace std_hash db1 db (SelfLocked c) \<longleftrightarrow> db = db1 \<and> exclusive c"
| "keeps_pace std_hash db1 db _ \<longleftrightarrow> True"

definition db_threads_inv :: "(string \<Rightarrow> hash_value) \<Rightarrow> server_db \<Rightarrow> db_threads \<Rightarrow> bool" where
  "db_threads_inv std_hash db0 s \<longleftrightarrow>
     (case s of (ps, db, hist) \<Rightarrow> mutex db = Unlocked \<and> db_exclusion ps \<and>
       (\<exists>db1. replay std_hash (map fst hist) db0 = Some (map snd hist, db1) \<and>
          (\<forall>w < length ps. keeps_pace std_hash db1 db (ps ! w)) \<and> (nobody_exclusive ps \<longrightarrow> db = db1)))"

text \<open>While one thread holds the mutex for itself, the others are outside.\<close>

lemma keeps_pace_outside: "db_holds p = None \<Longrightarrow> keeps_pace std_hash db1 db p"
  by (cases p) simp_all

lemma others_outside:
  assumes "db_exclusion ps" and "w < length ps" and "db_holds (ps ! w) = Some c" and "exclusive c"
    and "v < length ps" and "v \<noteq> w"
  shows "db_holds (ps ! v) = None"
  using assms unfolding db_exclusion_def by (metis not_Some_eq)

lemma keeps_pace_update:
  assumes "\<forall>v < length ps. keeps_pace std_hash db1 db (ps ! v)" and "keeps_pace std_hash db1 db p"
  shows "\<forall>v < length (ps[w := p]). keeps_pace std_hash db1 db (ps[w := p] ! v)"
  using assms by (metis length_list_update nth_list_update_eq nth_list_update_neq)

text \<open>A step of a thread alone in the mutex, whatever it does to the database.\<close>

lemma keeps_pace_alone:
  assumes "db_exclusion ps" and "w < length ps" and "db_holds (ps ! w) = Some c" and "exclusive c"
    and "keeps_pace std_hash db1 db p"
  shows "\<forall>v < length (ps[w := p]). keeps_pace std_hash db1 db (ps[w := p] ! v)"
  using assms(2,5) others_outside[OF assms(1-4)]
  by (simp add: nth_list_update keeps_pace_outside)

lemma db_threads_invE:
  assumes "db_threads_inv std_hash db0 (ps, db, hist)"
  obtains db1 where "mutex db = Unlocked" "db_exclusion ps"
    "replay std_hash (map fst hist) db0 = Some (map snd hist, db1)"
    "\<forall>v < length ps. keeps_pace std_hash db1 db (ps ! v)" "nobody_exclusive ps \<longrightarrow> db = db1"
  using assms by (auto simp: db_threads_inv_def)

lemma db_thread_step_inv:
  "db_thread_step s s' \<Longrightarrow> db_threads_inv std_hash db0 s \<Longrightarrow> db_threads_inv std_hash db0 s'"
proof (induction rule: db_thread_step.induct)
  case (calls w ps db hist c)
  then show ?case
    by (auto simp: db_threads_inv_def db_exclusion_same(2) nth_list_update intro!: db_exclusion_leave)
next
  case (locks w ps c db hist)
  obtain db1 where inv: "mutex db = Unlocked" "db_exclusion ps"
    "replay std_hash (map fst hist) db0 = Some (map snd hist, db1)"
    "\<forall>v < length ps. keeps_pace std_hash db1 db (ps ! v)" "nobody_exclusive ps \<longrightarrow> db = db1"
    by (rule db_threads_invE[OF locks.prems])
  have "nobody_exclusive ps" using lockableD[OF locks(3)] by (auto simp: nobody_exclusive_def)
  then have "db = db1" using inv(5) by simp
  then have "\<forall>v < length (ps[w := Inside c 0 []]). keeps_pace std_hash db1 db (ps[w := Inside c 0 []] ! v)"
    by (intro keeps_pace_update inv(4)) (simp add: scanned_0)
  moreover have "db_exclusion (ps[w := Inside c 0 []])"
    by (rule db_exclusion_enter[OF inv(2) locks(1,3)]) simp
  ultimately show ?case using inv \<open>db = db1\<close> by (auto simp: db_threads_inv_def)
next
  case (goes_on w ps c i acc db acc' db' hist)
  obtain db1 where inv: "mutex db = Unlocked" "db_exclusion ps"
    "replay std_hash (map fst hist) db0 = Some (map snd hist, db1)"
    "\<forall>v < length ps. keeps_pace std_hash db1 db (ps ! v)" "nobody_exclusive ps \<longrightarrow> db = db1"
    by (rule db_threads_invE[OF goes_on.prems])
  have "keeps_pace std_hash db1 db (Inside c i acc)" using inv(4) goes_on(1,2) by metis
  then have "db = db1" "scanned c i acc db" by auto
  with db_iterate_Next[OF this(2) goes_on(3)]
  have "db' = db" "keeps_pace std_hash db1 db (Inside c (Suc i) acc')" by simp_all
  moreover have "db_holds (Inside c (Suc i) acc') = db_holds (ps ! w)" using goes_on(2) by simp
  ultimately show ?case
    using inv db_exclusion_same[OF inv(2) goes_on(1), of "Inside c (Suc i) acc'"]
      keeps_pace_update[OF inv(4), of "Inside c (Suc i) acc'" w]
    by (auto simp: db_threads_inv_def)
next
  case (finishes w ps c i acc db r db' hist)
  obtain db1 where inv: "mutex db = Unlocked" "db_exclusion ps"
    "replay std_hash (map fst hist) db0 = Some (map snd hist, db1)"
    "\<forall>v < length ps. keeps_pace std_hash db1 db (ps ! v)" "nobody_exclusive ps \<longrightarrow> db = db1"
    by (rule db_threads_invE[OF finishes.prems])
  have "keeps_pace std_hash db1 db (Inside c i acc)" using inv(4) finishes(1,2) by metis
  then have "db = db1" "scanned c i acc db" by auto
  from db_iterate_Finish[OF this(2) inv(1) finishes(3)] this(1)
  have here: "keeps_pace std_hash db1 db' (Unlocking c r)" by simp
  have holds: "db_holds (Unlocking c r) = db_holds (ps ! w)" using finishes(2) by simp
  have "\<forall>v < length (ps[w := Unlocking c r]). keeps_pace std_hash db1 db' (ps[w := Unlocking c r] ! v)"
  proof (cases "exclusive c")
    case True
    show ?thesis by (rule keeps_pace_alone[OF inv(2) finishes(1) _ True here]) (simp add: finishes(2))
  next
    case False
    from db_iterate_shared[OF this finishes(3)] keeps_pace_update[OF inv(4)] here
    show ?thesis by blast
  qed
  moreover have "nobody_exclusive (ps[w := Unlocking c r]) \<longrightarrow> db' = db1"
  proof
    assume "nobody_exclusive (ps[w := Unlocking c r])"
    then have "\<not> exclusive c"
      using finishes(1) unfolding nobody_exclusive_def by (metis db_holds.simps(2) length_list_update nth_list_update_eq)
    from db_iterate_shared[OF this finishes(3)] \<open>db = db1\<close> show "db' = db1" by simp
  qed
  ultimately show ?case
    using inv(1-3) db_exclusion_same(1)[OF inv(2) finishes(1) holds] db_iterate_mutex[OF finishes(3)]
    by (auto simp: db_threads_inv_def)
next
  case (locks_again w ps c i acc db db' hist)
  obtain db1 where inv: "mutex db = Unlocked" "db_exclusion ps"
    "replay std_hash (map fst hist) db0 = Some (map snd hist, db1)"
    "\<forall>v < length ps. keeps_pace std_hash db1 db (ps ! v)" "nobody_exclusive ps \<longrightarrow> db = db1"
    by (rule db_threads_invE[OF locks_again.prems])
  have "keeps_pace std_hash db1 db (Inside c i acc)" using inv(4) locks_again(1,2) by metis
  with db_iterate_LocksAgain[OF locks_again(3)]
  have "db' = db" "keeps_pace std_hash db1 db (SelfLocked c)" by simp_all
  moreover have "db_holds (SelfLocked c) = db_holds (ps ! w)" using locks_again(2) by simp
  ultimately show ?case
    using inv db_exclusion_same[OF inv(2) locks_again(1), of "SelfLocked c"]
      keeps_pace_update[OF inv(4), of "SelfLocked c" w]
    by (auto simp: db_threads_inv_def)
next
  case (unlocks w ps c r db hist)
  obtain db1 where inv: "mutex db = Unlocked" "db_exclusion ps"
    "replay std_hash (map fst hist) db0 = Some (map snd hist, db1)"
    "\<forall>v < length ps. keeps_pace std_hash db1 db (ps ! v)" "nobody_exclusive ps \<longrightarrow> db = db1"
    by (rule db_threads_invE[OF unlocks.prems])
  have "keeps_pace std_hash db1 db (Unlocking c r)" using inv(4) unlocks(1,2) by metis
  then have "replay std_hash (map fst (hist @ [(c, r)])) db0 = Some (map snd (hist @ [(c, r)]), db)"
    using replay_snoc[OF inv(3)] by simp
  moreover have "\<forall>v < length (ps[w := Outside]). keeps_pace std_hash db db (ps[w := Outside] ! v)"
  proof (cases "exclusive c")
    case True
    show ?thesis by (rule keeps_pace_alone[OF inv(2) unlocks(1) _ True]) (simp_all add: unlocks(2))
  next
    case False
    then have "nobody_exclusive ps"
      using inv(2) unlocks(1,2) unfolding db_exclusion_def nobody_exclusive_def
      by (metis db_holds.simps(2) option.inject)
    with inv(4,5) keeps_pace_update[of ps std_hash db db Outside w] show ?thesis by simp
  qed
  ultimately show ?case
    using inv(1) db_exclusion_leave[OF inv(2) unlocks(1), of Outside] by (auto simp: db_threads_inv_def)
qed

lemma db_threads_start_inv: "db_threads_start db0 s \<Longrightarrow> db_threads_inv std_hash db0 s"
  by (auto simp: db_threads_start_def db_threads_inv_def db_exclusion_def)

interpretation db_threads: invariant_system "db_threads_start db0" db_thread_step
  "db_threads_inv std_hash db0" for std_hash db0
  by unfold_locales (blast intro: db_threads_start_inv db_thread_step_inv)+

section \<open>Interleaved calls and calls one after the other\<close>

lemma locked_out:
  assumes "w < length ps" and "ps ! w = SelfLocked d" and "exclusive d"
  shows "\<not> lockable c ps"
  using assms lockableD[of c ps w d] by auto

text \<open>A run with two threads: one registers a client while the other waits, then reads the table.\<close>

definition example_client :: client_info where
  "example_client = ClientInfo True \<lparr>ip = ''10.0.0.1'', port = 7\<rparr>"

definition registered_db :: server_db where
  "registered_db = Server_empty\<lparr>clients := [example_client]\<rparr>"

abbreviation example_reach :: "db_threads \<Rightarrow> bool" where
  "example_reach \<equiv> reachable (db_threads_start Server_empty) db_thread_step"

lemma example_both_call: "example_reach
    ([Locking (AddOrUpdateClient example_client), Locking GetClients], Server_empty, [])"
proof -
  have "example_reach ([Outside, Outside], Server_empty, [])"
    by (rule reachable_init) (auto simp: db_threads_start_def Server_empty_def numeral_2_eq_2 intro!: exI[of _ 2])
  then have "example_reach ([Locking (AddOrUpdateClient example_client), Outside], Server_empty, [])"
    by (rule reachable_step) (use calls[of 0 "[Outside, Outside]"] in simp)
  then show ?thesis
    by (rule reachable_step)
      (use calls[of 1 "[Locking (AddOrUpdateClient example_client), Outside]"] in simp)
qed

lemma example_registered: "example_reach
    ([Outside, Locking GetClients], registered_db, [(AddOrUpdateClient example_client, Returned)])"
proof -
  have "example_reach ([Inside (AddOrUpdateClient example_client) 0 [], Locking GetClients], Server_empty, [])"
    by (rule reachable_step[OF example_both_call])
      (use locks[of 0 "[Locking (AddOrUpdateClient example_client), Locking GetClients]"
        "AddOrUpdateClient example_client"] in \<open>simp add: lockable_def\<close>)
  then have "example_reach ([Unlocking (AddOrUpdateClient example_client) Returned, Locking GetClients],
      registered_db, [])"
    by (rule reachable_step)
      (use finishes[of 0 "[Inside (AddOrUpdateClient example_client) 0 [], Locking GetClients]"
        "AddOrUpdateClient example_client" 0 "[]" Server_empty Returned registered_db "[]"] in
        \<open>simp add: registered_db_def Server_empty_def\<close>)
  then show ?thesis
    by (rule reachable_step)
      (use unlocks[of 0 "[Unlocking (AddOrUpdateClient example_client) Returned, Locking GetClients]"
        "AddOrUpdateClient example_client" Returned registered_db "[]"] in simp)
qed

lemma example_read: "example_reach ([Outside, Outside], registered_db,
    [(AddOrUpdateClient example_client, Returned), (GetClients, ReturnedClients [example_client])])"
proof -
  let ?h = "[(AddOrUpdateClient example_client, Returned)]"
  have "example_reach ([Outside, Inside GetClients 0 []], registered_db, ?h)"
    by (rule reachable_step[OF example_registered])
      (use locks[of 1 "[Outside, Locking GetClients]" GetClients] in \<open>simp add: lockable_def\<close>)
  then have "example_reach ([Outside, Inside GetClients 1 [example_client]], registered_db, ?h)"
    by (rule reachable_step)
      (use goes_on[of 1 "[Outside, Inside GetClients 0 []]" GetClients 0 "[]" registered_db "[example_client]"
        registered_db ?h] in \<open>simp add: registered_db_def\<close>)
  then have "example_reach ([Outside, Unlocking GetClients (ReturnedClients [example_client])], registered_db, ?h)"
    by (rule reachable_step)
      (use finishes[of 1 "[Outside, Inside GetClients 1 [example_client]]" GetClients 1 "[example_client]"
        registered_db "ReturnedClients [example_client]" registered_db ?h] in \<open>simp add: registered_db_def\<close>)
  then show ?thesis
    by (rule reachable_step)
      (use unlocks[of 1 "[Outside, Unlocking GetClients (ReturnedClients [example_client])]" GetClients
        "ReturnedClients [example_client]" registered_db ?h] in simp)
qed

text \<open>
  C6. However the threads of the tracker interleave, the calls that have returned gave what the same
  calls give one after the other, in the order in which they released the mutex; and whenever nobody
  holds it, the database is the one those calls leave.
\<close>

theorem interleaved_calls_are_atomic:
  assumes "reachable (db_threads_start db0) db_thread_step (ps, db, hist)"
  shows "\<exists>db1. replay std_hash (map fst hist) db0 = Some (map snd hist, db1) \<and>
    ({w. w < length ps \<and> db_holds (ps ! w) \<noteq> None} \<noteq> {} \<or> db = db1)"
proof -
  have "db_threads_inv std_hash db0 (ps, db, hist)"
    using assms by (rule db_threads.reachable_inv)
  then obtain db1 where "replay std_hash (map fst hist) db0 = Some (map snd hist, db1)"
    and same: "nobody_exclusive ps \<longrightarrow> db = db1"
    by (rule db_threads_invE)
  moreover have "nobody_exclusive ps" if "{w. w < length ps \<and> db_holds (ps ! w) \<noteq> None} = {}"
    using that by (fastforce simp: nobody_exclusive_def)
  ultimately show ?thesis by blast
qed

lemma interleaved_calls_are_atomic_witness:
  "replay (\<lambda>_. 0) [AddOrUpdateClient example_client, GetClients] Server_empty =
     Some ([Returned, ReturnedClients [example_client]], registered_db)"
  using interleaved_calls_are_atomic [OF example_read, of "\<lambda>_. 0"] by (auto simp: less_Suc_eq)

text \<open>
  One new torrent stops the tracker: once a thread has called \<open>addTorrent\<close> and got the mutex, it
  waits for itself, and from then on no call of any thread that needs the mutex gets it, none
  returns, and the database never changes.
\<close>

theorem addTorrent_stops_every_call:
  assumes "reachable (db_threads_start db0) db_thread_step (ps, db, hist)"
    and "w < length ps" and "ps ! w = SelfLocked c"
    and "db_thread_step\<^sup>*\<^sup>* (ps, db, hist) (ps', db', hist')"
  shows "db' = db \<and> hist' = hist \<and> ps' ! w = SelfLocked c \<and>
    {v. v < length ps' \<and> db_holds (ps' ! v) \<noteq> None} = {w}"
proof -
  define stopped where "stopped s \<longleftrightarrow> (case s of (qs, d, h) \<Rightarrow> d = db \<and> h = hist \<and> w < length qs \<and>
    qs ! w = SelfLocked c \<and> (\<forall>v < length qs. v \<noteq> w \<longrightarrow> db_holds (qs ! v) = None))" for s :: db_threads
  obtain db1 where inv: "db_exclusion ps" "\<forall>v < length ps. keeps_pace (\<lambda>_. 0) db1 db (ps ! v)"
    using db_threads_invE[OF db_threads.reachable_inv[OF assms(1), of "\<lambda>_. 0"]] by metis
  have ex: "exclusive c" using inv(2) assms(2,3) by fastforce
  have "stopped (ps, db, hist)"
    using others_outside[OF inv(1) assms(2) _ ex] assms(2,3) by (auto simp: stopped_def)
  moreover have "stopped s'" if "db_thread_step s s'" "stopped s" for s s'
    using that
  proof (induction rule: db_thread_step.induct)
    case (locks v qs d db hist)
    then show ?case using locked_out[of w qs c d] ex by (auto simp: stopped_def)
  qed (auto simp: stopped_def nth_list_update)
  ultimately have "stopped (ps', db', hist')" using rtranclp_keeps[OF assms(4), of stopped] by blast
  then show ?thesis by (auto simp: stopped_def)
qed

lemma example_self_locked: "example_reach
    ([SelfLocked (AddTorrent Torrent_default), Outside], Server_empty, [])"
proof -
  let ?c = "AddTorrent Torrent_default"
  have "example_reach ([Outside, Outside], Server_empty, [])"
    by (rule reachable_init) (auto simp: db_threads_start_def Server_empty_def numeral_2_eq_2 intro!: exI[of _ 2])
  then have "example_reach ([Locking ?c, Outside], Server_empty, [])"
    by (rule reachable_step) (use calls[of 0 "[Outside, Outside]"] in simp)
  then have "example_reach ([Inside ?c 0 [], Outside], Server_empty, [])"
    by (rule reachable_step) (use locks[of 0 "[Locking ?c, Outside]" ?c] in \<open>simp add: lockable_def\<close>)
  then show ?thesis
    by (rule reachable_step) (use locks_again[of 0 "[Inside ?c 0 [], Outside]" ?c 0 "[]" Server_empty] in simp)
qed

lemma addTorrent_stops_every_call_witness:
  "Server_empty = Server_empty \<and> ([] :: (db_call \<times> db_result) list) = [] \<and>
    [SelfLocked (AddTorrent Torrent_default), Locking GetClients] ! 0 = SelfLocked (AddTorrent Torrent_default) \<and>
    {v. v < length [SelfLocked (AddTorrent Torrent_default), Locking GetClients] \<and>
      db_holds ([SelfLocked (AddTorrent Torrent_default), Locking GetClients] ! v) \<noteq> None} = {0}"
  by (rule addTorrent_stops_every_call [OF example_self_locked, where c = "AddTorrent Torrent_default"])
    (use calls[of 1 "[SelfLocked (AddTorrent Torrent_default), Outside]" Server_empty "[]" GetClients] in
      \<open>auto intro: r_into_rtranclp\<close>)

end
