(* ===== verification/Tracker_Service.thy ===== *)
theory Tracker_Service
  imports Tracker_Threads
begin

text \<open>
  The tracker with all its threads: thread \<open>w\<close> serves the connection \<open>conn w\<close>, takes one message after
  another, runs the statements of \<open>TrackerThread::respond\<close>, and inside the database the steps of
  \<open>Tracker_Threads\<close>. The specification is \<open>respond\<close> run on one message at a time.
\<close>

section \<open>Threads that serve\<close>

datatype service_pc =
    Receiving
  | Scanning tcp_message nat      \<comment> \<open>\<open>handleSeedNotification\<close>, at a torrent\<close>
  | Calling tcp_message db_pc     \<comment> \<open>inside a call on the database\<close>

fun db_of :: "service_pc \<Rightarrow> db_pc" where
  "db_of (Calling m p) = p"
| "db_of _ = Outside"

type_synonym exchange = "nat \<times> tcp_message \<times> tcp_message option"

type_synonym service = "service_pc list \<times> server_db \<times> exchange list"

definition seedlist_reply :: "client_info list \<Rightarrow> tcp_message" where
  "seedlist_reply cs = \<lparr>code = CS_SEEDLIST_RESPONSE,
     contents = SeedlistResponse (add_peers cs default_seedlist_response)\<rparr>"

definition new_reply :: "torrent \<Rightarrow> tcp_message" where
  "new_reply t = \<lparr>code = CS_NEW_RESPONSE,
     contents = NewResponse \<lparr>nrs_fileCode = F_FINE, nrs_newHash = hashed t\<rparr>\<rparr>"

definition this_client :: "connection \<Rightarrow> client_info" where
  "this_client c = ClientInfo True (connected_address c)"

text \<open>
  \<open>handleSeedNotification\<close> goes through the torrents without the mutex, one step for each. The last list are
  the messages dealt with, with the thread and the reply.
\<close>

inductive service_step ::
  "(string \<Rightarrow> hash_value) \<Rightarrow> (nat \<Rightarrow> connection) \<Rightarrow> service \<Rightarrow> service \<Rightarrow> bool"
  for std_hash :: "string \<Rightarrow> hash_value" and conn :: "nat \<Rightarrow> connection" where
  at_once: "w < length ps \<Longrightarrow> ps ! w = Receiving \<Longrightarrow>
    code msg \<notin> {CS_SEEDLIST_REQUEST, CS_NEW_REQUEST, CS_IM_A_SEED} \<Longrightarrow>
    service_step std_hash conn (ps, db, log)
      (ps, db, log @ [(w, msg, if code msg = OK then Some ok_message else None)])"
| wants_list: "w < length ps \<Longrightarrow> ps ! w = Receiving \<Longrightarrow> code msg = CS_SEEDLIST_REQUEST \<Longrightarrow>
    service_step std_hash conn (ps, db, log)
      (ps[w := Calling msg (Locking (GetClientsWithHash (seedlistRequest_hashedTorrent (contents msg))))], db, log)"
| new_torrent: "w < length ps \<Longrightarrow> ps ! w = Receiving \<Longrightarrow> code msg = CS_NEW_REQUEST \<Longrightarrow>
    t = genDefaultHash std_hash (Torrent_of_msg (newRequest_torrentMsg (contents msg))) \<Longrightarrow>
    service_step std_hash conn (ps, db, log) (ps[w := Calling msg (Locking (AddTorrent t))], db, log)"
| new_seed: "w < length ps \<Longrightarrow> ps ! w = Receiving \<Longrightarrow> code msg = CS_IM_A_SEED \<Longrightarrow>
    service_step std_hash conn (ps, db, log) (ps[w := Scanning msg 0], db, log)"
| scans_on: "w < length ps \<Longrightarrow> ps ! w = Scanning msg i \<Longrightarrow> i < length (torrents db) \<Longrightarrow>
    hashed (torrents db ! i) \<noteq> imASeed_hashedTorrent (contents msg) \<Longrightarrow>
    service_step std_hash conn (ps, db, log) (ps[w := Scanning msg (Suc i)], db, log)"
| scan_finds: "w < length ps \<Longrightarrow> ps ! w = Scanning msg i \<Longrightarrow> i < length (torrents db) \<Longrightarrow>
    hashed (torrents db ! i) = imASeed_hashedTorrent (contents msg) \<Longrightarrow>
    service_step std_hash conn (ps, db, log)
      (ps[w := Calling msg (Locking (AddTorrentToClient (this_client (conn w)) (torrents db ! i)))], db, log)"
| scan_ends: "w < length ps \<Longrightarrow> ps ! w = Scanning msg i \<Longrightarrow> length (torrents db) \<le> i \<Longrightarrow>
    service_step std_hash conn (ps, db, log) (ps[w := Receiving], db, log @ [(w, msg, None)])"
| in_call: "w < length ps \<Longrightarrow> ps ! w = Calling msg p \<Longrightarrow> p \<noteq> Outside \<Longrightarrow>
    db_thread_step (map db_of ps, db, []) ((map db_of ps)[w := p'], db', []) \<Longrightarrow>
    service_step std_hash conn (ps, db, log) (ps[w := Calling msg p'], db', log)"
| has_list: "w < length ps \<Longrightarrow> ps ! w = Calling msg (Unlocking (GetClientsWithHash h) (ReturnedClients cs)) \<Longrightarrow>
    service_step std_hash conn (ps, db, log) (ps[w := Receiving], db, log @ [(w, msg, Some (seedlist_reply cs))])"
| torrent_added: "w < length ps \<Longrightarrow> ps ! w = Calling msg (Unlocking (AddTorrent t) r) \<Longrightarrow>
    service_step std_hash conn (ps, db, log)
      (ps[w := Calling msg (Locking (AddTorrentToClient (this_client (conn w)) t))], db, log)"
| client_added: "w < length ps \<Longrightarrow> ps ! w = Calling msg (Unlocking (AddTorrentToClient ci t) r) \<Longrightarrow>
    service_step std_hash conn (ps, db, log)
      (ps[w := Receiving], db, log @ [(w, msg, if code msg = CS_NEW_REQUEST then Some (new_reply t) else None)])"

definition service_start :: "server_db \<Rightarrow> service \<Rightarrow> bool" where
  "service_start db0 s \<longleftrightarrow> mutex db0 = Unlocked \<and> (\<exists>n. s = (replicate n Receiving, db0, []))"

section \<open>The specification\<close>

text \<open>One message after another, each dealt with alone.\<close>

fun serve_all ::
  "(string \<Rightarrow> hash_value) \<Rightarrow> (nat \<Rightarrow> connection) \<Rightarrow> (nat \<times> tcp_message) list \<Rightarrow> server_db
     \<Rightarrow> (tcp_message option list \<times> server_db) option" where
  "serve_all std_hash conn [] db = Some ([], db)"
| "serve_all std_hash conn ((w, m) # ms) db =
     (case respond std_hash 1 (conn w) m db of
        Some (Inr r, db') \<Rightarrow> map_option (\<lambda>(rs, db''). (r # rs, db'')) (serve_all std_hash conn ms db')
      | _ \<Rightarrow> None)"

definition requests :: "exchange list \<Rightarrow> (nat \<times> tcp_message) list" where
  "requests log = map (\<lambda>(w, m, r). (w, m)) log"

definition replies :: "exchange list \<Rightarrow> tcp_message option list" where
  "replies log = map (\<lambda>(w, m, r). r) log"

lemma exchange_simps [simp]:
  "requests [] = []" "replies [] = []"
  "requests (log @ [(w, m, r)]) = requests log @ [(w, m)]"
  "replies (log @ [(w, m, r)]) = replies log @ [r]"
  by (simp_all add: requests_def replies_def)

lemma serve_all_snoc:
  assumes "serve_all std_hash conn ms db = Some (rs, db1)" and "respond std_hash 1 (conn w) m db1 = Some (Inr r, db2)"
  shows "serve_all std_hash conn (ms @ [(w, m)]) db = Some (rs @ [r], db2)"
  using assms by (induction ms arbitrary: db rs) (auto split: option.splits prod.splits sum.splits)

text \<open>What \<open>respond\<close> comes to, message by message.\<close>

lemma notifySeed_lookup:
  "notifySeed ci h ts db =
     (case lookupBy hashed h ts of None \<Rightarrow> (Inr (), db) | Some t \<Rightarrow> addTorrentToClient ci t db)"
  by (induction ts) (auto simp: ret_def)

lemma respond_at_once:
  assumes "code m \<notin> {CS_SEEDLIST_REQUEST, CS_NEW_REQUEST, CS_IM_A_SEED}"
  shows "respond std_hash 1 c m db = Some (Inr (if code m = OK then Some ok_message else None), db)"
  using assms by (simp add: respond_def ok_message_def handleUnavailables_def Let_def andThen_def ret_def)

lemma returning_Inr: "returning f r = (Inr y, s) \<longleftrightarrow> (\<exists>x. r = (Inr x, s) \<and> y = f x)"
  by (cases r; cases "fst r") (auto simp: returning_def)

lemma respond_list:
  assumes "code m = CS_SEEDLIST_REQUEST"
    and "atomic_call std_hash (GetClientsWithHash (seedlistRequest_hashedTorrent (contents m))) db =
      Some (Inr (ReturnedClients cs), db')"
  shows "respond std_hash 1 c m db = Some (Inr (Some (seedlist_reply cs)), db')"
  using assms by (auto simp: respond_def returning_Inr seedlist_reply_def)

lemma respond_seed:
  assumes "code m = CS_IM_A_SEED" and "lookupBy hashed (imASeed_hashedTorrent (contents m)) (torrents db) = Some t"
    and "atomic_call std_hash (AddTorrentToClient (this_client c) t) db = Some (Inr r, db')"
  shows "respond std_hash 1 c m db = Some (Inr None, db')"
  using assms
  by (auto simp: respond_def returning_Inr handleSeedNotification_def torrentVector_def notifySeed_lookup this_client_def)

lemma respond_no_seed:
  assumes "code m = CS_IM_A_SEED" and "imASeed_hashedTorrent (contents m) \<notin> hashed ` set (torrents db)"
  shows "respond std_hash 1 c m db = Some (Inr None, db)"
proof -
  have "lookupBy hashed (imASeed_hashedTorrent (contents m)) (torrents db) = None"
    using assms(2) by (simp add: lookupBy_None_iff)
  with assms(1) show ?thesis
    by (simp add: respond_def handleSeedNotification_def torrentVector_def notifySeed_lookup)
qed

lemma addTorrent_never_returns: "atomic_call std_hash (AddTorrent t) db \<noteq> Some (Inr r, db')"
  by (auto simp: returning_Inr dest: addTorrent_frame)

section \<open>What every interleaving keeps\<close>

fun call_of :: "db_pc \<Rightarrow> db_call option" where
  "call_of Outside = None"
| "call_of (Locking c) = Some c"
| "call_of (Inside c i acc) = Some c"
| "call_of (Unlocking c r) = Some c"
| "call_of (SelfLocked c) = Some c"

text \<open>A thread does what its message asks for; the torrents are those of the start.\<close>

fun serves :: "torrent list \<Rightarrow> connection \<Rightarrow> service_pc \<Rightarrow> bool" where
  "serves ts c Receiving \<longleftrightarrow> True"
| "serves ts c (Scanning m i) \<longleftrightarrow> code m = CS_IM_A_SEED \<and> i \<le> length ts \<and>
     imASeed_hashedTorrent (contents m) \<notin> hashed ` set (take i ts)"
| "serves ts c (Calling m p) \<longleftrightarrow>
     (code m = CS_SEEDLIST_REQUEST \<and>
        call_of p = Some (GetClientsWithHash (seedlistRequest_hashedTorrent (contents m)))) \<or>
     (code m = CS_NEW_REQUEST \<and> (\<exists>t. call_of p = Some (AddTorrent t))) \<or>
     (code m = CS_IM_A_SEED \<and> (\<exists>t. lookupBy hashed (imASeed_hashedTorrent (contents m)) ts = Some t \<and>
        call_of p = Some (AddTorrentToClient (this_client c) t)))"

definition service_inv :: "(string \<Rightarrow> hash_value) \<Rightarrow> (nat \<Rightarrow> connection) \<Rightarrow> server_db \<Rightarrow> service \<Rightarrow> bool" where
  "service_inv std_hash conn db0 s \<longleftrightarrow> (case s of (ps, db, log) \<Rightarrow>
     torrents db = torrents db0 \<and> (\<forall>w < length ps. serves (torrents db0) (conn w) (ps ! w)) \<and>
     (\<exists>hist db1. db_threads_inv std_hash db0 (map db_of ps, db, hist) \<and>
        replay std_hash (map fst hist) db0 = Some (map snd hist, db1) \<and> torrents db1 = torrents db0 \<and>
        serve_all std_hash conn (requests log) db0 = Some (replies log, db1)))"

lemma db_thread_step_hist:
  "db_thread_step (xs, db, []) (ys, db', []) \<Longrightarrow> db_thread_step (xs, db, hist) (ys, db', hist)"
  by (auto elim!: db_thread_step.cases intro: db_thread_step.intros)

lemma db_iterate_torrents: "db_iterate c i acc db = (q, db') \<Longrightarrow> torrents db' = torrents db"
  by (cases c) (auto simp: Let_def split: if_splits)

lemma db_thread_step_torrents: "db_thread_step (xs, db, h) (ys, db', h') \<Longrightarrow> torrents db' = torrents db"
  by (auto elim!: db_thread_step.cases dest: db_iterate_torrents)

text \<open>A step of one thread inside its call stays in the call.\<close>

lemma list_update_changed:
  assumes "xs[w := p] = xs[v := q]" and "v < length xs" and "w < length xs" and "q \<noteq> xs ! v"
  shows "v = w \<and> p = q"
  using assms by (metis nth_list_update_eq nth_list_update_neq)

lemma db_thread_step_call:
  assumes "db_thread_step (xs, db, []) (xs[w := p'], db', [])" and "w < length xs" and "xs ! w \<noteq> Outside"
  shows "call_of p' = call_of (xs ! w) \<and> (db_holds p' = None \<longrightarrow> db' = db)"
  using assms by (auto elim!: db_thread_step.cases dest!: list_update_changed)

text \<open>A thread that waits for itself, and one outside the mutex while another does, cannot go on.\<close>

lemma self_locked_stuck:
  assumes "db_thread_step (xs, db, []) (xs[v := p'], db', [])" and "w < length xs" and "xs ! w = SelfLocked c"
    and "exclusive c" and "v < length xs" and "xs ! v \<noteq> Outside" and "v = w \<or> db_holds (xs ! v) = None"
  shows False
  using assms locked_out[OF assms(2-4)] by (auto elim!: db_thread_step.cases dest!: list_update_changed)

lemma serves_update:
  assumes "\<forall>v < length ps. serves ts (conn v) (ps ! v)" and "w < length ps \<Longrightarrow> serves ts (conn w) p"
  shows "\<forall>v < length (ps[w := p]). serves ts (conn v) (ps[w := p] ! v)"
  using assms by (metis length_list_update nth_list_update_eq nth_list_update_neq)

lemma service_inv_at:
  "service_inv std_hash conn db0 (ps, db, log) \<Longrightarrow> w < length ps \<Longrightarrow>
   torrents db = torrents db0 \<and> serves (torrents db0) (conn w) (ps ! w)"
  by (simp add: service_inv_def)

lemma service_invE:
  assumes "service_inv std_hash conn db0 (ps, db, log)"
  obtains hist db1 where "torrents db = torrents db0"
    and "\<forall>w < length ps. serves (torrents db0) (conn w) (ps ! w)"
    and "db_threads_inv std_hash db0 (map db_of ps, db, hist)"
    and "replay std_hash (map fst hist) db0 = Some (map snd hist, db1)" and "torrents db1 = torrents db0"
    and "serve_all std_hash conn (requests log) db0 = Some (replies log, db1)"
  using assms by (auto simp: service_inv_def)

text \<open>A step that is one of the database, or none.\<close>

lemma service_inv_move:
  assumes "service_inv std_hash conn db0 (ps, db, log)"
    and "serves (torrents db0) (conn w) p" and "torrents db' = torrents db"
    and "(map db_of ps)[w := db_of p] = map db_of ps \<and> db' = db \<or>
      db_thread_step (map db_of ps, db, []) ((map db_of ps)[w := db_of p], db', [])"
  shows "service_inv std_hash conn db0 (ps[w := p], db', log)"
proof -
  obtain hist db1 where inv: "torrents db = torrents db0"
    "\<forall>w < length ps. serves (torrents db0) (conn w) (ps ! w)"
    "db_threads_inv std_hash db0 (map db_of ps, db, hist)"
    "replay std_hash (map fst hist) db0 = Some (map snd hist, db1)" "torrents db1 = torrents db0"
    "serve_all std_hash conn (requests log) db0 = Some (replies log, db1)"
    by (rule service_invE[OF assms(1)])
  have "db_threads_inv std_hash db0 (map db_of (ps[w := p]), db', hist)"
    using assms(4) inv(3) db_thread_step_inv[OF db_thread_step_hist] by (auto simp: map_update)
  with inv assms(2,3) serves_update[OF inv(2)] show ?thesis
    unfolding service_inv_def prod.case by metis
qed

text \<open>A message that is dealt with by a call that returns.\<close>

lemma service_inv_return:
  assumes inv: "service_inv std_hash conn db0 (ps, db, log)"
    and w: "w < length ps" and here: "db_of (ps ! w) = Unlocking c r"
    and answer: "\<And>db1. atomic_call std_hash c db1 = Some (Inr r, db) \<Longrightarrow> torrents db1 = torrents db0 \<Longrightarrow>
      respond std_hash 1 (conn w) m db1 = Some (Inr reply, db)"
  shows "service_inv std_hash conn db0 (ps[w := Receiving], db, log @ [(w, m, reply)])"
proof -
  obtain hist db1 where inv: "torrents db = torrents db0"
    "\<forall>w < length ps. serves (torrents db0) (conn w) (ps ! w)"
    "db_threads_inv std_hash db0 (map db_of ps, db, hist)"
    "replay std_hash (map fst hist) db0 = Some (map snd hist, db1)" "torrents db1 = torrents db0"
    "serve_all std_hash conn (requests log) db0 = Some (replies log, db1)"
    by (rule service_invE[OF inv])
  have step: "db_thread_step (map db_of ps, db, hist) ((map db_of ps)[w := Outside], db, hist @ [(c, r)])"
    by (rule unlocks) (use w here in simp_all)
  have "keeps_pace std_hash db1 db (map db_of ps ! w)"
    using inv(3,4) w unfolding db_threads_inv_def prod.case by (metis Pair_inject length_map option.inject)
  then have call: "atomic_call std_hash c db1 = Some (Inr r, db)" using w here by simp
  have "db_threads_inv std_hash db0 (map db_of (ps[w := Receiving]), db, hist @ [(c, r)])"
    using db_thread_step_inv[OF step inv(3)] by (simp add: map_update)
  moreover have "replay std_hash (map fst (hist @ [(c, r)])) db0 = Some (map snd (hist @ [(c, r)]), db)"
    using replay_snoc[OF inv(4) call] by simp
  moreover have "serve_all std_hash conn (requests (log @ [(w, m, reply)])) db0 =
      Some (replies (log @ [(w, m, reply)]), db)"
    using serve_all_snoc[OF inv(6) answer[OF call inv(5)]] by simp
  ultimately show ?thesis
    using inv(1) serves_update[OF inv(2), of w Receiving] unfolding service_inv_def prod.case by auto
qed

text \<open>A message that leaves the database alone.\<close>

lemma service_inv_quiet:
  assumes inv: "service_inv std_hash conn db0 (ps, db, log)" and w: "w < length ps" "db_of (ps ! w) = Outside"
    and answer: "\<And>db1. torrents db1 = torrents db0 \<Longrightarrow> respond std_hash 1 (conn w) m db1 = Some (Inr reply, db1)"
  shows "service_inv std_hash conn db0 (ps[w := Receiving], db, log @ [(w, m, reply)])"
proof -
  have "(map db_of ps)[w := db_of Receiving] = map db_of ps"
    using w by (metis db_of.simps(2) length_map list_update_id nth_map)
  then have "service_inv std_hash conn db0 (ps[w := Receiving], db, log)"
    by (intro service_inv_move[OF inv]) simp_all
  then obtain hist db1 where new: "torrents db = torrents db0"
    "\<forall>v < length (ps[w := Receiving]). serves (torrents db0) (conn v) (ps[w := Receiving] ! v)"
    "db_threads_inv std_hash db0 (map db_of (ps[w := Receiving]), db, hist)"
    "replay std_hash (map fst hist) db0 = Some (map snd hist, db1)" "torrents db1 = torrents db0"
    "serve_all std_hash conn (requests log) db0 = Some (replies log, db1)"
    by (rule service_invE)
  have "serve_all std_hash conn (requests (log @ [(w, m, reply)])) db0 = Some (replies (log @ [(w, m, reply)]), db1)"
    using serve_all_snoc[OF new(6) answer[OF new(5)]] by simp
  with new show ?thesis unfolding service_inv_def prod.case by blast
qed

lemma service_step_inv:
  "service_step std_hash conn s s' \<Longrightarrow> service_inv std_hash conn db0 s \<Longrightarrow> service_inv std_hash conn db0 s'"
proof (induction rule: service_step.induct)
  case (at_once w ps msg db log)
  have "service_inv std_hash conn db0 (ps[w := Receiving], db, log @ [(w, msg, if code msg = OK then Some ok_message else None)])"
    by (rule service_inv_quiet[OF at_once.prems at_once(1)]) (use at_once(2) respond_at_once[OF at_once(3)] in simp_all)
  then show ?case using at_once(2) by (metis list_update_id)
next
  case (wants_list w ps msg db log)
  then show ?case
    by (intro service_inv_move) (auto intro!: calls)
next
  case (new_torrent w ps msg t db log)
  then show ?case
    by (intro service_inv_move) (auto intro!: calls)
next
  case (new_seed w ps msg db log)
  then show ?case
    by (intro service_inv_move) (auto simp: list_update_same_conv)
next
  case (scans_on w ps msg i db log)
  have t: "torrents db = torrents db0" "serves (torrents db0) (conn w) (Scanning msg i)"
    using service_inv_at[OF scans_on.prems scans_on(1)] scans_on(2) by simp_all
  show ?case
    by (rule service_inv_move[OF scans_on.prems])
      (use scans_on(1-4) t in \<open>auto simp: list_update_same_conv take_Suc_conv_app_nth\<close>)
next
  case (scan_finds w ps msg i db log)
  have t: "torrents db = torrents db0" "serves (torrents db0) (conn w) (Scanning msg i)"
    using service_inv_at[OF scan_finds.prems scan_finds(1)] scan_finds(2) by simp_all
  have "lookupBy hashed (imASeed_hashedTorrent (contents msg)) (take i (torrents db) @ torrents db ! i # drop (Suc i) (torrents db))
      = Some (torrents db ! i)"
    using t scan_finds(4) lookupBy_None_iff[of hashed "imASeed_hashedTorrent (contents msg)" "take i (torrents db0)"]
    by (simp add: lookupBy_append)
  then have "lookupBy hashed (imASeed_hashedTorrent (contents msg)) (torrents db0) = Some (torrents db ! i)"
    using scan_finds(3) t(1) by (simp flip: id_take_nth_drop)
  with t scan_finds(1,2) show ?case
    by (intro service_inv_move[OF scan_finds.prems]) (auto intro!: calls)
next
  case (scan_ends w ps msg i db log)
  have t: "torrents db = torrents db0" "serves (torrents db0) (conn w) (Scanning msg i)"
    using service_inv_at[OF scan_ends.prems scan_ends(1)] scan_ends(2) by simp_all
  then have "code msg = CS_IM_A_SEED" "imASeed_hashedTorrent (contents msg) \<notin> hashed ` set (torrents db0)"
    using scan_ends(3) by auto
  then show ?case
    by (intro service_inv_quiet[OF scan_ends.prems scan_ends(1)]) (use scan_ends(2) respond_no_seed in auto)
next
  case (in_call w ps msg p db p' db' log)
  have "call_of p' = call_of p"
    using db_thread_step_call[OF in_call(4)] in_call(1-3) by simp
  moreover have "serves (torrents db0) (conn w) (Calling msg p)"
    using service_inv_at[OF in_call.prems in_call(1)] in_call(2) by simp
  ultimately have "serves (torrents db0) (conn w) (Calling msg p')" by simp
  then show ?case
    using in_call(4) db_thread_step_torrents[OF in_call(4)]
    by (intro service_inv_move[OF in_call.prems]) auto
next
  case (has_list w ps msg h cs db log)
  have "serves (torrents db0) (conn w) (Calling msg (Unlocking (GetClientsWithHash h) (ReturnedClients cs)))"
    using service_inv_at[OF has_list.prems has_list(1)] has_list(2) by simp
  then have "code msg = CS_SEEDLIST_REQUEST" "h = seedlistRequest_hashedTorrent (contents msg)" by auto
  then show ?case
    using has_list(2) by (intro service_inv_return[OF has_list.prems has_list(1)] respond_list) auto
next
  case (torrent_added w ps msg t r db log)
  obtain hist db1 where "db_threads_inv std_hash db0 (map db_of ps, db, hist)"
    by (rule service_invE[OF torrent_added.prems])
  then obtain db1 where "\<forall>v < length (map db_of ps). keeps_pace std_hash db1 db (map db_of ps ! v)"
    by (auto elim: db_threads_invE)
  then have "keeps_pace std_hash db1 db (Unlocking (AddTorrent t) r)"
    using torrent_added(1,2) by (metis db_of.simps(1) length_map nth_map)
  then have False using addTorrent_never_returns by (metis keeps_pace.simps(2))
  then show ?case ..
next
  case (client_added w ps msg ci t r db log)
  have "serves (torrents db0) (conn w) (Calling msg (Unlocking (AddTorrentToClient ci t) r))"
    using service_inv_at[OF client_added.prems client_added(1)] client_added(2) by simp
  then have here: "code msg = CS_IM_A_SEED" "ci = this_client (conn w)"
    "lookupBy hashed (imASeed_hashedTorrent (contents msg)) (torrents db0) = Some t" by auto
  have "respond std_hash 1 (conn w) msg db1 = Some (Inr None, db)"
    if "atomic_call std_hash (AddTorrentToClient ci t) db1 = Some (Inr r, db)" "torrents db1 = torrents db0" for db1
    using that here by (intro respond_seed) auto
  then show ?case
    using client_added(2) here(1) by (intro service_inv_return[OF client_added.prems client_added(1)]) auto
qed

lemma service_start_inv: "service_start db0 s \<Longrightarrow> service_inv std_hash conn db0 s"
  by (auto simp: service_start_def service_inv_def db_threads_inv_def db_exclusion_def intro!: exI[of _ "[]"])

interpretation service_history: invariant_system "service_start db0" "service_step std_hash conn"
  "service_inv std_hash conn db0" for db0 std_hash conn
  by unfold_locales (blast intro: service_start_inv service_step_inv)+

section \<open>Two runs\<close>

text \<open>A client asks for a list while another announces a torrent nobody knows.\<close>

definition list_message :: tcp_message where
  "list_message = \<lparr>code = CS_SEEDLIST_REQUEST, contents = SeedlistRequest 3\<rparr>"

definition seed_message :: tcp_message where
  "seed_message = \<lparr>code = CS_IM_A_SEED, contents = ImASeed \<lparr>ias_hashedTorrent = 4, ias_receiverPort = 9\<rparr>\<rparr>"

definition new_message :: tcp_message where
  "new_message = \<lparr>code = CS_NEW_REQUEST, contents = NoContents\<rparr>"

abbreviation example_conn :: "nat \<Rightarrow> connection" where
  "example_conn \<equiv> \<lambda>_. example_connection"

abbreviation service_reach :: "server_db \<Rightarrow> service \<Rightarrow> bool" where
  "service_reach db0 \<equiv> reachable (service_start db0) (service_step (\<lambda>_. 0) example_conn)"

lemma two_threads: "mutex db0 = Unlocked \<Longrightarrow> service_reach db0 ([Receiving, Receiving], db0, [])"
  by (rule reachable_init) (auto simp: service_start_def numeral_2_eq_2 intro!: exI[of _ 2])

lemma example_listed: "service_reach owned_db ([Receiving, Receiving], owned_db,
    [(1, seed_message, None), (0, list_message, Some (seedlist_reply (clients owned_db)))])"
proof -
  let ?R = "service_reach owned_db" and ?c = "GetClientsWithHash 3" and ?log = "[(1, seed_message, None)] :: exchange list"
  have "?R ([Receiving, Receiving], owned_db, [])"
    by (rule two_threads) (simp add: owned_db_def Server_empty_def)
  then have "?R ([Calling list_message (Locking ?c), Receiving], owned_db, [])"
    by (rule reachable_step) (use wants_list[of 0 "[Receiving, Receiving]" list_message] in \<open>simp add: list_message_def\<close>)
  then have "?R ([Calling list_message (Locking ?c), Scanning seed_message 0], owned_db, [])"
    by (rule reachable_step)
      (use new_seed[of 1 "[Calling list_message (Locking ?c), Receiving]" seed_message] in \<open>simp add: seed_message_def\<close>)
  then have "?R ([Calling list_message (Inside ?c 0 []), Scanning seed_message 0], owned_db, [])"
    by (rule reachable_step)
      (use in_call[of 0 "[Calling list_message (Locking ?c), Scanning seed_message 0]" list_message "Locking ?c"]
        locks[of 0 "[Locking ?c, Outside]" ?c] in \<open>simp add: lockable_def\<close>)
  then have "?R ([Calling list_message (Inside ?c 0 []), Receiving], owned_db, ?log)"
    by (rule reachable_step)
      (use scan_ends[of 1 "[Calling list_message (Inside ?c 0 []), Scanning seed_message 0]" seed_message 0 owned_db _ _ "[]"] in
        \<open>simp add: owned_db_def Server_empty_def\<close>)
  then have "?R ([Calling list_message (Inside ?c 1 (clients owned_db)), Receiving], owned_db, ?log)"
    by (rule reachable_step)
      (use in_call[of 0 "[Calling list_message (Inside ?c 0 []), Receiving]" list_message "Inside ?c 0 []"]
        goes_on[of 0 "[Inside ?c 0 [], Outside]" ?c 0 "[]" owned_db "clients owned_db" owned_db] in
        \<open>simp add: owned_db_def Server_empty_def ClientInfo_with_def ClientInfo_hasHash_def Torrent_hashed_def\<close>)
  then have "?R ([Calling list_message (Unlocking ?c (ReturnedClients (clients owned_db))), Receiving], owned_db, ?log)"
    by (rule reachable_step)
      (use in_call[of 0 "[Calling list_message (Inside ?c 1 (clients owned_db)), Receiving]" list_message
          "Inside ?c 1 (clients owned_db)"]
        finishes[of 0 "[Inside ?c 1 (clients owned_db), Outside]" ?c 1 "clients owned_db" owned_db
          "ReturnedClients (clients owned_db)" owned_db] in
        \<open>simp add: owned_db_def Server_empty_def\<close>)
  then show ?thesis
    by (rule reachable_step)
      (use has_list[of 0 "[Calling list_message (Unlocking ?c (ReturnedClients (clients owned_db))), Receiving]"
          list_message 3 "clients owned_db" _ _ owned_db ?log] in simp)
qed

lemma example_stopped: "service_reach Server_empty
    ([Calling new_message (SelfLocked (AddTorrent (genDefaultHash (\<lambda>_. 0) (Torrent_of_msg
        (newRequest_torrentMsg (contents new_message)))))), Receiving], Server_empty, [])"
proof -
  let ?c = "AddTorrent (genDefaultHash (\<lambda>_. 0) (Torrent_of_msg (newRequest_torrentMsg (contents new_message))))"
  have "service_reach Server_empty ([Receiving, Receiving], Server_empty, [])"
    by (rule two_threads) (simp add: Server_empty_def)
  then have "service_reach Server_empty ([Calling new_message (Locking ?c), Receiving], Server_empty, [])"
    by (rule reachable_step) (use new_torrent[of 0 "[Receiving, Receiving]" new_message] in \<open>simp add: new_message_def\<close>)
  then have "service_reach Server_empty ([Calling new_message (Inside ?c 0 []), Receiving], Server_empty, [])"
    by (rule reachable_step)
      (use in_call[of 0 "[Calling new_message (Locking ?c), Receiving]" new_message "Locking ?c"]
        locks[of 0 "[Locking ?c, Outside]" ?c] in \<open>simp add: lockable_def\<close>)
  then show ?thesis
    by (rule reachable_step)
      (use in_call[of 0 "[Calling new_message (Inside ?c 0 []), Receiving]" new_message "Inside ?c 0 []"]
        locks_again[of 0 "[Inside ?c 0 [], Outside]" ?c 0 "[]" Server_empty] in simp)
qed

section \<open>The service and its specification\<close>

text \<open>
  C7. However the threads of the tracker interleave, in \<open>respond\<close>, in \<open>handleSeedNotification\<close>'s unlocked loop and
  inside the database, the replies to the messages dealt with are those \<open>respond\<close> gives to the same
  messages one after another; and while nobody holds the mutex the database is what they leave.
\<close>

theorem service_answers_in_order:
  assumes "reachable (service_start db0) (service_step std_hash conn) (ps, db, log)"
  shows "\<exists>db1. serve_all std_hash conn (requests log) db0 = Some (replies log, db1) \<and>
    ({w. w < length ps \<and> db_holds (db_of (ps ! w)) \<noteq> None} \<noteq> {} \<or> db = db1)"
proof -
  obtain hist db1 where inv: "db_threads_inv std_hash db0 (map db_of ps, db, hist)"
    "replay std_hash (map fst hist) db0 = Some (map snd hist, db1)"
    "serve_all std_hash conn (requests log) db0 = Some (replies log, db1)"
    by (rule service_invE[OF service_history.reachable_inv[OF assms]])
  have "db = db1" if "{w. w < length ps \<and> db_holds (db_of (ps ! w)) \<noteq> None} = {}"
  proof -
    have "nobody_exclusive (map db_of ps)" using that by (fastforce simp: nobody_exclusive_def)
    with inv(1,2) show ?thesis by (auto elim!: db_threads_invE)
  qed
  with inv(3) show ?thesis by blast
qed

lemma service_answers_in_order_witness:
  "serve_all (\<lambda>_. 0) example_conn [(1, seed_message), (0, list_message)] owned_db =
    Some ([None, Some (seedlist_reply (clients owned_db))], owned_db)"
proof -
  obtain db1 where "serve_all (\<lambda>_. 0) example_conn [(1, seed_message), (0, list_message)] owned_db =
      Some ([None, Some (seedlist_reply (clients owned_db))], db1)"
    "{w. w < length [Receiving, Receiving] \<and> db_holds (db_of ([Receiving, Receiving] ! w)) \<noteq> None} \<noteq> {} \<or> owned_db = db1"
    using service_answers_in_order [OF example_listed] by (auto simp: requests_def replies_def)
  then show ?thesis by (auto simp: less_Suc_eq)
qed

text \<open>
  C19. The first new torrent stops the tracker: once the thread that serves it waits for itself, no
  seed list is sent any more and no new torrent acknowledged, on any connection; that
  thread never deals with another message, and the database never changes.
\<close>

theorem new_torrent_stops_service:
  assumes "reachable (service_start db0) (service_step std_hash conn) (ps, db, log)"
    and "w < length ps" and "ps ! w = Calling msg (SelfLocked c)"
    and "(service_step std_hash conn)\<^sup>*\<^sup>* (ps, db, log) (ps', db', log')"
  shows "db' = db \<and> ps' ! w = Calling msg (SelfLocked c) \<and> (\<exists>more. log' = log @ more \<and>
    set more \<subseteq> {(v, m, r). v \<noteq> w \<and> code m \<notin> {CS_SEEDLIST_REQUEST, CS_NEW_REQUEST}})"
proof -
  let ?quiet = "{(v, m, r). v \<noteq> w \<and> code m \<notin> {CS_SEEDLIST_REQUEST, CS_NEW_REQUEST}} :: exchange set"
  define stopped where "stopped s \<longleftrightarrow> (case s of (qs, d, l) \<Rightarrow> d = db \<and> w < length qs \<and>
    qs ! w = Calling msg (SelfLocked c) \<and>
    (\<forall>v < length qs. v \<noteq> w \<longrightarrow> db_holds (db_of (qs ! v)) = None \<and> (\<forall>m i. qs ! v = Scanning m i \<longrightarrow> code m = CS_IM_A_SEED)) \<and>
    (\<exists>more. l = log @ more \<and> set more \<subseteq> ?quiet))" for s :: service
  have inv: "service_inv std_hash conn db0 (ps, db, log)"
    using service_history.reachable_inv[OF assms(1)] .
  obtain hist db1 where "db_threads_inv std_hash db0 (map db_of ps, db, hist)"
    by (rule service_invE[OF inv])
  then obtain db1 where ex: "db_exclusion (map db_of ps)"
    and pace: "\<forall>v < length (map db_of ps). keeps_pace std_hash db1 db (map db_of ps ! v)"
    by (rule db_threads_invE)
  have excl: "exclusive c" using pace assms(2,3) by fastforce
  have "db_holds (db_of (ps ! v)) = None" if "v < length ps" "v \<noteq> w" for v
    using others_outside[OF ex _ _ excl, of w v] that assms(2,3) by simp
  moreover have "code m = CS_IM_A_SEED" if "v < length ps" "ps ! v = Scanning m i" for v m i
    using service_inv_at[OF inv that(1)] that(2) by simp
  ultimately have "stopped (ps, db, log)"
    using assms(2,3) by (auto simp: stopped_def)
  moreover have "stopped s'" if "service_step std_hash conn s s'" "stopped s" for s s'
    using that
  proof (induction rule: service_step.induct)
    case (in_call v qs m p d p' d' l)
    then have "w < length (map db_of qs)" "map db_of qs ! w = SelfLocked c" "v < length (map db_of qs)"
      "map db_of qs ! v \<noteq> Outside" "v = w \<or> db_holds (map db_of qs ! v) = None"
      by (auto simp: stopped_def)
    from self_locked_stuck[OF in_call(4) this(1,2) excl this(3-5)] show ?case ..
  qed (auto simp: stopped_def nth_list_update)
  ultimately have "stopped (ps', db', log')" using rtranclp_keeps[OF assms(4), of stopped] by blast
  then show ?thesis by (auto simp: stopped_def)
qed

lemma new_torrent_stops_service_witness:
  "\<exists>c. [Calling new_message (SelfLocked c), Receiving] ! 0 = Calling new_message (SelfLocked c) \<and>
    (\<exists>more. [(1 :: nat, ok_message, Some ok_message)] = [] @ more \<and>
      set more \<subseteq> {(v, m, r). v \<noteq> 0 \<and> code m \<notin> {CS_SEEDLIST_REQUEST, CS_NEW_REQUEST}})"
proof -
  let ?c = "AddTorrent (genDefaultHash (\<lambda>_. 0) (Torrent_of_msg (newRequest_torrentMsg (contents new_message))))"
  let ?ps = "[Calling new_message (SelfLocked ?c), Receiving]"
  have "(service_step (\<lambda>_. 0) example_conn)\<^sup>*\<^sup>* (?ps, Server_empty, [])
      (?ps, Server_empty, [(1, ok_message, Some ok_message)])"
    using at_once[of 1 ?ps ok_message "\<lambda>_. 0" example_conn Server_empty "[]"]
    by (intro r_into_rtranclp) (simp add: ok_message_def)
  from new_torrent_stops_service [OF example_stopped _ _ this, of 0 new_message ?c] show ?thesis by auto
qed

end
