(* ===== verification/Server_Main.thy ===== *)
theory Server_Main
  imports Tracker Options
begin

text \<open>
  \<open>server/main.cpp\<close>: the command line, the listening socket, and the accept loop that starts one
  thread per connection.
\<close>

section \<open>Start-up\<close>

text \<open>
  The option loop. A valid \<open>-p\<close> continues without storing the port; any result of \<open>getopt\<close> other
  than \<open>'p'\<close> leaves the loop.
\<close>

fun server_options :: "int \<Rightarrow> getopt_result list \<Rightarrow> int outcome" where
  "server_options p [] = Inr p"
| "server_options p (OptP optarg # rs) =
     (if \<not> validPort (potentialPort optarg) then Inl (Exited 1) else server_options p rs)"
| "server_options p (r # rs) = Inr p"

text \<open>
  \<open>main\<close> up to its accept loop; \<open>sockRes\<close>, \<open>bindRes\<close> and \<open>listenRes\<close> are what the three system
  calls return. The result is the port the server listens on.
\<close>

definition server_main :: "getopt_result list \<Rightarrow> int \<Rightarrow> int \<Rightarrow> int \<Rightarrow> int outcome" where
  "server_main opts sockRes bindRes listenRes =
     (case server_options SERVER_DEFAULT_PORT opts of
        Inl e \<Rightarrow> Inl e
      | Inr p \<Rightarrow>
          (case guard sockRes of Inl e \<Rightarrow> Inl e | Inr _ \<Rightarrow>
            (case guard bindRes of Inl e \<Rightarrow> Inl e | Inr _ \<Rightarrow>
              (case guard listenRes of Inl e \<Rightarrow> Inl e | Inr _ \<Rightarrow> Inr p))))"

lemma server_options_cases:
  "server_options p opts = Inr p \<or> server_options p opts = Inl (Exited 1)"
  by (induction p opts rule: server_options.induct) auto

text \<open>
  The server listens on its default port or not at all: no command line changes the port,
  a \<open>-p\<close> with a number outside 1024 to 65535 (modulo \<open>2 ^ 32\<close>) in first position ends the process
  with status 1, and so does a failing system call.
\<close>

theorem server_port_fixed:
  "server_main opts sockRes bindRes listenRes = Inr p \<Longrightarrow>
     p = 59095 \<and> sockRes \<noteq> -1 \<and> bindRes \<noteq> -1 \<and> listenRes \<noteq> -1 \<and>
     (\<forall>n rest. opts = OptP (to_string n) # rest \<and> n < 2 ^ 63 \<longrightarrow>
        1024 \<le> n mod 2 ^ 32 \<and> n mod 2 ^ 32 \<le> 65535)"
  using server_options_cases[of SERVER_DEFAULT_PORT opts]
  by (auto simp: server_main_def guard_def SERVER_DEFAULT_PORT_def validPort_residue
      split: if_splits sum.splits)

lemma server_port_fixed_witness:
  "server_main [OptP ''2000''] 3 0 0 = Inr 59095 \<and> (2000 :: nat) mod 2 ^ 32 \<le> 65535"
proof -
  have p: "potentialPort ''2000'' = 2000"
    by (simp add: potentialPort_def int_of_long_def strtol_def isspace_def digit_of_def LONG_MAX_def
        signed_take_bit_int_eq_self)
  have run: "server_main [OptP ''2000''] 3 0 0 = Inr 59095"
    by (simp add: server_main_def guard_def SERVER_DEFAULT_PORT_def p validPort_def)
  have "to_string 2000 = ''2000''" by code_simp
  then show ?thesis using server_port_fixed [OF run] run by (auto dest: spec[of _ 2000])
qed

section \<open>The threads\<close>

text \<open>The thread function flows off its end without returning a value.\<close>

definition runTrackerThread ::
  "(string \<Rightarrow> hash_value) \<Rightarrow> nat \<Rightarrow> (string \<Rightarrow> int \<Rightarrow> tcp_message) \<Rightarrow> connection \<Rightarrow> int \<Rightarrow> string
     \<Rightarrow> string option list \<Rightarrow> server_db \<Rightarrow> tcp_message list \<times> loop_end \<times> server_db" where
  "runTrackerThread std_hash fuel parse conn closed buf recvs db =
     (case TrackerThread_run std_hash fuel parse conn closed buf recvs db of
        (out, Disconnected, db') \<Rightarrow> (out, Faulted (Undefined MissingReturn), db')
      | r \<Rightarrow> r)"

text \<open>
  No connection of the tracker ends well: a thread whose client disconnects has served it as \<open>run\<close>
  does, and then leaves a function that returns a pointer without returning one.
\<close>

theorem tracker_thread_never_returns:
  "fst (snd (runTrackerThread std_hash fuel parse conn closed buf recvs db)) \<noteq> Disconnected \<and>
   fst (runTrackerThread std_hash fuel parse conn closed buf recvs db) =
     fst (TrackerThread_run std_hash fuel parse conn closed buf recvs db) \<and>
   snd (snd (runTrackerThread std_hash fuel parse conn closed buf recvs db)) =
     snd (snd (TrackerThread_run std_hash fuel parse conn closed buf recvs db))"
  by (auto simp: runTrackerThread_def split: prod.split loop_end.split)

section \<open>The accept loop\<close>

text \<open>
  Every iteration writes the accepted descriptor to \<open>args\<close>, a local of the loop body, and starts a
  thread on its address; the thread reads \<open>args.connFd\<close> when it is scheduled. The iterations
  reuse one stack slot, so the model keeps one cell. (Reading it after its iteration ended is
  undefined by the standard; the model shows what the shared slot leads to.) Descriptors name
  connections, so an accepted one is new.
\<close>

record accept_state =
  args_connFd :: "nat option"
  started :: nat                 \<comment> \<open>threads created that have not read \<open>args\<close> yet\<close>
  serving :: "nat list"          \<comment> \<open>descriptors read by running threads\<close>
  accepted :: "nat list"

definition accept_start :: "accept_state \<Rightarrow> bool" where
  "accept_start s \<longleftrightarrow> s = \<lparr>args_connFd = None, started = 0, serving = [], accepted = []\<rparr>"

inductive accept_step :: "accept_state \<Rightarrow> accept_state \<Rightarrow> bool" where
  accept_and_create: "fd \<notin> set (accepted s) \<Longrightarrow>
     accept_step s (s\<lparr>args_connFd := Some fd, started := Suc (started s),
                      accepted := accepted s @ [fd]\<rparr>)"
| thread_reads_args: "started s = Suc n \<Longrightarrow> args_connFd s = Some fd \<Longrightarrow>
     accept_step s (s\<lparr>started := n, serving := serving s @ [fd]\<rparr>)"

inductive_cases accept_stepE: "accept_step s t"

definition accept_inv :: "accept_state \<Rightarrow> bool" where
  "accept_inv s \<longleftrightarrow>
     set (serving s) \<subseteq> set (accepted s) \<and> distinct (accepted s) \<and>
     args_connFd s = (if accepted s = [] then None else Some (last (accepted s))) \<and>
     length (serving s) + started s = length (accepted s)"

interpretation accept_history: invariant_system accept_start accept_step accept_inv
proof unfold_locales
  show "accept_inv s" if "accept_start s" for s
    using that by (simp add: accept_start_def accept_inv_def)
  show "accept_inv t" if "accept_inv s" "accept_step s t" for s t
    using that(2,1) by cases (auto simp: accept_inv_def split: if_splits)
qed

text \<open>
  One thread is started per accepted connection, and every thread serves some accepted
  descriptor; but a scheduling exists in which two connections are accepted before the first
  thread reads its argument, and then both threads serve the second connection and no thread
  serves the first.
\<close>

theorem accept_loop_can_lose_connections:
  "Collect (reachable accept_start accept_step) \<subseteq>
     {s. length (serving s) + started s = length (accepted s) \<and> set (serving s) \<subseteq> set (accepted s)} \<and>
   (\<exists>s. reachable accept_start accept_step s \<and> accepted s = [4, 5] \<and> started s = 0 \<and>
      serving s = [5, 5])"
proof
  show "Collect (reachable accept_start accept_step) \<subseteq>
     {s. length (serving s) + started s = length (accepted s) \<and> set (serving s) \<subseteq> set (accepted s)}"
    using accept_history.reachable_inv by (auto simp: accept_inv_def)
next
  let ?s0 = "\<lparr>args_connFd = None, started = 0, serving = [], accepted = []\<rparr>"
  let ?s1 = "\<lparr>args_connFd = Some 4, started = 1, serving = [], accepted = [4]\<rparr>"
  let ?s2 = "\<lparr>args_connFd = Some 5, started = 2, serving = [], accepted = [4, 5]\<rparr>"
  let ?s3 = "\<lparr>args_connFd = Some 5, started = 1, serving = [5], accepted = [4, 5]\<rparr>"
  let ?s4 = "\<lparr>args_connFd = Some 5, started = 0, serving = [5, 5], accepted = [4, 5]\<rparr>"
  have "accept_step ?s0 ?s1" using accept_and_create[of 4 ?s0] by simp
  moreover have "accept_step ?s1 ?s2" using accept_and_create[of 5 ?s1] by (simp add: numeral_2_eq_2)
  moreover have "accept_step ?s2 ?s3" using thread_reads_args[of ?s2 1 5] by simp
  moreover have "accept_step ?s3 ?s4" using thread_reads_args[of ?s3 0 5] by simp
  moreover have "reachable accept_start accept_step ?s0"
    by (rule reachable_init) (simp add: accept_start_def)
  ultimately have "reachable accept_start accept_step ?s4"
    by (blast intro: reachable_step)
  then show "\<exists>s. reachable accept_start accept_step s \<and> accepted s = [4, 5] \<and> started s = 0 \<and>
      serving s = [5, 5]" by (intro exI[of _ ?s4]) simp
qed

end
