(* ===== verification/Tracker_Process.thy ===== *)
theory Tracker_Process
  imports Tracker_Service Server_Main
begin

text \<open>
  The tracker's process: the accept loop of \<open>main\<close> (\<open>Server_Main\<close>) starts the threads that serve
  (\<open>Tracker_Service\<close>), while those started before run. A thread serves the connection whose descriptor it
  finds in the shared argument. A thread whose client is gone has no further step.
\<close>

section \<open>Accepting and serving\<close>

text \<open>Thread \<open>w\<close> is the one that read \<open>serving a ! w\<close>; \<open>peer\<close> is the far end of a descriptor.\<close>

type_synonym tracker_process = "accept_state \<times> service"

definition conn_of :: "(nat \<Rightarrow> connection) \<Rightarrow> accept_state \<Rightarrow> nat \<Rightarrow> connection" where
  "conn_of peer a w = peer (serving a ! w)"

inductive process_step ::
  "(string \<Rightarrow> hash_value) \<Rightarrow> (nat \<Rightarrow> connection) \<Rightarrow> tracker_process \<Rightarrow> tracker_process \<Rightarrow> bool"
  for std_hash :: "string \<Rightarrow> hash_value" and peer :: "nat \<Rightarrow> connection" where
  accepts: "accept_step a a' \<Longrightarrow> serving a' = serving a \<Longrightarrow>
    process_step std_hash peer (a, ps, db, log) (a', ps, db, log)"
| thread_begins: "accept_step a a' \<Longrightarrow> serving a' = serving a @ [fd] \<Longrightarrow>
    process_step std_hash peer (a, ps, db, log) (a', ps @ [Receiving], db, log)"
| thread_serves: "service_step std_hash (conn_of peer a) (ps, db, log) (ps', db', log') \<Longrightarrow>
    process_step std_hash peer (a, ps, db, log) (a, ps', db', log')"

definition process_start :: "tracker_process \<Rightarrow> bool" where
  "process_start s \<longleftrightarrow> (\<exists>a. accept_start a \<and> s = (a, [], Server_empty, []))"

section \<open>A process is a service\<close>

text \<open>Threads not started yet change nothing: they are as good as threads that wait for a message.\<close>

lemma db_thread_step_more:
  assumes "db_thread_step (xs, db, h) (ys, db', h')" and "set zs \<subseteq> {Outside}"
  shows "db_thread_step (xs @ zs, db, h) (ys @ zs, db', h')"
proof -
  have idle: "list_all P zs" if "P Outside" for P :: "db_pc \<Rightarrow> bool"
    using assms(2) that by (auto simp: list_all_iff)
  show ?thesis
    using assms(1)
  proof (cases rule: db_thread_step.cases)
    case (calls w c)
    then show ?thesis using db_thread_step.calls[of w "xs @ zs"] by (simp add: nth_append list_update_append1)
  next
    case (locks w c)
    then show ?thesis
      using db_thread_step.locks[of w "xs @ zs" c] idle by (simp add: nth_append list_update_append1 lockable_def)
  next
    case (goes_on w c i acc acc')
    then show ?thesis
      using db_thread_step.goes_on[of w "xs @ zs"] by (simp add: nth_append list_update_append1)
  next
    case (finishes w c i acc r)
    then show ?thesis
      using db_thread_step.finishes[of w "xs @ zs"] by (simp add: nth_append list_update_append1)
  next
    case (locks_again w c i acc)
    then show ?thesis
      using db_thread_step.locks_again[of w "xs @ zs"] by (simp add: nth_append list_update_append1)
  next
    case (unlocks w c r)
    then show ?thesis
      using db_thread_step.unlocks[of w "xs @ zs"] by (simp add: nth_append list_update_append1)
  qed
qed

lemma service_step_more:
  assumes "service_step std_hash conn (ps, db, log) (ps', db', log')"
    and "\<And>w. w < length ps \<Longrightarrow> conn' w = conn w"
  shows "service_step std_hash conn' (ps @ replicate n Receiving, db, log) (ps' @ replicate n Receiving, db', log')"
  using assms(1)
proof (cases rule: service_step.cases)
  case (at_once w msg)
  then show ?thesis
    using service_step.at_once[of w "ps @ replicate n Receiving" msg] by (simp add: nth_append)
next
  case (wants_list w msg)
  then show ?thesis
    using service_step.wants_list[of w "ps @ replicate n Receiving" msg] by (simp add: nth_append list_update_append1)
next
  case (new_torrent w msg t)
  then show ?thesis
    using service_step.new_torrent[of w "ps @ replicate n Receiving" msg] by (simp add: nth_append list_update_append1)
next
  case (new_seed w msg)
  then show ?thesis
    using service_step.new_seed[of w "ps @ replicate n Receiving" msg] by (simp add: nth_append list_update_append1)
next
  case (scans_on w msg i)
  then show ?thesis
    using service_step.scans_on[of w "ps @ replicate n Receiving" msg i db]
    by (simp add: nth_append list_update_append1)
next
  case (scan_finds w msg i)
  then show ?thesis
    using service_step.scan_finds[of w "ps @ replicate n Receiving" msg i db std_hash conn'] assms(2)[of w]
    by (simp add: nth_append list_update_append1)
next
  case (scan_ends w msg i)
  then show ?thesis
    using service_step.scan_ends[of w "ps @ replicate n Receiving" msg i db]
    by (simp add: nth_append list_update_append1)
next
  case (in_call w msg p p')
  have "db_thread_step (map db_of ps @ replicate n Outside, db, [])
      ((map db_of ps)[w := p'] @ replicate n Outside, db', [])"
    by (rule db_thread_step_more) (use in_call in auto)
  then show ?thesis
    using in_call service_step.in_call[of w "ps @ replicate n Receiving" msg p db p' db']
    by (simp add: nth_append list_update_append1)
next
  case (has_list w msg h cs)
  then show ?thesis
    using service_step.has_list[of w "ps @ replicate n Receiving" msg] by (simp add: nth_append list_update_append1)
next
  case (torrent_added w msg t r)
  then show ?thesis
    using service_step.torrent_added[of w "ps @ replicate n Receiving" msg t r std_hash conn'] assms(2)[of w]
    by (simp add: nth_append list_update_append1)
next
  case (client_added w msg ci t r)
  then show ?thesis
    using service_step.client_added[of w "ps @ replicate n Receiving" msg]
    by (simp add: nth_append list_update_append1)
qed

lemma service_step_keeps:
  assumes "service_step std_hash conn (ps, db, log) (ps', db', log')"
  shows "length ps' = length ps" and "\<exists>more. log' = log @ more \<and> fst ` set more \<subseteq> {..<length ps}"
  using assms by (cases; simp)+

text \<open>
  A run of the process is a run of the service with as many threads as there are in the end, and any
  number more, on the connections these threads were given.
\<close>

definition runs_as_service ::
  "(string \<Rightarrow> hash_value) \<Rightarrow> (nat \<Rightarrow> connection) \<Rightarrow> tracker_process \<Rightarrow> bool" where
  "runs_as_service std_hash peer s \<longleftrightarrow> (case s of (a, ps, db, log) \<Rightarrow>
     length ps = length (serving a) \<and> fst ` set log \<subseteq> {..<length ps} \<and> accept_inv a \<and>
     (\<forall>conn n. (\<forall>w < length ps. conn w = conn_of peer a w) \<longrightarrow>
        reachable (service_start Server_empty) (service_step std_hash conn) (ps @ replicate n Receiving, db, log)))"

lemma runs_as_serviceD:
  assumes "runs_as_service std_hash peer (a, ps, db, log)"
  shows "length ps = length (serving a)" and "fst ` set log \<subseteq> {..<length ps}" and "accept_inv a"
    and "\<forall>w < length ps. conn w = conn_of peer a w \<Longrightarrow>
      reachable (service_start Server_empty) (service_step std_hash conn) (ps @ replicate n Receiving, db, log)"
  using assms unfolding runs_as_service_def prod.case by blast+

lemma process_runs_as_service:
  "reachable process_start (process_step std_hash peer) s \<Longrightarrow> runs_as_service std_hash peer s"
proof (induction rule: reachable.induct)
  case (reachable_init s)
  then show ?case
    by (auto simp: process_start_def runs_as_service_def accept_start_def service_start_def accept_inv_def
        Server_empty_def intro!: reachable.reachable_init)
next
  case (reachable_step s t)
  from reachable_step(2,3) show ?case
  proof (induction rule: process_step.induct)
    case (accepts a a' ps db log)
    have "conn_of peer a' = conn_of peer a" by (rule ext) (simp add: conn_of_def accepts(2))
    moreover have "accept_inv a'"
      by (rule accept_history.inv_step[OF runs_as_serviceD(3)[OF accepts(3)] accepts(1)])
    ultimately show ?case using accepts(3) unfolding runs_as_service_def prod.case accepts(2) by metis
  next
    case (thread_begins a a' fd ps db log)
    note old = runs_as_serviceD[OF thread_begins(3)]
    have "reachable (service_start Server_empty) (service_step std_hash conn)
        ((ps @ [Receiving]) @ replicate n Receiving, db, log)"
      if same: "\<forall>w < length (ps @ [Receiving]). conn w = conn_of peer a' w" for conn n
    proof -
      have "conn w = conn_of peer a w" if "w < length ps" for w
        using that same thread_begins(2) old(1) by (simp add: conn_of_def nth_append)
      then show ?thesis using old(4)[of conn "Suc n"] by simp
    qed
    moreover have "accept_inv a'" by (rule accept_history.inv_step[OF old(3) thread_begins(1)])
    moreover have "fst ` set log \<subseteq> {..<length (ps @ [Receiving])}" using old(2) by auto
    ultimately show ?case using old(1) thread_begins(2) by (simp add: runs_as_service_def)
  next
    case (thread_serves a ps db log ps' db' log')
    note old = runs_as_serviceD[OF thread_serves(2)] and kept = service_step_keeps[OF thread_serves(1)]
    have "reachable (service_start Server_empty) (service_step std_hash conn) (ps' @ replicate n Receiving, db', log')"
      if "\<forall>w < length ps'. conn w = conn_of peer a w" for conn n
      using old(4)[of conn n] service_step_more[OF thread_serves(1), of conn n] that kept(1)
      by (auto intro: reachable.reachable_step)
    moreover have "fst ` set log' \<subseteq> {..<length ps'}" using kept old(2) by (metis Un_subset_iff image_Un set_append)
    ultimately show ?case using old(1,3) kept(1) by (simp add: runs_as_service_def)
  qed
qed

section \<open>What the process answers\<close>

lemma serve_all_knows_nothing:
  assumes "serve_all std_hash conn ms db = Some (rs, db')" and "knows_nothing db"
  shows "knows_nothing db' \<and> set rs \<subseteq> {None, Some ok_message, Some empty_list_message}"
  using assms
proof (induction ms arbitrary: db rs)
  case (Cons wm ms)
  obtain w m where wm: "wm = (w, m)" by (cases wm)
  obtain r db1 rs1 where one: "respond std_hash 1 (conn w) m db = Some (Inr r, db1)"
    and rest: "serve_all std_hash conn ms db1 = Some (rs1, db')" "rs = r # rs1"
    using Cons.prems(1) unfolding wm by (auto split: option.splits prod.splits sum.splits)
  have "knows_nothing db1 \<and> (\<forall>reply. r = Some reply \<longrightarrow> reply \<in> {ok_message, empty_list_message})"
    using respond_knows_nothing[OF Cons.prems(2) one] by auto
  then show ?case using Cons.IH[OF rest(1)] rest(2) by (cases r) auto
qed simp

text \<open>Without registered torrents no thread ever is in a call that changes the tables.\<close>

lemma service_inv_empty:
  assumes "service_inv std_hash conn db0 (ps, db, log)" and "knows_nothing db0"
  shows "serve_all std_hash conn (requests log) db0 = Some (replies log, db)"
proof -
  obtain hist db1 where inv: "\<forall>w < length ps. serves (torrents db0) (conn w) (ps ! w)"
    "db_threads_inv std_hash db0 (map db_of ps, db, hist)"
    "replay std_hash (map fst hist) db0 = Some (map snd hist, db1)"
    "serve_all std_hash conn (requests log) db0 = Some (replies log, db1)"
    by (rule service_invE[OF assms(1)])
  have pace: "\<forall>w < length ps. keeps_pace std_hash db1 db (db_of (ps ! w))"
    and free: "nobody_exclusive (map db_of ps) \<longrightarrow> db = db1"
    using inv(2,3) by (auto elim!: db_threads_invE)
  have "db = db1"
  proof (cases "nobody_exclusive (map db_of ps)")
    case False
    then obtain w c where w: "w < length ps" "db_holds (db_of (ps ! w)) = Some c" "exclusive c"
      by (auto simp: nobody_exclusive_def)
    then obtain m p where at: "ps ! w = Calling m p" by (cases "ps ! w") simp_all
    then have "call_of p = Some c" using w(2) by (cases p) simp_all
    moreover have "lookupBy hashed h (torrents db0) = None" for h using assms(2) by (simp add: knows_nothing_def)
    ultimately obtain t where c: "c = AddTorrent t" using inv(1) w(1,3) at by fastforce
    have "keeps_pace std_hash db1 db p" using pace w(1) at by force
    then show ?thesis using w(2) at c addTorrent_never_returns by (cases p) auto
  qed (use free in simp)
  with inv(4) show ?thesis by simp
qed

text \<open>
  C8. The tracker as a whole: however its accept loop and all its threads interleave, the messages dealt
  with so far, whichever connections they came over, got the answers \<open>respond\<close> gives to them one
  after another; each came over an accepted connection; all answers were \<open>OK\<close>, the
  empty seed list or none; and the tables are empty.
\<close>

theorem tracker_process_answers:
  assumes "reachable process_start (process_step std_hash peer) (a, ps, db, log)"
  shows "serve_all std_hash (conn_of peer a) (requests log) Server_empty = Some (replies log, db) \<and>
    set (replies log) \<subseteq> {None, Some ok_message, Some empty_list_message} \<and>
    clients db = [] \<and> torrents db = [] \<and>
    (\<lambda>w. serving a ! w) ` fst ` set log \<subseteq> set (accepted a)"
proof -
  have "runs_as_service std_hash peer (a, ps, db, log)" using assms by (rule process_runs_as_service)
  note runs = runs_as_serviceD[OF this]
  have "reachable (service_start Server_empty) (service_step std_hash (conn_of peer a)) (ps, db, log)"
    using runs(4)[of "conn_of peer a" 0] by simp
  then have inv: "service_inv std_hash (conn_of peer a) Server_empty (ps, db, log)"
    by (rule service_history.reachable_inv)
  have fresh: "knows_nothing Server_empty" by (simp add: knows_nothing_def Server_empty_def)
  have all: "serve_all std_hash (conn_of peer a) (requests log) Server_empty = Some (replies log, db)"
    by (rule service_inv_empty[OF inv fresh])
  have empty: "knows_nothing db" "set (replies log) \<subseteq> {None, Some ok_message, Some empty_list_message}"
    using serve_all_knows_nothing[OF all fresh] by blast+
  have "serving a ! w \<in> set (accepted a)" if "w \<in> fst ` set log" for w
  proof -
    have "w < length (serving a)" using that runs(1,2) by auto
    then show ?thesis using runs(3) nth_mem[of w "serving a"] unfolding accept_inv_def by blast
  qed
  then have "(\<lambda>w. serving a ! w) ` fst ` set log \<subseteq> set (accepted a)" by blast
  with all empty show ?thesis by (simp only: knows_nothing_def)
qed

text \<open>Two connections are accepted before the first thread runs; both threads serve the second.\<close>

lemma example_process: "reachable process_start (process_step (\<lambda>_. 0) (\<lambda>_. example_connection))
    (\<lparr>args_connFd = Some 5, started = 0, serving = [5, 5], accepted = [4, 5]\<rparr>, [Receiving, Receiving], Server_empty,
     [(1, ok_message, Some ok_message)])"
proof -
  let ?R = "reachable process_start (process_step (\<lambda>_. 0) (\<lambda>_. example_connection))"
  let ?a = "\<lambda>fd n s acc. \<lparr>args_connFd = fd, started = n, serving = s, accepted = acc\<rparr>"
  have accepts: "?R (?a (Some fd) (Suc n) s (acc @ [fd]), ps, d, l)"
    if "?R (?a x n s acc, ps, d, l)" "fd \<notin> set acc" for x n s acc fd ps d l
    by (rule reachable_step[OF that(1)])
      (use accept_and_create[of fd "?a x n s acc"] that(2) in \<open>auto intro!: process_step.accepts\<close>)
  have begins: "?R (?a (Some fd) n (s @ [fd]) acc, ps @ [Receiving], d, l)"
    if "?R (?a (Some fd) (Suc n) s acc, ps, d, l)" for n s acc fd ps d l
    by (rule reachable_step[OF that])
      (use thread_reads_args[of "?a (Some fd) (Suc n) s acc" n fd] in \<open>auto intro!: process_step.thread_begins\<close>)
  have "?R (?a None 0 [] [], [], Server_empty, [])"
    by (rule reachable_init) (simp add: process_start_def accept_start_def)
  from accepts[OF this, of 4, THEN accepts, of 5] have "?R (?a (Some 5) 2 [] [4, 5], [], Server_empty, [])"
    by (simp add: numeral_2_eq_2)
  then have "?R (?a (Some 5) 0 [5, 5] [4, 5], [Receiving, Receiving], Server_empty, [])"
    using begins[of 5 "Suc 0" "[]" "[4, 5]" "[]", THEN begins[of 5 0 "[] @ [5]" "[4, 5]"]] by (simp add: numeral_2_eq_2)
  moreover have "service_step (\<lambda>_. 0) conn ([Receiving, Receiving], Server_empty, [])
      ([Receiving, Receiving], Server_empty, [(1, ok_message, Some ok_message)])" for conn
    using service_step.at_once[of 1 "[Receiving, Receiving]" ok_message "\<lambda>_. 0" conn Server_empty "[]"]
    by (simp add: ok_message_def)
  ultimately show ?thesis by (blast intro: reachable_step process_step.thread_serves)
qed

lemma tracker_process_answers_witness:
  "serve_all (\<lambda>_. 0) (\<lambda>_. example_connection) [(1, ok_message)] Server_empty = Some ([Some ok_message], Server_empty)"
proof -
  have "conn_of (\<lambda>_. example_connection) a = (\<lambda>_. example_connection)" for a
    by (simp add: conn_of_def fun_eq_iff)
  then show ?thesis
    using tracker_process_answers [OF example_process]
    by (simp add: requests_def replies_def del: serve_all.simps)
qed

section \<open>A lost connection\<close>

text \<open>A connection that another has overtaken in the shared argument stays unserved.\<close>

definition overtaken :: "nat \<Rightarrow> accept_state \<Rightarrow> bool" where
  "overtaken fd a \<longleftrightarrow> fd \<in> set (accepted a) \<and> fd \<notin> set (serving a) \<and> args_connFd a \<noteq> Some fd"

lemma accept_step_overtaken: "accept_step a a' \<Longrightarrow> overtaken fd a \<Longrightarrow> overtaken fd a'"
  by (elim accept_stepE) (auto simp: overtaken_def)

lemma process_step_overtaken:
  "process_step std_hash peer s t \<Longrightarrow> overtaken fd (fst s) \<Longrightarrow> overtaken fd (fst t)"
  by (induction rule: process_step.induct) (auto intro: accept_step_overtaken)

text \<open>
  C20. Once the accept loop has taken the next connection before the thread of the last one read its
  argument, that last one is lost: whatever else happens, no thread serves it and no message of its
  client is ever dealt with.
\<close>

theorem overtaken_connection_lost:
  assumes "reachable process_start (process_step std_hash peer) s" and "overtaken fd (fst s)"
    and "(process_step std_hash peer)\<^sup>*\<^sup>* s (a, ps, db, log)"
  shows "fd \<in> set (accepted a) \<and> fd \<notin> set (serving a) \<and> fd \<notin> (\<lambda>w. serving a ! w) ` fst ` set log"
proof -
  have "overtaken fd (fst (a, ps, db, log))"
    using rtranclp_keeps[OF assms(3), of "\<lambda>s. overtaken fd (fst s)"] assms(2) process_step_overtaken by blast
  then have lost: "fd \<in> set (accepted a)" "fd \<notin> set (serving a)" by (simp_all add: overtaken_def)
  have "reachable process_start (process_step std_hash peer) (a, ps, db, log)"
    using rtranclp_keeps[OF assms(3), of "reachable process_start (process_step std_hash peer)"] assms(1)
    by (blast intro: reachable_step)
  note runs = runs_as_serviceD[OF process_runs_as_service[OF this]]
  have "serving a ! w \<in> set (serving a)" if "w \<in> fst ` set log" for w
    using that runs(1,2) by auto
  then show ?thesis using lost by blast
qed

lemma overtaken_connection_lost_witness:
  "4 \<in> set [4, 5 :: nat] \<and> 4 \<notin> set [5, 5 :: nat]"
  using overtaken_connection_lost [OF example_process, of 4] by (auto simp: overtaken_def)

end
