(* ===== verification/File_Calls.thy ===== *)
theory File_Calls
  imports Client_File
begin

text \<open>
  The public interface of \<open>client/file/File.h\<close> as a whole, with the getters of \<open>File\<close>, \<open>Segment\<close> and
  \<open>PeerInfo\<close>: what any sequence of calls on a file keeps of its structure, and what each call can
  return on it.
\<close>

section \<open>Getters\<close>

definition Segment_getDataPtr :: "segment \<Rightarrow> int" where "Segment_getDataPtr s = segData s"

definition Segment_getId :: "segment \<Rightarrow> id" where "Segment_getId s = segId s"

definition Segment_getSegmentState :: "segment \<Rightarrow> segment_state" where "Segment_getSegmentState s = segState s"

definition PeerInfo_getId :: "peer_info \<Rightarrow> id" where "PeerInfo_getId p = peerId p"

definition getIpV4Address :: "peer_info \<Rightarrow> ip_string" where "getIpV4Address p = ipV4Address p"

definition getIpV6Address :: "peer_info \<Rightarrow> ip_string" where "getIpV6Address p = ipV6Address p"

definition PeerInfo_getPort :: "peer_info \<Rightarrow> int" where "PeerInfo_getPort p = peerPort p"

definition getSize :: "file_obj \<Rightarrow> int" where "getSize f = fileSize f"

definition getTorrent :: "file_obj \<Rightarrow> torrent" where "getTorrent f = fileTorrent f"

definition getPeers :: "file_obj \<Rightarrow> peer_info list" where "getPeers f = peers f"

definition getNumOfSegments :: "file_obj \<Rightarrow> int" where "getNumOfSegments f = numOfSegments f"

definition getPath :: "file_obj \<Rightarrow> string" where "getPath f = filePath f"

definition getDataBegin :: "file_obj \<Rightarrow> int" where "getDataBegin f = dataBegin f"

lemmas getter_defs = Segment_getDataPtr_def Segment_getId_def Segment_getSegmentState_def PeerInfo_getId_def
  getIpV4Address_def getIpV6Address_def PeerInfo_getPort_def getSize_def getTorrent_def getPeers_def
  getNumOfSegments_def getPath_def getDataBegin_def

section \<open>Calls and their values\<close>

datatype file_call =
    Call_isComplete | Call_getSegment id | Call_getId | Call_getTorrent | Call_getPath | Call_getPeers
  | Call_getNumOfSegments | Call_getSize | Call_getDataBegin | Call_addPeer peer_info
  | Call_getSegmentState id | Call_setSegmentState id segment_state | Call_tryToSet id

datatype file_value =
    V_void | V_bool bool | V_int int | V_string string | V_state segment_state | V_segment segment
  | V_torrent torrent | V_peers "peer_info list"

definition giving :: "('a \<Rightarrow> file_value) \<Rightarrow> (file_obj, 'a) op \<Rightarrow> (file_obj, file_value) op" where
  "giving v a = andThen a (\<lambda>x. ret (v x))"

fun run_file_call :: "file_call \<Rightarrow> (file_obj, file_value) op" where
  "run_file_call Call_isComplete = giving V_bool isComplete"
| "run_file_call (Call_getSegment i) = giving V_segment (getSegment i)"
| "run_file_call Call_getId = giving V_int (gets File_getId)"
| "run_file_call Call_getTorrent = giving V_torrent (gets getTorrent)"
| "run_file_call Call_getPath = giving V_string (gets getPath)"
| "run_file_call Call_getPeers = giving V_peers (gets getPeers)"
| "run_file_call Call_getNumOfSegments = giving V_int (gets getNumOfSegments)"
| "run_file_call Call_getSize = giving V_int (gets getSize)"
| "run_file_call Call_getDataBegin = giving V_int (gets getDataBegin)"
| "run_file_call (Call_addPeer p) = giving (\<lambda>_. V_void) (addPeer p)"
| "run_file_call (Call_getSegmentState i) = giving V_state (getSegmentState i)"
| "run_file_call (Call_setSegmentState i st) = giving (\<lambda>_. V_void) (setSegmentState i st)"
| "run_file_call (Call_tryToSet i) = giving V_bool (tryToSetStateSegmentStateToDownload i)"

text \<open>The segment a call names, if it names one.\<close>

fun segment_named :: "file_call \<Rightarrow> id option" where
  "segment_named (Call_getSegment i) = Some i"
| "segment_named (Call_getSegmentState i) = Some i"
| "segment_named (Call_setSegmentState i st) = Some i"
| "segment_named (Call_tryToSet i) = Some i"
| "segment_named _ = None"

section \<open>Well-formed files\<close>

text \<open>
  The structure the constructor gives a file of a torrent: everything but the states of the segments,
  the peers and the flag is fixed by the torrent and the path.
\<close>

definition segment_at :: "nat \<Rightarrow> segment \<Rightarrow> bool" where
  "segment_at k s \<longleftrightarrow> segId s = int k \<and> segData s = DEFAULTSEGMENTSIZE * int k"

definition wf_file :: "torrent \<Rightarrow> string \<Rightarrow> file_obj \<Rightarrow> bool" where
  "wf_file t path f \<longleftrightarrow>
     fileTorrent f = t \<and> filePath f = path \<and> fileSize f = int_of_u32 (tsize t) \<and> dataBegin f = 0 \<and>
     length (segments f) = nat (segment_count (int_of_u32 (tsize t))) \<and>
     numOfSegments f = int (length (segments f)) \<and> (\<forall>k < length (segments f). segment_at k (segments f ! k))"

text \<open>The values a call can return on such a file.\<close>

fun value_of_call :: "torrent \<Rightarrow> string \<Rightarrow> file_call \<Rightarrow> file_value \<Rightarrow> bool" where
  "value_of_call t path Call_isComplete v \<longleftrightarrow> (\<exists>b. v = V_bool b)"
| "value_of_call t path (Call_getSegment i) v \<longleftrightarrow> (\<exists>s. v = V_segment s \<and> segment_at (nat i) s \<and> 0 \<le> i)"
| "value_of_call t path Call_getId v \<longleftrightarrow> v = V_int (id_of_hash (hashed t))"
| "value_of_call t path Call_getTorrent v \<longleftrightarrow> v = V_torrent t"
| "value_of_call t path Call_getPath v \<longleftrightarrow> v = V_string path"
| "value_of_call t path Call_getPeers v \<longleftrightarrow> (\<exists>ps. v = V_peers ps)"
| "value_of_call t path Call_getNumOfSegments v \<longleftrightarrow>
     v = V_int (int (nat (segment_count (int_of_u32 (tsize t)))))"
| "value_of_call t path Call_getSize v \<longleftrightarrow> v = V_int (int_of_u32 (tsize t))"
| "value_of_call t path Call_getDataBegin v \<longleftrightarrow> v = V_int 0"
| "value_of_call t path (Call_addPeer p) v \<longleftrightarrow> v = V_void"
| "value_of_call t path (Call_getSegmentState i) v \<longleftrightarrow> (\<exists>st. v = V_state st)"
| "value_of_call t path (Call_setSegmentState i st) v \<longleftrightarrow> v = V_void \<and> st \<noteq> DOWNLOADING"
| "value_of_call t path (Call_tryToSet i) v \<longleftrightarrow> (\<exists>b. v = V_bool b)"

lemma wf_file_new: "wf_file t path (File t path)"
  by (simp add: wf_file_def File_def Let_def generateSegments_def File_default_def segment_at_def
      Segment_def)

lemma wf_file_peers: "wf_file t path f \<Longrightarrow> wf_file t path (f\<lparr>peers := ps\<rparr>)"
  and wf_file_flag: "wf_file t path f \<Longrightarrow> wf_file t path (f\<lparr>isCompleted := b\<rparr>)"
  by (simp_all add: wf_file_def)

lemma wf_file_state:
  assumes "wf_file t path f"
  shows "wf_file t path (f\<lparr>segments := (segments f)[k := Segment_setState st (segments f ! k)]\<rparr>)"
proof -
  have "segment_at j ((segments f)[k := Segment_setState st (segments f ! k)] ! j)"
    if "segment_at j (segments f ! j)" for j
    using that by (cases "j = k"; cases "k < length (segments f)")
      (simp_all add: segment_at_def Segment_setState_def list_update_beyond)
  with assms show ?thesis by (simp add: wf_file_def)
qed

lemmas wf_file_updates = wf_file_peers wf_file_flag wf_file_state

text \<open>Preservation: no call changes the structure, however it ends.\<close>

lemma run_file_call_wf:
  "wf_file t path f \<Longrightarrow> run_file_call c f = (r, f') \<Longrightarrow> wf_file t path f'"
  by (cases c)
    (auto simp: giving_def andThen_def isComplete_def Let_def getSegment_def addPeer_def
      getSegmentState_def setSegmentState_def tryToSetStateSegmentStateToDownload_def wf_file_updates
      split: if_splits)

text \<open>Progress: what a call can come to.\<close>

lemma run_file_call_value:
  "wf_file t path f \<Longrightarrow> run_file_call c f = (Inr v, f') \<Longrightarrow> value_of_call t path c v"
  by (cases c)
    (auto simp: giving_def andThen_def isComplete_def Let_def getSegment_def addPeer_def
      getSegmentState_def setSegmentState_def tryToSetStateSegmentStateToDownload_def getter_defs
      wf_file_def File_getId_def Segment_copy_def segment_at_def inRange_def split: if_splits)

lemma run_file_call_fault:
  "run_file_call c f = (Inl e, f') \<Longrightarrow>
    (e = Undefined OutOfBounds \<and> (\<exists>i. segment_named c = Some i \<and> \<not> inRange i (segments f))) \<or>
    (e = Thrown ''logic_error'' \<and> (\<exists>i. c = Call_setSegmentState i DOWNLOADING \<and> inRange i (segments f)))"
  by (cases c)
    (auto simp: giving_def andThen_def isComplete_def Let_def getSegment_def addPeer_def
      getSegmentState_def setSegmentState_def tryToSetStateSegmentStateToDownload_def split: if_splits)

text \<open>Any history of calls that stays clear of undefined behaviour.\<close>

inductive file_call_step :: "file_obj \<Rightarrow> file_obj \<Rightarrow> bool" where
  file_called: "run_file_call c f = (r, f') \<Longrightarrow> (\<And>u. r \<noteq> Inl (Undefined u)) \<Longrightarrow> file_call_step f f'"

definition fresh_file :: "torrent \<Rightarrow> string \<Rightarrow> file_obj \<Rightarrow> bool" where
  "fresh_file t path f \<longleftrightarrow> f = File t path"

interpretation file_calls: invariant_system "fresh_file t path" file_call_step "wf_file t path" for t path
  by unfold_locales (auto simp: fresh_file_def wf_file_new elim!: file_call_step.cases dest: run_file_call_wf)

text \<open>
  C22. Calls on a file are type sound. After any history of calls, a call returns a value of its own kind
  (the segment at its place, the torrent, path, size and number of segments of the file's
  creation), unless the segment it names is out of range or it is \<open>setSegmentState\<close> to \<open>DOWNLOADING\<close>,
  which throws; and the structure of the file is as the constructor made it, also after the throw.
\<close>

theorem file_calls_sound:
  assumes "reachable (fresh_file t path) file_call_step f"
  shows "\<exists>r f'. run_file_call c f = (r, f') \<and> wf_file t path f' \<and>
    (case r of Inr v \<Rightarrow> value_of_call t path c v
     | Inl e \<Rightarrow> e = Undefined OutOfBounds \<and>
           (\<exists>i. segment_named c = Some i \<and> (i < 0 \<or> segment_count (int_of_u32 (tsize t)) \<le> i)) \<or>
         e = Thrown ''logic_error'' \<and> (\<exists>i. c = Call_setSegmentState i DOWNLOADING))"
proof -
  have wf: "wf_file t path f" using assms by (rule file_calls.reachable_inv)
  obtain r f' where run: "run_file_call c f = (r, f')" by fastforce
  have "i < 0 \<or> segment_count (int_of_u32 (tsize t)) \<le> i" if "\<not> inRange i (segments f)" for i
    using that wf by (auto simp: inRange_def wf_file_def split: if_splits)
  then show ?thesis
    using run run_file_call_wf[OF wf run] run_file_call_value[OF wf] run_file_call_fault[of c f]
    by (fastforce split: sum.split)
qed

lemma file_calls_sound_witness:
  "\<exists>r f'. run_file_call (Call_setSegmentState 0 DOWNLOADING) (File (Torrent_hashed 3 8000 ''f'') ''f'') = (r, f') \<and>
    wf_file (Torrent_hashed 3 8000 ''f'') ''f'' f' \<and>
    (case r of Inr v \<Rightarrow> value_of_call (Torrent_hashed 3 8000 ''f'') ''f'' (Call_setSegmentState 0 DOWNLOADING) v
     | Inl e \<Rightarrow> e = Undefined OutOfBounds \<and>
           (\<exists>i. segment_named (Call_setSegmentState 0 DOWNLOADING) = Some i \<and>
             (i < 0 \<or> segment_count (int_of_u32 (tsize (Torrent_hashed 3 8000 ''f''))) \<le> i)) \<or>
         e = Thrown ''logic_error'' \<and>
           (\<exists>i. Call_setSegmentState 0 DOWNLOADING = Call_setSegmentState i DOWNLOADING))"
  by (rule file_calls_sound, rule reachable_init) (simp add: fresh_file_def)

end
