(* ===== verification/Parallel_Download.thy ===== *)
theory Parallel_Download
  imports Download
begin

text \<open>
  The loop of \<open>DownloadWorker::work\<close> run by several workers on one file: each call on the shared
  \<open>File\<close> and \<open>FileManager\<close> is one step, and the steps of the workers interleave in any order. Peers may
  fail, list what they like and repeat themselves; an answer that is not \<open>F_ERROR\<close> carries the bytes
  of the fragment asked for (\<open>data\<close>): these are the runs that can end well. Peers that send other bytes, or
  list fragments the file does not have, are in \<open>Any_Answers\<close>. A store is one step here; that its bytes may reach the disk
  in pieces between the steps of others changes nothing (\<open>Parallel_Stores\<close>).
\<close>

section \<open>Workers\<close>

datatype worker_pc =
    At "32 word list"                               \<comment> \<open>about to claim the first fragment left\<close>
  | Fetching "32 word" "32 word list"
  | Storing "32 word" string "32 word list"
  | Marking "32 word" segment_state "32 word list"

text \<open>The segment a worker has claimed and not yet given back.\<close>

fun busy_with :: "worker_pc \<Rightarrow> id option" where
  "busy_with (At ks) = None"
| "busy_with (Fetching k ks) = Some (int_of_u32 k)"
| "busy_with (Storing k d ks) = Some (int_of_u32 k)"
| "busy_with (Marking k st ks) = Some (int_of_u32 k)"

type_synonym download_state = "worker_pc list \<times> file_obj \<times> file_manager"

inductive download_step :: "(nat \<Rightarrow> string) \<Rightarrow> download_state \<Rightarrow> download_state \<Rightarrow> bool"
  for data :: "nat \<Rightarrow> string" where
  claims: "w < length ps \<Longrightarrow> ps ! w = At (k # ks) \<Longrightarrow>
    tryToSetStateSegmentStateToDownload (int_of_u32 k) f = (Inr True, f') \<Longrightarrow>
    download_step data (ps, f, m) (ps[w := Fetching k ks], f', m)"
| skips: "w < length ps \<Longrightarrow> ps ! w = At (k # ks) \<Longrightarrow>
    tryToSetStateSegmentStateToDownload (int_of_u32 k) f = (Inr False, f') \<Longrightarrow>
    download_step data (ps, f, m) (ps[w := At ks], f', m)"
| receives: "w < length ps \<Longrightarrow> ps ! w = Fetching k ks \<Longrightarrow> frs_fileCode (r :: fragment_response) \<noteq> F_ERROR \<Longrightarrow>
    frs_fragment r = data (nat (int_of_u32 k)) \<Longrightarrow>
    download_step data (ps, f, m) (ps[w := Storing k (frs_fragment r) ks], f, m)"
| gives_up: "w < length ps \<Longrightarrow> ps ! w = Fetching k ks \<Longrightarrow> frs_fileCode (r :: fragment_response) = F_ERROR \<Longrightarrow>
    download_step data (ps, f, m) (ps[w := Marking k FREE ks], f, m)"
| stores: "w < length ps \<Longrightarrow> ps ! w = Storing k d ks \<Longrightarrow>
    storeSegmentToFile (fileName (fileTorrent f)) (filePath f) (int_of_u32 k) d m = Some (Inr u, m') \<Longrightarrow>
    download_step data (ps, f, m) (ps[w := Marking k COMPLETE ks], f, m')"
| marks: "w < length ps \<Longrightarrow> ps ! w = Marking k st ks \<Longrightarrow>
    setSegmentState (int_of_u32 k) st f = (Inr u, f') \<Longrightarrow>
    download_step data (ps, f, m) (ps[w := At ks], f', m)"

text \<open>
  The start: a new file of less than 2 GiB, its file on disk made by \<open>createLocalFile\<close>, no locks,
  and any number of workers with any lists of fragments.
\<close>

definition download_start :: "(nat \<Rightarrow> string) \<Rightarrow> torrent \<Rightarrow> download_state \<Rightarrow> bool" where
  "download_start data t s \<longleftrightarrow>
     (\<forall>i. length (data i) = 8000) \<and> tsize t < 2 ^ 31 \<and>
     (\<exists>lists path m. s = (map At lists, File t path, createLocalFile t m) \<and>
        unlocked (fileName t) m \<and> accessible (disk m) (c_str (fileName t)))"

section \<open>What every interleaving keeps\<close>

text \<open>Claims: a claimed segment is \<open>DOWNLOADING\<close>, and no two workers hold one.\<close>

definition holder :: "worker_pc list \<Rightarrow> nat \<Rightarrow> id \<Rightarrow> bool" where
  "holder ps w i \<longleftrightarrow> w < length ps \<and> busy_with (ps ! w) = Some i"

definition claims_inv :: "worker_pc list \<Rightarrow> file_obj \<Rightarrow> bool" where
  "claims_inv ps f \<longleftrightarrow>
     (\<forall>w i. holder ps w i \<longrightarrow> segment_state_of f i = Some DOWNLOADING) \<and>
     (\<forall>w v i. holder ps w i \<longrightarrow> holder ps v i \<longrightarrow> w = v)"

text \<open>The bytes of a segment are on disk.\<close>

definition on_disk :: "(nat \<Rightarrow> string) \<Rightarrow> string \<Rightarrow> nat \<Rightarrow> bool" where
  "on_disk data bs i \<longleftrightarrow> block i bs = data i \<and> Suc i * 8000 \<le> length bs"

definition disk_inv :: "(nat \<Rightarrow> string) \<Rightarrow> torrent \<Rightarrow> nat \<Rightarrow> download_state \<Rightarrow> bool" where
  "disk_inv data t n s \<longleftrightarrow>
     (case s of (ps, f, m) \<Rightarrow>
       (\<exists>bs. openable (fileName t) bs m \<and> length bs \<le> n * 8000 \<and>
         (\<forall>i. segment_state_of f i = Some COMPLETE \<longrightarrow> on_disk data bs (nat i)) \<and>
         (\<forall>k ks. Marking k COMPLETE ks \<in> set ps \<longrightarrow> on_disk data bs (nat (int_of_u32 k)))) \<and>
       (\<forall>k d ks. Storing k d ks \<in> set ps \<longrightarrow> d = data (nat (int_of_u32 k))))"

definition frame_inv :: "(nat \<Rightarrow> string) \<Rightarrow> torrent \<Rightarrow> nat \<Rightarrow> download_state \<Rightarrow> bool" where
  "frame_inv data t n s \<longleftrightarrow>
     (case s of (ps, f, m) \<Rightarrow>
       fileTorrent f = t \<and> unlocked (fileName t) m \<and> (\<forall>i. length (data i) = 8000) \<and>
       (\<forall>i. segment_state_of f i \<noteq> None \<longleftrightarrow> 0 \<le> i \<and> i < int n) \<and> (\<forall>i<n. int i * 8000 < 2 ^ 31))"

definition download_inv :: "(nat \<Rightarrow> string) \<Rightarrow> torrent \<Rightarrow> nat \<Rightarrow> download_state \<Rightarrow> bool" where
  "download_inv data t n s \<longleftrightarrow>
     claims_inv (fst s) (fst (snd s)) \<and> disk_inv data t n s \<and> frame_inv data t n s"

lemma claim_True:
  assumes "tryToSetStateSegmentStateToDownload i f = (Inr True, f')"
  shows "segment_state_of f i = Some FREE" and "segment_state_of f' = (segment_state_of f)(i \<mapsto> DOWNLOADING)"
    and "fileTorrent f' = fileTorrent f"
proof -
  show free: "segment_state_of f i = Some FREE"
    using file_segments.claim_iff[of i f] assms by simp
  show "segment_state_of f' = (segment_state_of f)(i \<mapsto> DOWNLOADING)"
    using file_segments.claim_free[OF free] assms by auto
  show "fileTorrent f' = fileTorrent f"
    using assms by (auto simp: tryToSetStateSegmentStateToDownload_def split: if_splits)
qed

lemma claim_False: "tryToSetStateSegmentStateToDownload i f = (Inr False, f') \<Longrightarrow> f' = f"
  by (auto simp: tryToSetStateSegmentStateToDownload_def split: if_splits)

lemma set_state_ok:
  assumes "setSegmentState i st f = (Inr u, f')"
  shows "segment_state_of f' = (segment_state_of f)(i \<mapsto> st)" and "segment_state_of f i \<noteq> None"
    and "fileTorrent f' = fileTorrent f" and "st \<noteq> DOWNLOADING"
proof -
  show known: "segment_state_of f i \<noteq> None"
    using file_segments.put_bad[of f i st] assms by auto
  then obtain y where y: "segment_state_of f i = Some y" by auto
  show st: "st \<noteq> DOWNLOADING" using file_segments.put_downloading[OF y] assms by auto
  show "segment_state_of f' = (segment_state_of f)(i \<mapsto> st)"
    using file_segments.put_ok[OF y st] assms by auto
  show "fileTorrent f' = fileTorrent f"
    using assms by (auto simp: setSegmentState_def Let_def split: if_splits)
qed

lemma holder_update:
  "w < length ps \<Longrightarrow>
   holder (ps[w := p]) v i \<longleftrightarrow> (if v = w then busy_with p = Some i else holder ps v i)"
  by (auto simp: holder_def)

lemma claims_inv_same:
  assumes "claims_inv ps f" and "w < length ps" and "busy_with p = busy_with (ps ! w)"
  shows "claims_inv (ps[w := p]) f"
proof -
  have "holder (ps[w := p]) v i = holder ps v i" for v i
    unfolding holder_update[OF assms(2)] using assms(2,3) by (auto simp: holder_def)
  with assms(1) show ?thesis by (simp add: claims_inv_def)
qed

lemma claims_inv_idle:
  assumes "claims_inv ps f" and "w < length ps" and "busy_with p = None"
  shows "claims_inv (ps[w := p]) f"
  using assms unfolding claims_inv_def by (simp add: holder_update)

lemma claims_inv_claim:
  assumes "claims_inv ps f" and "w < length ps" and "busy_with p = Some i"
    and "segment_state_of f i = Some FREE" and "segment_state_of f' = (segment_state_of f)(i \<mapsto> DOWNLOADING)"
  shows "claims_inv (ps[w := p]) f'"
proof -
  have "\<not> holder ps v i" for v
    using assms(1,4) unfolding claims_inv_def by fastforce
  then show ?thesis
    using assms unfolding claims_inv_def by (auto simp: holder_update)
qed

lemma claims_inv_release:
  assumes "claims_inv ps f" and "w < length ps" and "busy_with (ps ! w) = Some i"
    and "busy_with p = None" and "segment_state_of f' = (segment_state_of f)(i \<mapsto> st)"
  shows "claims_inv (ps[w := p]) f'"
proof -
  have "\<not> holder ps v i" if "v \<noteq> w" for v
    using assms(1-3) that unfolding claims_inv_def holder_def by blast
  then show ?thesis
    using assms unfolding claims_inv_def by (auto simp: holder_update split: if_splits)
qed

lemma download_step_claims:
  "download_step data s s' \<Longrightarrow> claims_inv (fst s) (fst (snd s)) \<Longrightarrow> claims_inv (fst s') (fst (snd s'))"
proof (induction rule: download_step.induct)
  case (claims w ps k ks f f' m)
  then show ?case using claim_True[OF claims(3)] by (simp add: claims_inv_claim)
next
  case (skips w ps k ks f f' m)
  then show ?case using claim_False[OF skips(3)] by (simp add: claims_inv_idle)
next
  case (marks w ps k st ks f u f' m)
  then show ?case using set_state_ok[OF marks(3)] by (simp add: claims_inv_release)
qed (simp_all add: claims_inv_same)

text \<open>Putting a segment on disk leaves the others there.\<close>

lemma on_disk_put_block:
  assumes "length d = 8000" and "d = data i"
  shows "on_disk data (put_block i d bs) i"
    and "on_disk data bs j \<Longrightarrow> on_disk data (put_block i d bs) j"
proof -
  have len: "length (put_block i d bs) = max (Suc i * 8000) (length bs)"
    using assms(1) by (simp add: put_block_def length_write_at)
  show same: "on_disk data (put_block i d bs) i"
    using assms len by (simp add: on_disk_def block_put_block_same)
  show "on_disk data (put_block i d bs) j" if "on_disk data bs j"
  proof (cases "i = j")
    case True
    with same show ?thesis by simp
  next
    case False
    with that assms(1) len show ?thesis by (simp add: on_disk_def block_put_block_other le_max_iff_disj)
  qed
qed

lemma in_set_updateE:
  assumes "x \<in> set (ps[w := p])" and "x = p \<Longrightarrow> R" and "x \<in> set ps \<Longrightarrow> R"
  shows R
  using set_update_subset_insert[of ps w p] assms by blast

text \<open>A step that neither stores nor marks: the disk's part of the invariant.\<close>

lemma disk_inv_move:
  assumes "disk_inv data t n (ps, f, m)"
    and "\<And>i. segment_state_of f' i = Some COMPLETE \<Longrightarrow> segment_state_of f i = Some COMPLETE"
    and "\<And>k ks. p \<noteq> Marking k COMPLETE ks"
    and "\<And>k d ks. p = Storing k d ks \<Longrightarrow> d = data (nat (int_of_u32 k))"
  shows "disk_inv data t n (ps[w := p], f', m)"
proof -
  obtain bs where bs: "openable (fileName t) bs m" "length bs \<le> n * 8000"
    "\<forall>i. segment_state_of f i = Some COMPLETE \<longrightarrow> on_disk data bs (nat i)"
    "\<forall>k ks. Marking k COMPLETE ks \<in> set ps \<longrightarrow> on_disk data bs (nat (int_of_u32 k))"
    "\<forall>k d ks. Storing k d ks \<in> set ps \<longrightarrow> d = data (nat (int_of_u32 k))"
    using assms(1) by (auto simp: disk_inv_def)
  have "on_disk data bs (nat (int_of_u32 k))" if "Marking k COMPLETE ks \<in> set (ps[w := p])" for k ks
    using that bs(4) assms(3)[of k ks] by (auto elim: in_set_updateE)
  moreover have "d = data (nat (int_of_u32 k))" if "Storing k d ks \<in> set (ps[w := p])" for k d ks
    using that bs(5) assms(4)[of k d ks] by (auto elim: in_set_updateE)
  ultimately show ?thesis
    using bs(1-3) assms(2) unfolding disk_inv_def prod.case by blast
qed

lemma disk_inv_mark:
  assumes "disk_inv data t n (ps, f, m)" and "w < length ps" and "ps ! w = Marking k st ks"
    and "segment_state_of f' = (segment_state_of f)(int_of_u32 k \<mapsto> st)"
  shows "disk_inv data t n (ps[w := At ks], f', m)"
proof -
  obtain bs where bs: "openable (fileName t) bs m" "length bs \<le> n * 8000"
    "\<forall>i. segment_state_of f i = Some COMPLETE \<longrightarrow> on_disk data bs (nat i)"
    "\<forall>k ks. Marking k COMPLETE ks \<in> set ps \<longrightarrow> on_disk data bs (nat (int_of_u32 k))"
    "\<forall>k d ks. Storing k d ks \<in> set ps \<longrightarrow> d = data (nat (int_of_u32 k))"
    using assms(1) by (auto simp: disk_inv_def)
  have "Marking k st ks \<in> set ps" using assms(2,3) by (metis nth_mem)
  then have here: "st = COMPLETE \<Longrightarrow> on_disk data bs (nat (int_of_u32 k))" using bs(4) by blast
  have "on_disk data bs (nat i)" if "segment_state_of f' i = Some COMPLETE" for i
    using that bs(3) here unfolding assms(4) by (cases "i = int_of_u32 k") auto
  moreover have "on_disk data bs (nat (int_of_u32 k'))"
    if "Marking k' COMPLETE ks' \<in> set (ps[w := At ks])" for k' ks'
    using that bs(4) by (auto elim: in_set_updateE)
  moreover have "d = data (nat (int_of_u32 k'))" if "Storing k' d ks' \<in> set (ps[w := At ks])" for k' d ks'
    using that bs(5) by (auto elim: in_set_updateE)
  ultimately show ?thesis using bs(1,2) unfolding disk_inv_def prod.case by blast
qed

lemma disk_inv_store:
  assumes "disk_inv data t n (ps, f, m)" and "w < length ps" and "ps ! w = Storing k d ks"
    and "unlocked (fileName t) m" and "int_of_u32 k = int i" and "i < n" and "int i * 8000 < 2 ^ 31"
    and "length (data i) = 8000"
    and "storeSegmentToFile (fileName t) path (int_of_u32 k) d m = Some (Inr u, m')"
  shows "disk_inv data t n (ps[w := Marking k COMPLETE ks], f, m')"
    and "unlocked (fileName t) m'"
proof -
  obtain bs where bs: "openable (fileName t) bs m" "length bs \<le> n * 8000"
    "\<forall>i. segment_state_of f i = Some COMPLETE \<longrightarrow> on_disk data bs (nat i)"
    "\<forall>k ks. Marking k COMPLETE ks \<in> set ps \<longrightarrow> on_disk data bs (nat (int_of_u32 k))"
    "\<forall>k d ks. Storing k d ks \<in> set ps \<longrightarrow> d = data (nat (int_of_u32 k))"
    using assms(1) by (auto simp: disk_inv_def)
  have "Storing k d ks \<in> set ps" using assms(2,3) by (metis nth_mem)
  then have d: "d = data i" using bs(5) assms(5) by fastforce
  let ?bs = "put_block i d bs"
  have m': "m' = set_file (fileName t) ?bs m"
    using storeSegmentToFile_full[OF assms(4) bs(1) assms(7), of d path] assms(5,8,9) d by simp
  show "unlocked (fileName t) m'" using assms(4) by (simp add: m')
  have opn: "openable (fileName t) ?bs m'" using bs(1) by (simp add: m' openable_def)
  have "Suc i * 8000 \<le> n * 8000" using assms(6) by (intro mult_le_mono1) simp
  then have len: "length ?bs \<le> n * 8000"
    using bs(2) assms(8) d by (simp add: put_block_def length_write_at)
  have length_d: "length d = 8000" using d assms(8) by simp
  note keep = on_disk_put_block(2)[where data = data and i = i and bs = bs, OF length_d d]
  have complete: "on_disk data ?bs (nat j)" if "segment_state_of f j = Some COMPLETE" for j
    using that bs(3) keep by blast
  have marking: "on_disk data ?bs (nat (int_of_u32 k'))"
    if "Marking k' COMPLETE ks' \<in> set (ps[w := Marking k COMPLETE ks])" for k' ks'
    using that
  proof (rule in_set_updateE)
    assume "Marking k' COMPLETE ks' = Marking k COMPLETE ks"
    then show ?thesis using on_disk_put_block(1)[where data = data and i = i, OF length_d d] assms(5) by simp
  next
    assume "Marking k' COMPLETE ks' \<in> set ps"
    then show ?thesis using bs(4) keep by blast
  qed
  have "d' = data (nat (int_of_u32 k'))"
    if "Storing k' d' ks' \<in> set (ps[w := Marking k COMPLETE ks])" for k' d' ks'
    using that bs(5) by (auto elim: in_set_updateE)
  with opn len complete marking
  show "disk_inv data t n (ps[w := Marking k COMPLETE ks], f, m')"
    unfolding disk_inv_def prod.case by blast
qed

lemma frame_inv_states:
  assumes "frame_inv data t n (ps, f, m)" and "fileTorrent f' = fileTorrent f"
    and "\<And>i. segment_state_of f' i = None \<longleftrightarrow> segment_state_of f i = None"
  shows "frame_inv data t n (ps', f', m)"
  using assms by (simp add: frame_inv_def del: not_None_eq)

lemma held_segment:
  assumes "claims_inv ps f" and "frame_inv data t n (ps, f, m)" and "w < length ps"
    and "busy_with (ps ! w) = Some (int_of_u32 k)"
  obtains i where "int_of_u32 k = int i" and "i < n" and "int i * 8000 < 2 ^ 31"
proof -
  have "segment_state_of f (int_of_u32 k) = Some DOWNLOADING"
    using assms(1,3,4) by (auto simp: claims_inv_def holder_def)
  then have "0 \<le> int_of_u32 k \<and> int_of_u32 k < int n"
    using assms(2) unfolding frame_inv_def prod.case by (metis option.distinct(1))
  then have "int_of_u32 k = int (nat (int_of_u32 k))" "nat (int_of_u32 k) < n" by auto
  with assms(2) that show thesis unfolding frame_inv_def prod.case by blast
qed

lemma download_step_inv:
  "download_step data s s' \<Longrightarrow> download_inv data t n s \<Longrightarrow> download_inv data t n s'"
proof (induction rule: download_step.induct)
  case (claims w ps k ks f f' m)
  note c = claim_True[OF claims(3)]
  have "claims_inv (ps[w := Fetching k ks]) f'"
    using download_step_claims[OF download_step.claims[OF claims(1-3)]] claims.prems
    by (simp add: download_inv_def)
  moreover have "disk_inv data t n (ps[w := Fetching k ks], f', m)"
    by (rule disk_inv_move) (use claims.prems c in \<open>auto simp: download_inv_def split: if_splits\<close>)
  moreover have "frame_inv data t n (ps[w := Fetching k ks], f', m)"
    by (rule frame_inv_states) (use claims.prems c in \<open>auto simp: download_inv_def\<close>)
  ultimately show ?case by (simp add: download_inv_def)
next
  case (skips w ps k ks f f' m)
  have f': "f' = f" using claim_False[OF skips(3)] .
  have "disk_inv data t n (ps[w := At ks], f', m)"
    by (rule disk_inv_move) (use skips.prems f' in \<open>auto simp: download_inv_def\<close>)
  then show ?case
    using skips.prems f' skips(1) by (simp add: download_inv_def claims_inv_idle frame_inv_def)
next
  case (receives w ps k ks r f m)
  have "disk_inv data t n (ps[w := Storing k (frs_fragment r) ks], f, m)"
    by (rule disk_inv_move) (use receives in \<open>auto simp: download_inv_def\<close>)
  then show ?case
    using receives by (simp add: download_inv_def claims_inv_same frame_inv_def)
next
  case (gives_up w ps k ks r f m)
  have "disk_inv data t n (ps[w := Marking k FREE ks], f, m)"
    by (rule disk_inv_move) (use gives_up in \<open>auto simp: download_inv_def\<close>)
  then show ?case
    using gives_up by (simp add: download_inv_def claims_inv_same frame_inv_def)
next
  case (stores w ps k d ks f m u m')
  have inv: "claims_inv ps f" "frame_inv data t n (ps, f, m)" "disk_inv data t n (ps, f, m)"
    using stores.prems by (simp_all add: download_inv_def)
  then have frame: "fileTorrent f = t" "unlocked (fileName t) m" "\<And>i. length (data i) = 8000"
    by (simp_all add: frame_inv_def)
  have "busy_with (ps ! w) = Some (int_of_u32 k)" using stores(2) by simp
  from held_segment[OF inv(1,2) stores(1) this]
  obtain i where i: "int_of_u32 k = int i" "i < n" "int i * 8000 < 2 ^ 31" .
  note st = disk_inv_store[OF inv(3) stores(1,2) frame(2) i frame(3) stores(3)[unfolded frame(1)]]
  have "claims_inv (ps[w := Marking k COMPLETE ks]) f"
    by (rule claims_inv_same) (use inv(1) stores(1,2) in simp_all)
  then show ?case
    using st inv(2) by (simp add: download_inv_def frame_inv_def)
next
  case (marks w ps k st ks f u f' m)
  note s = set_state_ok[OF marks(3)]
  have "claims_inv (ps[w := At ks]) f'"
    using download_step_claims[OF download_step.marks[OF marks(1-3)]] marks.prems
    by (simp add: download_inv_def)
  moreover have "disk_inv data t n (ps[w := At ks], f', m)"
    using marks.prems by (intro disk_inv_mark[OF _ marks(1,2) s(1)]) (simp add: download_inv_def)
  moreover have "frame_inv data t n (ps[w := At ks], f', m)"
    by (rule frame_inv_states) (use marks.prems s in \<open>auto simp: download_inv_def\<close>)
  ultimately show ?case by (simp add: download_inv_def)
qed

definition segments_of :: "torrent \<Rightarrow> nat" where
  "segments_of t = nat (segment_count (int_of_u32 (tsize t)))"

lemma length_segments_File [simp]: "length (segments (File t path)) = segments_of t"
  by (simp add: File_segments segments_of_def)

lemma segments_of_bounds:
  assumes "tsize t < 2 ^ 31"
  shows "unat (tsize t) \<le> segments_of t * 8000" and "segments_of t * 8000 < unat (tsize t) + 8000"
proof -
  have "int (unat (tsize t)) \<le> 8000 * int (segments_of t)"
    using File_segment_bounds(2)[OF assms, of "[]"] by simp
  then show "unat (tsize t) \<le> segments_of t * 8000" by linarith
  show "segments_of t * 8000 < unat (tsize t) + 8000"
  proof (cases "segments_of t")
    case (Suc k)
    then have "8000 * int k < int (unat (tsize t))"
      using File_segment_bounds(1)[OF assms, of k "[]"] by simp
    with Suc show ?thesis by linarith
  qed simp
qed

lemma download_start_inv:
  assumes "download_start data t s"
  shows "download_inv data t (segments_of t) s"
proof -
  obtain lists path m where s: "s = (map At lists, File t path, createLocalFile t m)"
    and m: "unlocked (fileName t) m" "accessible (disk m) (c_str (fileName t))"
    and t: "tsize t < 2 ^ 31" and data: "\<forall>i. length (data i) = 8000"
    using assms by (auto simp: download_start_def)
  let ?f = "File t path" and ?n = "segments_of t"
  have state: "segment_state_of ?f i = (if 0 \<le> i \<and> i < int ?n then Some FREE else None)" for i
    using File_segment_bounds(3)[OF t, of "nat i" path]
    by (auto simp: segment_state_of_def inRange_def)
  have size: "uint (tsize t) < 2 ^ 31" using t by (simp add: word_less_def)
  have "int i * 8000 < 2 ^ 31" if "i < ?n" for i
    using File_segment_bounds(1)[OF t, of i path] that size by simp
  then have "frame_inv data t ?n s"
    using m data by (simp add: s frame_inv_def state File_segments)
  moreover have "claims_inv (map At lists) ?f"
    by (auto simp: claims_inv_def holder_def)
  moreover have "disk_inv data t ?n s"
  proof -
    show ?thesis
      using segments_of_bounds(1)[OF t] openable_createLocalFile[OF m(2)]
      by (auto simp: s disk_inv_def state split: if_splits)
  qed
  ultimately show ?thesis by (simp add: download_inv_def s)
qed

interpretation parallel_download: invariant_system "download_start data t" "download_step data"
  "download_inv data t (segments_of t)" for data t
  by unfold_locales (blast intro: download_start_inv download_step_inv)+

section \<open>A run with one worker\<close>

definition one_torrent :: torrent where
  "one_torrent = Torrent_hashed 3 8000 ''f''"

definition one_data :: "nat \<Rightarrow> string" where
  "one_data i = replicate 8000 CHR ''a''"

definition one_manager :: file_manager where
  "one_manager = createLocalFile one_torrent (example_manager [])"

lemma one_file: "free_segment (File one_torrent ''f'') 0"
  by (simp add: one_torrent_def example_file_eq free_segment_def example_file_def Segment_def)

lemma one_init: "download_start one_data one_torrent ([At [0]], File one_torrent ''f'', one_manager)"
proof -
  have "unlocked ''f'' (example_manager [])" "accessible (disk (example_manager [])) ''f''"
    by (simp_all add: example_manager_def FileManager_def unlocked_def readLocked_def writeLocked_def)
  then show "download_start one_data one_torrent ([At [0]], File one_torrent ''f'', one_manager)"
    unfolding download_start_def one_manager_def
    by (intro conjI exI[of _ "[[0]]"] exI[of _ "''f''"] exI[of _ "example_manager []"])
      (simp_all add: one_data_def one_torrent_def Torrent_hashed_def)
qed

lemmas one_start = reachable_init[where init = "download_start one_data one_torrent"
  and step = "download_step one_data", OF one_init]

lemma one_steps:
  "download_step one_data ([At [0]], File one_torrent ''f'', one_manager)
     ([Fetching 0 []], claimed 0 (File one_torrent ''f''), one_manager)"
  "download_step one_data ([Fetching 0 []], claimed 0 (File one_torrent ''f''), one_manager)
     ([Storing 0 (one_data 0) []], claimed 0 (File one_torrent ''f''), one_manager)"
  "download_step one_data ([Storing 0 (one_data 0) []], claimed 0 (File one_torrent ''f''), one_manager)
     ([Marking 0 COMPLETE []], claimed 0 (File one_torrent ''f''),
      set_file ''f'' (put_block 0 (one_data 0) (replicate 8000 NUL)) one_manager)"
  "download_step one_data ([Marking 0 COMPLETE []], claimed 0 (File one_torrent ''f''), m')
     ([At []], completed 0 (File one_torrent ''f''), m')"
proof -
  let ?f = "claimed 0 (File one_torrent ''f'')"
  let ?r = "\<lparr>frs_hashedTorrent = 3, frs_fragNum = 0, frs_fileCode = F_FINE, frs_fragment = one_data 0\<rparr>"
  let ?m = "set_file ''f'' (put_block 0 (one_data 0) (replicate 8000 NUL)) one_manager"
  show "download_step one_data ([At [0]], File one_torrent ''f'', one_manager) ([Fetching 0 []], ?f, one_manager)"
    using download_step.claims[of 0 "[At [0]]" 0 "[]"] claim_free_segment[OF one_file]
    by (simp add: int_of_u32_eq)
  show "download_step one_data ([Fetching 0 []], ?f, one_manager) ([Storing 0 (one_data 0) []], ?f, one_manager)"
    using download_step.receives[of 0 "[Fetching 0 []]" 0 "[]" ?r one_data ?f one_manager]
    by (simp add: int_of_u32_eq)
  have name: "fileName (fileTorrent (File one_torrent ''f'')) = ''f''"
    by (simp add: File_segments one_torrent_def Torrent_hashed_def)
  have "unlocked ''f'' one_manager"
    by (simp add: one_manager_def example_manager_def FileManager_def unlocked_def readLocked_def
        writeLocked_def)
  moreover have "openable ''f'' (replicate 8000 NUL) one_manager"
    using openable_createLocalFile[of "example_manager []" one_torrent]
    by (simp add: one_manager_def one_torrent_def Torrent_hashed_def example_manager_def FileManager_def)
  ultimately have "storeSegmentToFile ''f'' p (int 0) (one_data 0) one_manager = Some (Inr (), ?m)" for p
    by (rule storeSegmentToFile_full) (simp_all add: one_data_def)
  then show "download_step one_data ([Storing 0 (one_data 0) []], ?f, one_manager) ([Marking 0 COMPLETE []], ?f, ?m)"
    using download_step.stores[of 0 "[Storing 0 (one_data 0) []]" 0 "one_data 0" "[]" ?f one_manager "()" ?m]
    by (simp add: int_of_u32_eq name)
  show "download_step one_data ([Marking 0 COMPLETE []], ?f, m') ([At []], completed 0 (File one_torrent ''f''), m')"
    using download_step.marks[of 0 "[Marking 0 COMPLETE []]" 0 COMPLETE "[]" ?f "()"]
      complete_claimed_segment[OF one_file] by (simp add: int_of_u32_eq)
qed

lemma one_claimed: "reachable (download_start one_data one_torrent) (download_step one_data)
    ([Fetching 0 []], claimed 0 (File one_torrent ''f''), one_manager)"
  by (rule reachable_step[OF one_start one_steps(1)])

lemma one_complete: "reachable (download_start one_data one_torrent) (download_step one_data)
    ([At []], completed 0 (File one_torrent ''f''),
     set_file ''f'' (put_block 0 (one_data 0) (replicate 8000 NUL)) one_manager)"
  using reachable_step[OF one_claimed one_steps(2), THEN reachable_step, OF one_steps(3), THEN reachable_step,
      OF one_steps(4)] .

lemma one_segment: "segments_of one_torrent = 1"
  using length_segments_File[of one_torrent "''f''", symmetric]
  by (simp only: one_torrent_def example_file_eq) (simp add: example_file_def)

lemma one_all: "allComplete (segments (completed 0 (File one_torrent ''f'')))"
  unfolding one_torrent_def example_file_eq by (simp add: example_file_def completed_def)

section \<open>Correctness of a parallel download\<close>

text \<open>
  C5. However any number of workers interleave, a claimed segment is \<open>DOWNLOADING\<close> and no two
  workers are busy with the same one.
\<close>

theorem workers_exclude_each_other:
  assumes "reachable (download_start data t) (download_step data) (ps, f, m)"
    and "w < length ps" and "busy_with (ps ! w) = Some i"
  shows "segment_state_of f i = Some DOWNLOADING \<and>
    {v. v < length ps \<and> busy_with (ps ! v) = Some i} = {w}"
proof -
  have "claims_inv ps f"
    using parallel_download.reachable_inv[OF assms(1)] by (simp add: download_inv_def)
  with assms(2,3) show ?thesis unfolding claims_inv_def holder_def by blast
qed

lemma workers_exclude_each_other_witness:
  "segment_state_of (claimed 0 (File one_torrent ''f'')) 0 = Some DOWNLOADING \<and>
    {v. v < length [Fetching 0 []] \<and> busy_with ([Fetching 0 []] ! v) = Some 0} = {0}"
  by (rule workers_exclude_each_other [OF one_claimed]) (simp_all add: int_of_u32_eq)

text \<open>What the invariant says of the file on disk: complete segments are there, and a complete file is all there.\<close>

lemma download_inv_disk:
  assumes inv: "download_inv data t (segments_of t) (ps, f, m)"
  obtains bs where "files (disk m) (c_str (fileName t)) = Some bs"
    and "\<And>i. segment_state_of f (int i) = Some COMPLETE \<Longrightarrow> block i bs = data i"
    and "allComplete (segments f) \<Longrightarrow> length bs = segments_of t * 8000"
    and "allComplete (segments f) \<Longrightarrow> bs = concat (map data [0..<segments_of t])"
proof -
  let ?n = "segments_of t"
  obtain bs where bs: "openable (fileName t) bs m" "length bs \<le> ?n * 8000"
    and complete: "\<forall>i. segment_state_of f i = Some COMPLETE \<longrightarrow> on_disk data bs (nat i)"
    using inv by (auto simp: download_inv_def disk_inv_def)
  have states: "\<forall>i. segment_state_of f i \<noteq> None \<longleftrightarrow> 0 \<le> i \<and> i < int ?n"
    using inv unfolding download_inv_def frame_inv_def prod.case by blast
  have disk: "on_disk data bs i" if "segment_state_of f (int i) = Some COMPLETE" for i
    using complete that by force
  have each: "on_disk data bs i" if "allComplete (segments f)" and "i < ?n" for i
  proof -
    have "segment_state_of f (int i) \<noteq> None" using states that(2) by simp
    then have "inRange (int i) (segments f)" by (auto simp: segment_state_of_def split: if_splits)
    then have "segment_state_of f (int i) = Some COMPLETE"
      using that(1) by (auto simp: segment_state_of_def allComplete_iff inRange_def)
    then show ?thesis by (rule disk)
  qed
  have size: "length bs = ?n * 8000" if all: "allComplete (segments f)"
  proof -
    have "?n * 8000 \<le> length bs"
    proof (cases ?n)
      case (Suc k)
      then show ?thesis using each[OF all, of k] by (simp add: on_disk_def)
    qed simp
    with bs(2) show ?thesis by simp
  qed
  have "bs = concat (map data [0..<?n])" if all: "allComplete (segments f)"
  proof -
    have "bs = concat (map (\<lambda>i. block i bs) [0..<?n])" using concat_blocks[OF size[OF all]] .
    also have "map (\<lambda>i. block i bs) [0..<?n] = map data [0..<?n]"
      using each[OF all] by (intro map_cong) (simp_all add: on_disk_def)
    finally show ?thesis .
  qed
  then show thesis using that bs(1) disk size by (auto simp: openable_def on_disk_def)
qed

text \<open>
  C4. However any number of workers interleave, fail and repeat themselves, a complete segment is
  on disk: its bytes are those of the peers. And when \<open>isComplete\<close> answers true, the file on disk is
  the segments' data in order.
\<close>

theorem parallel_download_correct:
  assumes "reachable (download_start data t) (download_step data) (ps, f, m)"
  shows "\<exists>bs. files (disk m) (c_str (fileName t)) = Some bs \<and>
    {i. i < segments_of t \<and> segment_state_of f (int i) = Some COMPLETE} \<subseteq> {i. block i bs = data i} \<and>
    (\<not> allComplete (segments f) \<or> bs = concat (map data [0..<segments_of t]))"
proof -
  obtain bs where "files (disk m) (c_str (fileName t)) = Some bs"
    and "\<And>i. segment_state_of f (int i) = Some COMPLETE \<Longrightarrow> block i bs = data i"
    and "allComplete (segments f) \<Longrightarrow> bs = concat (map data [0..<segments_of t])"
    using download_inv_disk[OF parallel_download.reachable_inv[OF assms]] by metis
  then show ?thesis by blast
qed

lemma parallel_download_correct_witness:
  "files (disk (set_file ''f'' (put_block 0 (one_data 0) (replicate 8000 NUL)) one_manager)) ''f'' =
     Some (one_data 0)"
  using parallel_download_correct [OF one_complete] one_segment one_all
  by (simp add: one_torrent_def Torrent_hashed_def)

end
