(* ===== verification/Parallel_Runs.thy ===== *)
theory Parallel_Runs
  imports Parallel_Download
begin

text \<open>
  Whole runs of the workers of \<open>Parallel_Download\<close>: the loop of one worker run alone is a run of its
  steps; every run ends, after a number of steps the lists bound; and where it ends every worker is
  done and no claim is left.
\<close>

section \<open>A worker alone and in steps\<close>

text \<open>The fragments a worker stores when it runs alone, with the bytes it was sent.\<close>

fun fetched :: "(string \<Rightarrow> int \<Rightarrow> tcp_message) \<Rightarrow> torrent \<Rightarrow> 32 word list \<Rightarrow> worker \<Rightarrow> (32 word \<times> string) list" where
  "fetched parse t [] w = []"
| "fetched parse t (k # ks) w =
     (case work_fragments parse t [k] w of
        Some (Inr _, w') \<Rightarrow>
          (case tryToSetStateSegmentStateToDownload (int_of_u32 k) (wk_file w) of
             (Inr True, _) \<Rightarrow>
               (case requestFragment parse t k (wk_sock w) of
                  (Inr r, _) \<Rightarrow> (if frs_fileCode r = F_ERROR then [] else [(k, frs_fragment r)])
                | _ \<Rightarrow> [])
           | _ \<Rightarrow> []) @ fetched parse t ks w'
      | _ \<Rightarrow> [])"

text \<open>The loop, one fragment at a time.\<close>

lemma work_fragments_Cons:
  "work_fragments parse t (k # ks) w =
     (case work_fragments parse t [k] w of
        Some (Inr _, w') \<Rightarrow> work_fragments parse t ks w'
      | r \<Rightarrow> r)"
  by (auto simp: Let_def split: prod.split sum.split bool.split option.split)

lemma run_of_3: "step a b \<Longrightarrow> step b c \<Longrightarrow> step c d \<Longrightarrow> step\<^sup>*\<^sup>* a d"
  and run_of_4: "step a b \<Longrightarrow> step b c \<Longrightarrow> step c d \<Longrightarrow> step d e \<Longrightarrow> step\<^sup>*\<^sup>* a e"
  by (meson r_into_rtranclp rtranclp.rtrancl_into_rtrancl)+

lemma work_fragments_one:
  assumes "work_fragments parse t [k] w = Some (Inr u, w')" and "v < length ps" and "ps ! v = At (k # ks)"
    and "\<forall>(j, bs) \<in> set (fetched parse t [k] w). bs = data (nat (int_of_u32 j))"
  shows "(download_step data)\<^sup>*\<^sup>* (ps, wk_file w, wk_manager w) (ps[v := At ks], wk_file w', wk_manager w')"
proof -
  obtain b f where claim: "tryToSetStateSegmentStateToDownload (int_of_u32 k) (wk_file w) = (Inr b, f)"
    using assms(1) by (auto simp: Let_def split: prod.splits sum.splits)
  show ?thesis
  proof (cases b)
    case False
    with claim assms(1) have "w' = w\<lparr>wk_file := f\<rparr>" by simp
    then show ?thesis using download_step.skips[OF assms(2,3)] claim False by auto
  next
    case True
    then have claim: "tryToSetStateSegmentStateToDownload (int_of_u32 k) (wk_file w) = (Inr True, f)"
      using claim by simp
    note claimed = download_step.claims[OF assms(2,3) claim, of data]
    let ?F = "ps[v := Fetching k ks]"
    obtain r s where r: "requestFragment parse t k (wk_sock w) = (Inr r, s)"
      using assms(1) claim by (auto simp: Let_def split: prod.splits sum.splits)
    show ?thesis
    proof (cases "frs_fileCode r = F_ERROR")
      case error: True
      with assms(1) claim r obtain u' where
        "setSegmentState (int_of_u32 k) FREE f = (Inr u', wk_file w')" "wk_manager w' = wk_manager w"
        by (auto simp: Let_def split: prod.splits sum.splits)
      then show ?thesis
        using run_of_3[where step = "download_step data", OF claimed[of "wk_manager w"] download_step.gives_up[of v ?F k ks r]
            download_step.marks[of v "?F[v := Marking k FREE ks]" k FREE ks f u']] error assms(2) by simp
    next
      case fine: False
      let ?d = "frs_fragment r"
      obtain x m y where st: "storeSegmentToFile (fileName (fileTorrent f)) (filePath f) (int_of_u32 k) ?d
          (wk_manager w) = Some (Inr x, m)" "setSegmentState (int_of_u32 k) COMPLETE f = (Inr y, wk_file w')"
        "wk_manager w' = m"
        using assms(1) claim r fine by (auto simp: Let_def split: prod.splits sum.splits option.splits)
      have "?d = data (nat (int_of_u32 k))" using assms(1,4) claim r fine by simp
      then show ?thesis
        using run_of_4[where step = "download_step data", OF claimed[of "wk_manager w"] download_step.receives[of v ?F k ks r]
            download_step.stores[of v "?F[v := Storing k ?d ks]" k ?d ks f "wk_manager w" x m]
            download_step.marks[of v "?F[v := Storing k ?d ks, v := Marking k COMPLETE ks]" k COMPLETE ks f y]] fine assms(2) st
        by simp
    qed
  qed
qed

text \<open>
  C11. The loop of \<open>work\<close>, run from its start to its end on its own, is a run of the steps in which only
  that worker moves, among any number of others; so what holds of every interleaving holds of it.
  (The peer's bytes are the data the steps speak of.)
\<close>

theorem work_fragments_refines_steps:
  assumes "work_fragments parse t ks w = Some (Inr u, w')" and "v < length ps" and "ps ! v = At ks"
    and "set (fetched parse t ks w) \<subseteq> {(k, bs). bs = data (nat (int_of_u32 k))}"
  shows "(download_step data)\<^sup>*\<^sup>* (ps, wk_file w, wk_manager w) (ps[v := At []], wk_file w', wk_manager w')"
  using assms
proof (induction ks arbitrary: w ps)
  case Nil
  then show ?case using list_update_id[of ps v] by simp
next
  case (Cons k ks)
  obtain w1 where one: "work_fragments parse t [k] w = Some (Inr (), w1)"
    and rest: "work_fragments parse t ks w1 = Some (Inr u, w')"
    using Cons.prems(1) unfolding work_fragments_Cons[of parse t k ks w]
    by (auto split: option.splits prod.splits sum.splits)
  have "set (fetched parse t (k # ks) w) = set (fetched parse t [k] w) \<union> set (fetched parse t ks w1)"
    using one by (simp del: work_fragments.simps)
  with Cons.prems(4) have bytes: "set (fetched parse t [k] w) \<subseteq> {(k, bs). bs = data (nat (int_of_u32 k))}"
    "set (fetched parse t ks w1) \<subseteq> {(k, bs). bs = data (nat (int_of_u32 k))}" by simp_all
  have "(download_step data)\<^sup>*\<^sup>* (ps, wk_file w, wk_manager w) (ps[v := At ks], wk_file w1, wk_manager w1)"
    using bytes(1) by (intro work_fragments_one[OF one Cons.prems(2,3)]) (auto simp del: fetched.simps)
  moreover have "(download_step data)\<^sup>*\<^sup>* (ps[v := At ks], wk_file w1, wk_manager w1)
      ((ps[v := At ks])[v := At []], wk_file w', wk_manager w')"
    using Cons.prems(2) by (intro Cons.IH[OF rest _ _ bytes(2)]) simp_all
  ultimately show ?case by simp
qed

lemma work_fragments_refines_steps_witness:
  "\<exists>f' m'. (download_step one_data)\<^sup>*\<^sup>* ([At [0], At []], example_file, example_manager [])
      ([At [], At []], f', m') \<and> segState (segments f' ! 0) = COMPLETE"
proof -
  let ?r = "\<lparr>frs_hashedTorrent = 3, frs_fragNum = 0, frs_fileCode = F_FINE, frs_fragment = one_data 0\<rparr>"
  let ?parse = "\<lambda>_ _. \<lparr>code = CC_FRAGMENT_RESPONSE, contents = FragmentResponse ?r\<rparr>"
  let ?s = "snd (connect_to (example_env (arrivals [(0, ''x'')])) ''10.0.0.7'' 59096)"
  let ?t = "Torrent_hashed 3 8000 ''f''"
  let ?w = "\<lparr>wk_file = example_file, wk_manager = example_manager [], wk_sock = ?s\<rparr>"
  have "fst (requestFragment ?parse ?t 0 ?s) = Inr ?r"
    by (simp add: connect_to_def example_env_def start_def BaseSocket_def arrivals_def
      requestFragment_def send_def receive_def read_message_def Let_def)
  then obtain s' where req: "requestFragment ?parse ?t 0 ?s = (Inr ?r, s')" by (metis prod.collapse)
  have free: "free_segment example_file (unat (0 :: 32 word))"
    by (simp add: free_segment_def example_file_def Segment_def)
  have full: "full_answer ?r" by (simp add: full_answer_def one_data_def)
  have "fileName (fileTorrent example_file) = ''f''" by (simp add: example_file_def Torrent_hashed_def)
  then have disk: "unlocked (fileName (fileTorrent example_file)) (example_manager [])"
    "openable (fileName (fileTorrent example_file)) [] (example_manager [])"
    by (simp_all add: example_manager_def FileManager_def unlocked_def readLocked_def
        writeLocked_def openable_def)
  from work_fragments_round[OF free req full disk, of "[]"]
  obtain w' where run: "work_fragments ?parse ?t [0] ?w = Some (Inr (), w')"
    and done_file: "wk_file w' = completed 0 example_file" by simp
  have one_fetched: "fetched ?parse ?t [0] ?w = [(0, one_data 0)]"
    using run claim_free_segment[OF free] req by (simp add: int_of_u32_eq del: work_fragments.simps)
  have bytes: "set (fetched ?parse ?t [0] ?w) \<subseteq> {(k, bs). bs = one_data (nat (int_of_u32 k))}"
    using one_fetched by (simp add: one_data_def)
  show ?thesis
    using work_fragments_refines_steps [OF run _ _ bytes, of 0 "[At [0], At []]"] done_file
    by (auto simp: segState_completed example_file_def)
qed

section \<open>Every run ends\<close>

text \<open>How many steps a worker can take at most.\<close>

fun steps_left :: "worker_pc \<Rightarrow> nat" where
  "steps_left (At ks) = 4 * length ks"
| "steps_left (Fetching k ks) = 4 * length ks + 3"
| "steps_left (Storing k d ks) = 4 * length ks + 2"
| "steps_left (Marking k st ks) = 4 * length ks + 1"

lemma download_step_left:
  "download_step data s s' \<Longrightarrow>
   Suc (sum_list (map steps_left (fst s'))) \<le> sum_list (map steps_left (fst s))"
  by (induction rule: download_step.induct) (auto intro!: sum_list_update_less)

text \<open>
  The workers of a download together take at most four steps for each fragment their peers
  listed: no interleaving runs on for ever, whatever the peers do.
\<close>

theorem parallel_download_terminates:
  assumes "(download_step data ^^ n) (map At listed, f, m) s"
  shows "n + sum_list (map steps_left (fst s)) \<le> 4 * length (concat listed)"
proof -
  have "n + sum_list (map steps_left (fst s)) \<le> sum_list (map steps_left (map At listed))"
    using relpow_measure[OF assms, of "\<lambda>s. sum_list (map steps_left (fst s))"] download_step_left by auto
  then have "n + sum_list (map steps_left (fst s)) \<le> sum_list (map (\<lambda>ks. 4 * length ks) listed)"
    by (simp add: o_def)
  then show ?thesis by (simp add: length_concat sum_list_const_mult)
qed

lemma parallel_download_terminates_witness:
  "1 + sum_list (map steps_left (fst ([Fetching 0 []], claimed 0 (File one_torrent ''f''), one_manager)))
    \<le> 4 * length (concat [[0 :: 32 word]])"
proof (rule parallel_download_terminates)
  show "(download_step one_data ^^ 1) (map At [[0]], File one_torrent ''f'', one_manager)
      ([Fetching 0 []], claimed 0 (File one_torrent ''f''), one_manager)"
    using download_step.claims[of 0 "[At [0]]" 0 "[]"] claim_free_segment[OF one_file]
    by (simp add: int_of_u32_eq eq_OO)
qed

section \<open>Where a run ends\<close>

text \<open>Claims are held, and a marked segment is set free or complete.\<close>

definition claims_held :: "download_state \<Rightarrow> bool" where
  "claims_held s \<longleftrightarrow> (case s of (ps, f, m) \<Rightarrow>
     (\<forall>i. segment_state_of f i = Some DOWNLOADING \<longrightarrow> (\<exists>w. holder ps w i)) \<and>
     (\<forall>k ks. Marking k DOWNLOADING ks \<notin> set ps))"

lemma holder_same:
  assumes "w < length ps" and "busy_with p = busy_with (ps ! w)"
  shows "holder (ps[w := p]) v i = holder ps v i"
  unfolding holder_update[OF assms(1)] using assms by (auto simp: holder_def)

lemma Marking_update:
  "\<forall>k ks. Marking k DOWNLOADING ks \<notin> set ps \<Longrightarrow> (\<And>k ks. p \<noteq> Marking k DOWNLOADING ks) \<Longrightarrow>
   \<forall>k ks. Marking k DOWNLOADING ks \<notin> set (ps[w := p])"
  by (metis in_set_updateE)

lemma claims_held_move:
  assumes "claims_held (ps, f, m)" and "w < length ps" and "busy_with p = busy_with (ps ! w)"
    and "\<And>k ks. p \<noteq> Marking k DOWNLOADING ks"
  shows "claims_held (ps[w := p], f, m')"
  using assms(1) Marking_update[OF _ assms(4), of ps w]
  by (simp add: claims_held_def holder_same[OF assms(2,3)])

lemma download_step_held: "download_step data s s' \<Longrightarrow> claims_held s \<Longrightarrow> claims_held s'"
proof (induction rule: download_step.induct)
  case (claims w ps k ks f f' m)
  have "\<exists>v. holder (ps[w := Fetching k ks]) v i" if "segment_state_of f' i = Some DOWNLOADING" for i
  proof (cases "i = int_of_u32 k")
    case True
    then have "holder (ps[w := Fetching k ks]) w i" by (simp add: holder_update[OF claims(1)])
    then show ?thesis ..
  next
    case False
    with that claim_True(2)[OF claims(3)] have "segment_state_of f i = Some DOWNLOADING" by simp
    with claims.prems obtain v where "holder ps v i" by (auto simp: claims_held_def)
    moreover from this claims(2) have "v \<noteq> w" by (auto simp: holder_def)
    ultimately have "holder (ps[w := Fetching k ks]) v i" by (simp add: holder_update[OF claims(1)])
    then show ?thesis ..
  qed
  moreover have "\<forall>k' ks'. Marking k' DOWNLOADING ks' \<notin> set (ps[w := Fetching k ks])"
    by (rule Marking_update) (use claims.prems in \<open>auto simp: claims_held_def\<close>)
  ultimately show ?case by (simp add: claims_held_def)
next
  case (skips w ps k ks f f' m)
  then show ?case using claim_False[OF skips(3)] by (auto intro: claims_held_move)
next
  case (marks w ps k st ks f u f' m)
  note put = set_state_ok[OF marks(3)]
  have "\<exists>v. holder (ps[w := At ks]) v i" if "segment_state_of f' i = Some DOWNLOADING" for i
  proof -
    have other: "i \<noteq> int_of_u32 k" using that put(1,4) by auto
    with that put(1) have "segment_state_of f i = Some DOWNLOADING" by simp
    with marks.prems obtain v where "holder ps v i" by (auto simp: claims_held_def)
    moreover from this marks(2) other have "v \<noteq> w" by (auto simp: holder_def)
    ultimately have "holder (ps[w := At ks]) v i" by (simp add: holder_update[OF marks(1)])
    then show ?thesis ..
  qed
  moreover have "\<forall>k' ks'. Marking k' DOWNLOADING ks' \<notin> set (ps[w := At ks])"
    by (rule Marking_update) (use marks.prems in \<open>auto simp: claims_held_def\<close>)
  ultimately show ?case by (simp add: claims_held_def)
qed (auto intro: claims_held_move)

lemma download_start_held: "download_start data t s \<Longrightarrow> claims_held s"
proof -
  assume start: "download_start data t s"
  then obtain listed path m where s: "s = (map At listed, File t path, createLocalFile t m)"
    and t: "tsize t < 2 ^ 31"
    by (auto simp: download_start_def)
  have "segment_state_of (File t path) i \<noteq> Some DOWNLOADING" for i
    using File_segment_bounds(3)[OF t, of "nat i" path] by (auto simp: segment_state_of_def inRange_def nat_less_iff)
  then show ?thesis by (auto simp: claims_held_def s)
qed

interpretation held_claims: invariant_system "download_start data t" "download_step data" claims_held for data t
  by unfold_locales (blast intro: download_start_held download_step_held)+

text \<open>The fragments a worker has not come to.\<close>

fun still_listed :: "worker_pc \<Rightarrow> 32 word list" where
  "still_listed (At ks) = ks"
| "still_listed (Fetching k ks) = ks"
| "still_listed (Storing k d ks) = ks"
| "still_listed (Marking k st ks) = ks"

text \<open>A worker that is not done can take a step; unless it stores, that depends on the file object only.\<close>

lemma worker_moves_on:
  assumes w: "w < length ps" and busy: "ps ! w \<noteq> At []" "\<And>k d ks. ps ! w \<noteq> Storing k d ks"
    and range: "\<forall>k \<in> set (still_listed (ps ! w)). segment_state_of f (int_of_u32 k) \<noteq> None"
    and mark: "\<And>k st ks. ps ! w = Marking k st ks \<Longrightarrow>
      segment_state_of f (int_of_u32 k) = Some DOWNLOADING \<and> st \<noteq> DOWNLOADING"
  shows "\<exists>p f'. download_step data (ps, f, m) (ps[w := p], f', m)"
proof (cases "ps ! w")
  case (At ks)
  with busy obtain k ks' where ks: "ks = k # ks'" by (cases ks) auto
  with At range obtain st where st: "segment_state_of f (int_of_u32 k) = Some st" by auto
  show ?thesis
  proof (cases "st = FREE")
    case True
    with file_segments.claim_free[of f "int_of_u32 k"] st obtain f' where
      "tryToSetStateSegmentStateToDownload (int_of_u32 k) f = (Inr True, f')" by auto
    then show ?thesis using download_step.claims[OF w At[unfolded ks]] by blast
  next
    case False
    with file_segments.claim_busy[OF st] show ?thesis using download_step.skips[OF w At[unfolded ks]] by blast
  qed
next
  case (Fetching k ks)
  have "frs_fileCode fragment_error = F_ERROR" by (simp add: fragment_error_def)
  then show ?thesis using download_step.gives_up[OF w Fetching] by blast
next
  case (Marking k st ks)
  with mark obtain f' where "setSegmentState (int_of_u32 k) st f = (Inr (), f')"
    using file_segments.put_ok by blast
  then show ?thesis using download_step.marks[OF w Marking] by blast
qed (use busy(2) in blast)

lemma marking_held:
  assumes inv: "claims_inv ps f" and held: "claims_held (ps, f, m)"
    and w: "w < length ps" and Marking: "ps ! w = Marking k st ks"
  shows "segment_state_of f (int_of_u32 k) = Some DOWNLOADING \<and> st \<noteq> DOWNLOADING"
proof -
  have "holder ps w (int_of_u32 k)" using w Marking by (simp add: holder_def)
  moreover have "Marking k st ks \<in> set ps" using w Marking by (metis nth_mem)
  ultimately show ?thesis using inv held by (auto simp: claims_inv_def claims_held_def)
qed

lemma worker_moves:
  assumes inv: "download_inv data t (segments_of t) (ps, f, m)" and held: "claims_held (ps, f, m)"
    and w: "w < length ps" and busy: "ps ! w \<noteq> At []"
    and range: "\<forall>k \<in> set (still_listed (ps ! w)). segment_state_of f (int_of_u32 k) \<noteq> None"
  shows "\<exists>p f' m'. download_step data (ps, f, m) (ps[w := p], f', m')"
proof (cases "\<exists>k d ks. ps ! w = Storing k d ks")
  case True
  then obtain k d ks where Storing: "ps ! w = Storing k d ks" by blast
  have frame: "claims_inv ps f" "frame_inv data t (segments_of t) (ps, f, m)" "fileTorrent f = t"
    "unlocked (fileName t) m" "\<forall>i. length (data i) = 8000"
    using inv by (simp_all add: download_inv_def frame_inv_def)
  obtain bs where bs: "openable (fileName t) bs m" "\<forall>k d ks. Storing k d ks \<in> set ps \<longrightarrow> d = data (nat (int_of_u32 k))"
    using inv by (auto simp: download_inv_def disk_inv_def)
  have "busy_with (ps ! w) = Some (int_of_u32 k)" using Storing by simp
  from held_segment[OF frame(1,2) w this] obtain i where i: "int_of_u32 k = int i" "int i * 8000 < 2 ^ 31" .
  have "length d = 8000" using bs(2) frame(5) w Storing by (metis nth_mem)
  from storeSegmentToFile_full[OF frame(4) bs(1) i(2) this, of "filePath f"]
  show ?thesis using download_step.stores[OF w Storing] frame(3) i(1) by metis
next
  case False
  have "claims_inv ps f" using inv by (simp add: download_inv_def)
  with worker_moves_on[OF w busy _ range] marking_held[OF _ held w] False show ?thesis by metis
qed

text \<open>
  Nothing is left behind: if the peers listed fragments the file has, a download can stop only when
  every worker is at the end of its list, and then no segment is left claimed, so that
  each is free for another try or complete.
\<close>

theorem parallel_download_settles:
  assumes "reachable (download_start data t) (download_step data) (ps, f, m)"
    and "\<forall>p \<in> set ps. \<forall>k \<in> set (still_listed p). 0 \<le> int_of_u32 k \<and> int_of_u32 k < int (segments_of t)"
    and "\<nexists>s. download_step data (ps, f, m) s"
  shows "set ps \<subseteq> {At []} \<and> (\<forall>i. segment_state_of f i \<noteq> Some DOWNLOADING)"
proof -
  have inv: "download_inv data t (segments_of t) (ps, f, m)"
    using assms(1) by (rule parallel_download.reachable_inv)
  have held: "claims_held (ps, f, m)" using assms(1) by (rule held_claims.reachable_inv)
  have known: "segment_state_of f i \<noteq> None" if "0 \<le> i" "i < int (segments_of t)" for i
    using inv that unfolding download_inv_def frame_inv_def prod.case by blast
  have done_at: "ps ! w = At []" if "w < length ps" for w
  proof (rule ccontr)
    assume "ps ! w \<noteq> At []"
    moreover have "\<forall>k \<in> set (still_listed (ps ! w)). segment_state_of f (int_of_u32 k) \<noteq> None"
      using assms(2) that known by (metis nth_mem)
    ultimately show False using worker_moves[OF inv held that] assms(3) by blast
  qed
  then have "\<not> holder ps w i" for w i by (auto simp: holder_def)
  then show ?thesis using held done_at by (auto simp: claims_held_def in_set_conv_nth)
qed

lemma parallel_download_settles_witness:
  "set [At []] \<subseteq> {At []} \<and> (\<forall>i. segment_state_of (completed 0 (File one_torrent ''f'')) i \<noteq> Some DOWNLOADING)"
proof (rule parallel_download_settles [OF one_complete])
  show "\<nexists>s. download_step one_data ([At []], completed 0 (File one_torrent ''f''),
     set_file ''f'' (put_block 0 (one_data 0) (replicate 8000 NUL)) one_manager) s"
    by (auto elim!: download_step.cases)
qed simp

end
