(* ===== verification/Parallel_Completion.thy ===== *)
theory Parallel_Completion
  imports Parallel_Runs
begin

text \<open>
  Downloads whose peers answer every request: where they end every listed segment is complete, and if
  the lists cover the file, it is on disk. And how long the file on disk is then.
\<close>

section \<open>Peers that serve\<close>

text \<open>A step in which no peer fails.\<close>

definition gives_up_in :: "download_state \<Rightarrow> download_state \<Rightarrow> bool" where
  "gives_up_in s s' \<longleftrightarrow> (\<exists>w k ks. w < length (fst s) \<and> fst s ! w = Fetching k ks \<and> fst s' ! w = Marking k FREE ks)"

definition served_step :: "(nat \<Rightarrow> string) \<Rightarrow> download_state \<Rightarrow> download_state \<Rightarrow> bool" where
  "served_step data s s' \<longleftrightarrow> download_step data s s' \<and> \<not> gives_up_in s s'"

lemma served_reachable:
  assumes "download_start data t s" and "(served_step data)\<^sup>*\<^sup>* s s'"
  shows "reachable (download_start data t) (download_step data) s'"
  using rtranclp_keeps[OF assms(2), of "reachable (download_start data t) (download_step data)"] assms(1)
  unfolding served_step_def by (blast intro: reachable_init reachable_step)

text \<open>A step of one worker that was not fetching, or did not give up.\<close>

lemma not_gives_up:
  assumes "w < length ps" and "\<And>k ks. ps ! w = Fetching k ks \<Longrightarrow> p \<noteq> Marking k FREE ks"
  shows "\<not> gives_up_in (ps, f, m) (ps[w := p], f', m')"
  using assms by (auto simp: gives_up_in_def nth_list_update split: if_splits)

text \<open>
  What is kept for a set of listed fragments: each is still listed, or its segment is not free; and
  no worker is about to set one free.
\<close>

definition served_inv :: "32 word set \<Rightarrow> download_state \<Rightarrow> bool" where
  "served_inv K s \<longleftrightarrow> (case s of (ps, f, m) \<Rightarrow>
     (\<forall>p \<in> set ps. set (still_listed p) \<subseteq> K) \<and> (\<forall>k ks. Marking k FREE ks \<notin> set ps) \<and>
     (\<forall>k \<in> K. (\<exists>p \<in> set ps. k \<in> set (still_listed p)) \<or> segment_state_of f (int_of_u32 k) \<noteq> Some FREE))"

lemma served_inv_start:
  "served_inv (set (concat listed)) (map At listed, f, m)"
  by (auto simp: served_inv_def)

lemma listed_update:
  assumes "w < length ps" and "set (still_listed (ps ! w)) \<subseteq> D \<union> set (still_listed p)"
    and "q \<in> set ps" and "j \<in> set (still_listed q)"
  shows "j \<in> D \<or> (\<exists>q \<in> set (ps[w := p]). j \<in> set (still_listed q))"
proof -
  obtain v where v: "v < length ps" "ps ! v = q" using assms(3) by (auto simp: in_set_conv_nth)
  show ?thesis
  proof (cases "v = w")
    case True
    have "p \<in> set (ps[w := p])" using assms(1) by (rule set_update_memI)
    then show ?thesis using assms(2,4) v True by auto
  next
    case False
    then have "ps[w := p] ! v = q" "v < length (ps[w := p])" using v by simp_all
    then have "q \<in> set (ps[w := p])" by (metis nth_mem)
    then show ?thesis using assms(4) by auto
  qed
qed

text \<open>One worker moves on: at most the fragments \<open>D\<close> leave its list, and these are not free then.\<close>

lemma served_inv_move:
  assumes "served_inv K (ps, f, m)" and "w < length ps"
    and "set (still_listed p) \<subseteq> set (still_listed (ps ! w))"
    and "set (still_listed (ps ! w)) \<subseteq> D \<union> set (still_listed p)"
    and "\<And>j ks. p \<noteq> Marking j FREE ks"
    and "\<And>j. segment_state_of f j \<noteq> Some FREE \<Longrightarrow> segment_state_of f' j \<noteq> Some FREE"
    and "\<And>k. k \<in> D \<Longrightarrow> segment_state_of f' (int_of_u32 k) \<noteq> Some FREE"
  shows "served_inv K (ps[w := p], f', m')"
proof -
  have K: "\<forall>p \<in> set ps. set (still_listed p) \<subseteq> K" "\<forall>k ks. Marking k FREE ks \<notin> set ps"
    "\<forall>k \<in> K. (\<exists>p \<in> set ps. k \<in> set (still_listed p)) \<or> segment_state_of f (int_of_u32 k) \<noteq> Some FREE"
    using assms(1) by (simp_all add: served_inv_def)
  have "set (still_listed q) \<subseteq> K" if "q \<in> set (ps[w := p])" for q
    using that
  proof (rule in_set_updateE)
    assume "q = p"
    then show ?thesis using assms(2,3) K(1) by (meson nth_mem subset_trans)
  next
    assume "q \<in> set ps"
    then show ?thesis using K(1) by blast
  qed
  moreover have "Marking j FREE ks \<notin> set (ps[w := p])" for j ks
    using K(2) assms(5) by (metis in_set_updateE)
  moreover have "(\<exists>q \<in> set (ps[w := p]). j \<in> set (still_listed q)) \<or> segment_state_of f' (int_of_u32 j) \<noteq> Some FREE"
    if j: "j \<in> K" for j
  proof (cases "segment_state_of f (int_of_u32 j) = Some FREE")
    case True
    with K(3) j obtain q where q: "q \<in> set ps" "j \<in> set (still_listed q)" by blast
    show ?thesis using listed_update[OF assms(2,4) q] assms(7) by blast
  qed (use assms(6) in blast)
  ultimately show ?thesis by (simp add: served_inv_def)
qed

lemma served_step_inv:
  assumes "served_step data s s'" and "served_inv K s"
  shows "served_inv K s'"
proof -
  have step: "download_step data s s'" and "\<not> gives_up_in s s'"
    using assms(1) by (simp_all add: served_step_def)
  then show ?thesis using assms(2)
  proof (induction rule: download_step.induct)
    case (claims w ps k ks f f' m)
    show ?case
      by (rule served_inv_move[where D = "{k}", OF claims.prems(2) claims(1)])
        (use claims(2) claim_True(2)[OF claims(3)] in \<open>auto split: if_splits\<close>)
  next
    case (skips w ps k ks f f' m)
    have "segment_state_of f (int_of_u32 k) \<noteq> Some FREE"
      using file_segments.claim_free[of f "int_of_u32 k"] skips(3) by auto
    then show ?case
      using claim_False[OF skips(3)] skips(2)
      by (intro served_inv_move[where D = "{k}", OF skips.prems(2) skips(1)]) auto
  next
    case (receives w ps k ks r f m)
    show ?case
      by (rule served_inv_move[where D = "{}", OF receives.prems(2) receives(1)])
        (use receives(2) receives.prems in \<open>auto simp: served_inv_def\<close>)
  next
    case (gives_up w ps k ks r f m)
    then show ?case by (auto simp: gives_up_in_def)
  next
    case (stores w ps k d ks f m u m')
    show ?case
      by (rule served_inv_move[where D = "{}", OF stores.prems(2) stores(1)])
        (use stores(2) in auto)
  next
    case (marks w ps k st ks f u f' m)
    have "Marking k st ks \<in> set ps" using marks(1,2) by (metis nth_mem)
    then have "st \<noteq> FREE" using marks.prems(2) by (auto simp: served_inv_def)
    then show ?case
      using set_state_ok(1)[OF marks(3)] marks(2)
      by (intro served_inv_move[where D = "{}", OF marks.prems(2) marks(1)]) (auto split: if_splits)
  qed
qed

text \<open>A worker that is not done can go on without its peer failing.\<close>

lemma served_progress:
  assumes inv: "download_inv data t (segments_of t) (ps, f, m)" and held: "claims_held (ps, f, m)"
    and w: "w < length ps" and busy: "ps ! w \<noteq> At []"
    and range: "\<forall>k \<in> set (still_listed (ps ! w)). segment_state_of f (int_of_u32 k) \<noteq> None"
  shows "\<exists>s. served_step data (ps, f, m) s"
proof (cases "\<exists>k ks. ps ! w = Fetching k ks")
  case True
  then obtain k ks where at: "ps ! w = Fetching k ks" by blast
  let ?r = "fragment_error\<lparr>frs_fileCode := F_FINE, frs_fragment := data (nat (int_of_u32 k))\<rparr>"
  have "download_step data (ps, f, m) (ps[w := Storing k (frs_fragment ?r) ks], f, m)"
    by (rule download_step.receives[OF w at]) simp_all
  moreover have "\<not> gives_up_in (ps, f, m) (ps[w := Storing k (frs_fragment ?r) ks], f, m)"
    by (rule not_gives_up[OF w]) simp
  ultimately show ?thesis unfolding served_step_def by blast
next
  case False
  obtain p f' m' where "download_step data (ps, f, m) (ps[w := p], f', m')"
    using worker_moves[OF inv held w busy range] by blast
  moreover have "\<not> gives_up_in (ps, f, m) (ps[w := p], f', m')"
    by (rule not_gives_up[OF w]) (use False in blast)
  ultimately show ?thesis unfolding served_step_def by blast
qed

section \<open>Complete downloads\<close>

text \<open>The lists together hold every segment of the file, and nothing else.\<close>

definition lists_cover :: "torrent \<Rightarrow> 32 word list list \<Rightarrow> bool" where
  "lists_cover t listed \<longleftrightarrow> int_of_u32 ` set (concat listed) = int ` {0..<segments_of t}"

lemma lists_cover_range:
  assumes "lists_cover t listed" and "k \<in> set (concat listed)"
  shows "0 \<le> int_of_u32 k" and "int_of_u32 k < int (segments_of t)"
proof -
  have "int_of_u32 k \<in> int ` {0..<segments_of t}"
    using assms unfolding lists_cover_def by blast
  then show "0 \<le> int_of_u32 k" and "int_of_u32 k < int (segments_of t)" by auto
qed

text \<open>What is still listed is in the file.\<close>

lemma served_range:
  assumes start: "download_start data t (map At listed, f0, m0)" and cover: "lists_cover t listed"
    and run: "(served_step data)\<^sup>*\<^sup>* (map At listed, f0, m0) (ps, f, m)"
    and "p \<in> set ps" and "k \<in> set (still_listed p)"
  shows "segment_state_of f (int_of_u32 k) \<noteq> None"
proof -
  have inv: "download_inv data t (segments_of t) (ps, f, m)"
    using parallel_download.reachable_inv[OF served_reachable[OF start run]] .
  have "served_inv (set (concat listed)) (ps, f, m)"
    using rtranclp_keeps[OF run, of "served_inv (set (concat listed))"] served_step_inv served_inv_start by blast
  then have "k \<in> set (concat listed)" using assms(4,5) unfolding served_inv_def prod.case by blast
  then show ?thesis
    using lists_cover_range[OF cover] inv unfolding download_inv_def frame_inv_def prod.case by blast
qed

text \<open>A served download that cannot go on has every listed segment.\<close>

lemma served_end:
  assumes start: "download_start data t (map At listed, f0, m0)" and cover: "lists_cover t listed"
    and run: "(served_step data)\<^sup>*\<^sup>* (map At listed, f0, m0) (ps, f, m)"
    and stuck: "\<nexists>s. served_step data (ps, f, m) s"
  shows "allComplete (segments f)"
proof -
  have R: "reachable (download_start data t) (download_step data) (ps, f, m)"
    using start run by (rule served_reachable)
  note inv = parallel_download.reachable_inv[OF R] and held = held_claims.reachable_inv[OF R]
  have served: "served_inv (set (concat listed)) (ps, f, m)"
    using rtranclp_keeps[OF run, of "served_inv (set (concat listed))"] served_step_inv served_inv_start by blast
  have states: "segment_state_of f i \<noteq> None \<longleftrightarrow> 0 \<le> i \<and> i < int (segments_of t)" for i
    using inv unfolding download_inv_def frame_inv_def prod.case by blast
  have done_at: "ps ! w = At []" if w: "w < length ps" for w
  proof (rule ccontr)
    assume "ps ! w \<noteq> At []"
    moreover have "\<forall>k \<in> set (still_listed (ps ! w)). segment_state_of f (int_of_u32 k) \<noteq> None"
      using served_range[OF start cover run nth_mem[OF w]] by blast
    ultimately show False using served_progress[OF inv held w] stuck by blast
  qed
  then have idle: "p = At []" if "p \<in> set ps" for p using that by (metis in_set_conv_nth)
  have "segment_state_of f i = Some COMPLETE" if "segment_state_of f i \<noteq> None" for i
  proof -
    have "i \<in> int ` {0..<segments_of t}" using that unfolding states by (auto intro: image_eqI[of _ _ "nat i"])
    then obtain k where "i = int_of_u32 k" "k \<in> set (concat listed)"
      using cover unfolding lists_cover_def by blast
    with served idle have "segment_state_of f i \<noteq> Some FREE" by (fastforce simp: served_inv_def)
    moreover have "segment_state_of f i \<noteq> Some DOWNLOADING"
      using held done_at by (auto simp: claims_held_def holder_def)
    ultimately show ?thesis using that by (metis not_None_eq segment_state.exhaust)
  qed
  then show ?thesis by (simp add: allComplete_all_complete all_complete_def)
qed

text \<open>
  If no peer fails and the lists cover the file, a download of any number of workers can only stop
  with the file complete: it says so itself, and on disk is the data in order.
\<close>

theorem parallel_download_completes:
  assumes "download_start data t (map At listed, f0, m0)" and "lists_cover t listed"
    and "(served_step data)\<^sup>*\<^sup>* (map At listed, f0, m0) (ps, f, m)"
    and "\<nexists>s. served_step data (ps, f, m) s"
  shows "fst (isComplete f) = Inr True \<and>
    files (disk m) (c_str (fileName t)) = Some (concat (map data [0..<segments_of t]))"
proof -
  have all: "allComplete (segments f)" using assms by (rule served_end)
  have "reachable (download_start data t) (download_step data) (ps, f, m)"
    using assms(1,3) by (rule served_reachable)
  from download_inv_disk[OF parallel_download.reachable_inv[OF this]] all
  have "files (disk m) (c_str (fileName t)) = Some (concat (map data [0..<segments_of t]))" by metis
  with all show ?thesis by (simp add: isComplete_def)
qed

lemma one_served:
  "(served_step one_data)\<^sup>*\<^sup>* (map At [[0]], File one_torrent ''f'', one_manager)
    ([At []], completed 0 (File one_torrent ''f''),
     set_file ''f'' (put_block 0 (one_data 0) (replicate 8000 NUL)) one_manager)"
proof -
  have "served_step one_data ([At [0]], File one_torrent ''f'', one_manager)
     ([Fetching 0 []], claimed 0 (File one_torrent ''f''), one_manager)"
   "served_step one_data ([Fetching 0 []], claimed 0 (File one_torrent ''f''), one_manager)
     ([Storing 0 (one_data 0) []], claimed 0 (File one_torrent ''f''), one_manager)"
   "served_step one_data ([Storing 0 (one_data 0) []], claimed 0 (File one_torrent ''f''), one_manager)
     ([Marking 0 COMPLETE []], claimed 0 (File one_torrent ''f''),
      set_file ''f'' (put_block 0 (one_data 0) (replicate 8000 NUL)) one_manager)"
   "served_step one_data ([Marking 0 COMPLETE []], claimed 0 (File one_torrent ''f''),
      set_file ''f'' (put_block 0 (one_data 0) (replicate 8000 NUL)) one_manager)
     ([At []], completed 0 (File one_torrent ''f''),
      set_file ''f'' (put_block 0 (one_data 0) (replicate 8000 NUL)) one_manager)"
    using one_steps by (simp_all add: served_step_def gives_up_in_def)
  then show ?thesis by simp
qed

lemma one_stuck: "\<not> served_step one_data ([At []], f, m) s"
  by (auto simp: served_step_def elim!: download_step.cases)

lemma one_cover: "lists_cover one_torrent [[0]]"
  by (simp add: lists_cover_def one_segment int_of_u32_eq)

lemma parallel_download_completes_witness:
  "fst (isComplete (completed 0 (File one_torrent ''f''))) = Inr True \<and>
    files (disk (set_file ''f'' (put_block 0 (one_data 0) (replicate 8000 NUL)) one_manager)) ''f'' =
      Some (one_data 0)"
proof -
  have "fileName one_torrent = ''f''" by (simp add: one_torrent_def Torrent_hashed_def)
  then show ?thesis
    using parallel_download_completes [OF _ one_cover one_served] one_init one_stuck one_segment by simp
qed

section \<open>How long the file is\<close>

text \<open>
  C16. A complete download is as long as its segments: it holds the torrent's bytes and up to 7999
  more, and none more only if the size is a multiple of 8000.
\<close>

theorem downloaded_file_padded:
  assumes "reachable (download_start data t) (download_step data) (ps, f, m)" and "allComplete (segments f)"
  shows "\<exists>bs. files (disk m) (c_str (fileName t)) = Some bs \<and>
    unat (tsize t) \<le> length bs \<and> length bs < unat (tsize t) + 8000 \<and>
    (length bs = unat (tsize t) \<longleftrightarrow> 8000 dvd unat (tsize t))"
proof -
  have size: "tsize t < 2 ^ 31"
    using reachable_starts[OF assms(1)] by (auto simp: download_start_def)
  have upper: "unat (tsize t) \<le> segments_of t * 8000" "segments_of t * 8000 < unat (tsize t) + 8000"
    using segments_of_bounds[OF size] by simp_all
  obtain bs where bs: "files (disk m) (c_str (fileName t)) = Some bs" "length bs = segments_of t * 8000"
    using download_inv_disk[OF parallel_download.reachable_inv[OF assms(1)]] assms(2) by metis
  have "8000 dvd unat (tsize t) \<longleftrightarrow> segments_of t * 8000 = unat (tsize t)"
  proof
    assume "8000 dvd unat (tsize t)"
    then show "segments_of t * 8000 = unat (tsize t)" using upper by (elim dvdE) simp
  next
    assume "segments_of t * 8000 = unat (tsize t)"
    then show "8000 dvd unat (tsize t)" by (metis dvd_triv_right)
  qed
  with bs upper show ?thesis by auto
qed

lemma downloaded_file_padded_witness:
  "\<exists>bs. files (disk (set_file ''f'' (put_block 0 (one_data 0) (replicate 8000 NUL)) one_manager))
      (c_str (fileName one_torrent)) = Some bs \<and>
    unat (tsize one_torrent) \<le> length bs \<and> length bs < unat (tsize one_torrent) + 8000 \<and>
    (length bs = unat (tsize one_torrent) \<longleftrightarrow> 8000 dvd unat (tsize one_torrent))"
  by (rule downloaded_file_padded [OF one_complete one_all])

end
