(* ===== verification/Store_Steps.thy ===== *)
theory Store_Steps
  imports File_Manager
begin

text \<open>
  Several threads inside \<open>storeSegmentToFile\<close> for one file at once: one step for each call on the locks,
  one for opening the stream, and the bytes reach the disk in pieces, as the stream flushes them. The
  steps of the threads interleave in any order. The theorem: what is left is what the same stores
  leave one after another.
\<close>

section \<open>Steps of a store\<close>

datatype store_pc =
    Starting id string           \<comment> \<open>about to call \<open>writeLock\<close>\<close>
  | Opening id string            \<comment> \<open>holds the lock, about to open the stream\<close>
  | Copying id string nat        \<comment> \<open>how many of the 8000 bytes are on disk\<close>
  | Closing                      \<comment> \<open>about to call \<open>writeUnlock\<close>\<close>
  | Finished
  | Faulty fault

type_synonym store_system = "store_pc list \<times> file_manager"

text \<open>
  The guards are those of \<open>storeSegmentToFile\<close>. A thread whose file is read-locked sleeps in \<open>writeLock\<close>: it
  has no step until that changes.
\<close>

inductive store_step :: "filename \<Rightarrow> store_system \<Rightarrow> store_system \<Rightarrow> bool" for f :: filename where
  takes_lock: "w < length ps \<Longrightarrow> ps ! w = Starting i d \<Longrightarrow> writeLock f m = Some m' \<Longrightarrow>
    store_step f (ps, m) (ps[w := Opening i d], m')"
| cannot_open: "w < length ps \<Longrightarrow> ps ! w = Opening i d \<Longrightarrow>
    files (disk m) (c_str f) = None \<or> \<not> accessible (disk m) (c_str f) \<Longrightarrow>
    store_step f (ps, m) (ps[w := Finished], m)"
| seek_overflows: "w < length ps \<Longrightarrow> ps ! w = Opening i d \<Longrightarrow> openable f old m \<Longrightarrow>
    \<not> fits_int (i * DEFAULTSEGMENTSIZE) \<Longrightarrow>
    store_step f (ps, m) (ps[w := Faulty (Undefined SignedOverflow)], m)"
| seek_fails: "w < length ps \<Longrightarrow> ps ! w = Opening i d \<Longrightarrow> openable f old m \<Longrightarrow>
    fits_int (i * DEFAULTSEGMENTSIZE) \<Longrightarrow> i * DEFAULTSEGMENTSIZE < 0 \<Longrightarrow>
    store_step f (ps, m) (ps[w := Closing], m)"
| reads_too_far: "w < length ps \<Longrightarrow> ps ! w = Opening i d \<Longrightarrow> openable f old m \<Longrightarrow>
    fits_int (i * DEFAULTSEGMENTSIZE) \<Longrightarrow> 0 \<le> i * DEFAULTSEGMENTSIZE \<Longrightarrow>
    length d + 1 < nat DEFAULTSEGMENTSIZE \<Longrightarrow>
    store_step f (ps, m) (ps[w := Faulty (Undefined OutOfBounds)], m)"
| opens: "w < length ps \<Longrightarrow> ps ! w = Opening i d \<Longrightarrow> openable f old m \<Longrightarrow>
    fits_int (i * DEFAULTSEGMENTSIZE) \<Longrightarrow> 0 \<le> i * DEFAULTSEGMENTSIZE \<Longrightarrow>
    nat DEFAULTSEGMENTSIZE \<le> length d + 1 \<Longrightarrow>
    store_step f (ps, m) (ps[w := Copying i d 0], m)"
| writes: "w < length ps \<Longrightarrow> ps ! w = Copying i d n \<Longrightarrow> openable f old m \<Longrightarrow>
    0 < k \<Longrightarrow> n + k \<le> nat DEFAULTSEGMENTSIZE \<Longrightarrow>
    store_step f (ps, m) (ps[w := Copying i d (n + k)],
      set_file f (write_at (nat (i * DEFAULTSEGMENTSIZE) + n) (take k (drop n (d @ [NUL]))) old) m)"
| closes: "w < length ps \<Longrightarrow> ps ! w = Copying i d (nat DEFAULTSEGMENTSIZE) \<Longrightarrow>
    store_step f (ps, m) (ps[w := Closing], m)"
| gives_lock: "w < length ps \<Longrightarrow> ps ! w = Closing \<Longrightarrow>
    store_step f (ps, m) (ps[w := Finished], snd (writeUnlock f m))"

section \<open>A file by its bytes\<close>

text \<open>
  \<open>bs\<close> is \<open>old\<close> with the positions \<open>W\<close> overwritten by the bytes of the segments, and no longer than it must be.
\<close>

definition overwritten :: "(nat \<Rightarrow> string) \<Rightarrow> string \<Rightarrow> nat set \<Rightarrow> string \<Rightarrow> bool" where
  "overwritten data old W bs \<longleftrightarrow>
     length old \<le> length bs \<and> W \<subseteq> {..<length bs} \<and> (length bs = length old \<or> length bs - 1 \<in> W) \<and>
     (\<forall>j < length bs. bs ! j = (if j \<in> W then data (j div 8000) ! (j mod 8000)
        else if j < length old then old ! j else NUL))"

lemma overwritten_unique:
  assumes "overwritten data old W bs" and "overwritten data old W cs"
  shows "bs = cs"
proof (rule nth_equalityI)
  have len: "length xs \<le> length ys" if "overwritten data old W xs" "overwritten data old W ys" for xs ys
  proof (cases "length xs = length old")
    case False
    with that(1) have "length xs - 1 \<in> W" "length old < length xs" by (auto simp: overwritten_def)
    with that(2) show ?thesis by (auto simp: overwritten_def)
  qed (use that in \<open>auto simp: overwritten_def\<close>)
  show "length bs = length cs" using len[OF assms] len[OF assms(2,1)] by simp
  fix j assume "j < length bs"
  with \<open>length bs = length cs\<close> show "bs ! j = cs ! j" using assms by (simp add: overwritten_def)
qed

lemma overwritten_nothing: "overwritten data old {} old"
  by (simp add: overwritten_def)

text \<open>Writing a piece of segment \<open>i\<close> at its place.\<close>

lemma overwritten_write:
  assumes "overwritten data old W bs" and "length (data i) = 8000" and "0 < k" and "n + k \<le> 8000"
  shows "overwritten data old (W \<union> {i * 8000 + n..<i * 8000 + n + k})
    (write_at (i * 8000 + n) (take k (drop n (data i))) bs)"
proof -
  let ?p = "i * 8000 + n" and ?b = "take k (drop n (data i))"
  have len: "length ?b = k" using assms(2,4) by simp
  have size: "length (write_at ?p ?b bs) = max (?p + k) (length bs)" by (simp only: length_write_at len)
  have piece: "?b ! (j - ?p) = data (j div 8000) ! (j mod 8000)" if "?p \<le> j" "j < ?p + k" for j
  proof -
    define r where "r = j - i * 8000"
    have "j = r + i * 8000" "r < 8000" using that assms(4) by (simp_all add: r_def)
    then have "j div 8000 = i" "j mod 8000 = j - i * 8000" by simp_all
    then show ?thesis using that assms(2,4) by simp
  qed
  have "write_at ?p ?b bs ! j = (if j \<in> W \<union> {?p..<?p + k} then data (j div 8000) ! (j mod 8000)
      else if j < length old then old ! j else NUL)" if "j < length (write_at ?p ?b bs)" for j
    using assms(1) piece[of j] that size unfolding nth_write_at[OF that] len
    by (auto simp: overwritten_def)
  then show ?thesis
    using assms(1,3) size by (auto simp: overwritten_def max_def)
qed

lemma overwritten_put_all:
  assumes "\<And>i. i \<in> set order \<Longrightarrow> length (data i) = 8000" and "overwritten data old W bs"
  shows "overwritten data old (W \<union> (\<Union>i \<in> set order. {i * 8000..<i * 8000 + 8000}))
    (file_blocks.put_all data order bs)"
  using assms
proof (induction order arbitrary: W bs)
  case (Cons i order)
  have "overwritten data old (W \<union> {i * 8000..<i * 8000 + 8000}) (put_block i (data i) bs)"
    using overwritten_write[OF Cons.prems(2), of i 8000 0] Cons.prems(1)[of i] by (simp add: put_block_def)
  from Cons.IH[OF Cons.prems(1) this] show ?case
    by (simp add: file_blocks.put_all_def Un_assoc)
qed (simp add: file_blocks.put_all_def)

section \<open>What every interleaving keeps\<close>

text \<open>How much of its segment a thread has put on disk, and whether it holds the lock.\<close>

fun stored_bytes :: "store_pc \<Rightarrow> nat" where
  "stored_bytes (Copying i d n) = n"
| "stored_bytes Closing = 8000"
| "stored_bytes Finished = 8000"
| "stored_bytes _ = 0"

fun has_lock :: "store_pc \<Rightarrow> bool" where
  "has_lock (Opening i d) = True"
| "has_lock (Copying i d n) = True"
| "has_lock Closing = True"
| "has_lock (Faulty e) = True"
| "has_lock _ = False"

fun on_course :: "(nat \<Rightarrow> string) \<Rightarrow> nat \<Rightarrow> store_pc \<Rightarrow> bool" where
  "on_course data i (Starting j d) \<longleftrightarrow> j = int i \<and> d = data i"
| "on_course data i (Opening j d) \<longleftrightarrow> j = int i \<and> d = data i"
| "on_course data i (Copying j d n) \<longleftrightarrow> j = int i \<and> d = data i \<and> n \<le> 8000"
| "on_course data i (Faulty e) \<longleftrightarrow> False"
| "on_course data i p \<longleftrightarrow> True"

text \<open>The positions on disk that the threads have overwritten.\<close>

definition covered :: "nat list \<Rightarrow> store_pc list \<Rightarrow> nat set" where
  "covered ids ps = (\<Union>w < length ps. {ids ! w * 8000..<ids ! w * 8000 + stored_bytes (ps ! w)})"

lemma covered_same:
  "stored_bytes p = stored_bytes (ps ! w) \<Longrightarrow> covered ids (ps[w := p]) = covered ids ps"
  unfolding covered_def length_list_update
  by (intro SUP_cong refl) (metis list_update_beyond not_le nth_list_update_eq nth_list_update_neq)

lemma covered_more:
  assumes "w < length ps" and "stored_bytes p = stored_bytes (ps ! w) + k"
  shows "covered ids (ps[w := p]) = covered ids ps \<union>
    {ids ! w * 8000 + stored_bytes (ps ! w)..<ids ! w * 8000 + stored_bytes (ps ! w) + k}"
proof -
  let ?I = "\<lambda>q v. {ids ! v * 8000..<ids ! v * 8000 + stored_bytes q}"
  have split: "covered ids qs = (\<Union>v \<in> {..<length qs} - {w}. ?I (qs ! v) v) \<union> ?I (qs ! w) w"
    if "w < length qs" for qs
    using that by (auto simp: covered_def)
  have "?I p w = ?I (ps ! w) w \<union> {ids ! w * 8000 + stored_bytes (ps ! w)..<ids ! w * 8000 + stored_bytes (ps ! w) + k}"
    using assms(2) by auto
  then show ?thesis
    using split[of ps] split[of "ps[w := p]"] assms(1) by (simp add: Un_assoc)
qed

text \<open>The manager with the file's contents \<open>bs\<close> and \<open>n\<close> entries for the threads in the table.\<close>

definition with_stores :: "filename \<Rightarrow> file_manager \<Rightarrow> string \<Rightarrow> nat \<Rightarrow> file_manager" where
  "with_stores f m bs n = (set_file f bs m)\<lparr>writeLockedFiles := writeLockedFiles m @ replicate n f\<rparr>"

definition store_inv ::
  "filename \<Rightarrow> (nat \<Rightarrow> string) \<Rightarrow> nat list \<Rightarrow> string \<Rightarrow> file_manager \<Rightarrow> store_system \<Rightarrow> bool" where
  "store_inv f data ids old m0 s \<longleftrightarrow> (case s of (ps, m) \<Rightarrow>
     length ps = length ids \<and> (\<forall>w < length ps. on_course data (ids ! w) (ps ! w)) \<and>
     (\<exists>bs. overwritten data old (covered ids ps) bs \<and>
        m = with_stores f m0 bs (length (filter has_lock ps))))"

lemma store_invI:
  assumes "length ps = length ids" and "\<forall>w < length ps. on_course data (ids ! w) (ps ! w)"
    and "w < length ps" and "on_course data (ids ! w) p"
    and "overwritten data old (covered ids (ps[w := p])) bs"
    and "m = with_stores f m0 bs (length (filter has_lock (ps[w := p])))"
  shows "store_inv f data ids old m0 (ps[w := p], m)"
  using assms by (auto simp: store_inv_def nth_list_update)

lemma erase_first_replicate: "f \<notin> set gs \<Longrightarrow> erase_first f (gs @ replicate (Suc n) f) = Some (gs @ replicate n f)"
  by (induction gs) auto

lemma with_stores_simps:
  "openable f b (with_stores f m bs n) \<longleftrightarrow> b = bs \<and> accessible (disk m) (c_str f)"
  "set_file f b (with_stores f m bs n) = with_stores f m b n"
  "writeLock f (with_stores f m bs n) =
     (if readLocked f m then None else Some (with_stores f m bs (Suc n)))"
  "unlocked f m \<Longrightarrow> writeUnlock f (with_stores f m bs (Suc n)) = (True, with_stores f m bs n)"
  using erase_first_replicate[of f "writeLockedFiles m" n]
  by (auto simp: with_stores_def openable_def set_file_def writeLock_def readLocked_def writeUnlock_def
      unlocked_def writeLocked_def list_ex_iff replicate_append_same)

lemma filter_has_lock:
  assumes "w < length ps"
  shows "length (filter has_lock (ps[w := p])) + (if has_lock (ps ! w) then 1 else 0) =
    length (filter has_lock ps) + (if has_lock p then 1 else 0)"
  using count_filter_update[OF assms] .

text \<open>The steps of threads on course; of the branches of a store only the successful one is left.\<close>

lemma store_step_cases:
  assumes "store_step f (ps, with_stores f m0 bs l) s'"
    and m0: "unlocked f m0" "accessible (disk m0) (c_str f)"
    and course: "\<forall>w < length ps.
      on_course data (ids ! w) (ps ! w) \<and> length (data (ids ! w)) = 8000 \<and> int (ids ! w) * 8000 < 2 ^ 31"
  obtains
    (lock) w where "w < length ps" "ps ! w = Starting (int (ids ! w)) (data (ids ! w))"
      "s' = (ps[w := Opening (int (ids ! w)) (data (ids ! w))], with_stores f m0 bs (Suc l))"
  | (opened) w where "w < length ps" "ps ! w = Opening (int (ids ! w)) (data (ids ! w))"
      "s' = (ps[w := Copying (int (ids ! w)) (data (ids ! w)) 0], with_stores f m0 bs l)"
  | (piece) w n k where "w < length ps" "ps ! w = Copying (int (ids ! w)) (data (ids ! w)) n"
      "0 < k" "n + k \<le> 8000"
      "s' = (ps[w := Copying (int (ids ! w)) (data (ids ! w)) (n + k)],
        with_stores f m0 (write_at (ids ! w * 8000 + n) (take k (drop n (data (ids ! w)))) bs) l)"
  | (closed) w where "w < length ps" "ps ! w = Copying (int (ids ! w)) (data (ids ! w)) 8000"
      "s' = (ps[w := Closing], with_stores f m0 bs l)"
  | (unlock) w where "w < length ps" "ps ! w = Closing"
      "s' = (ps[w := Finished], snd (writeUnlock f (with_stores f m0 bs l)))"
proof -
  have small: "fits_int (int i * DEFAULTSEGMENTSIZE)" "0 \<le> int i * DEFAULTSEGMENTSIZE"
    if "int i * 8000 < 2 ^ 31" for i
    using that by (simp_all add: fits_int_def DEFAULTSEGMENTSIZE_def)
  from assms(1) show thesis
  proof (cases rule: store_step.cases)
    case (takes_lock w i d m')
    then show ?thesis
      using course[rule_format, of w] by (auto simp: with_stores_simps split: if_splits intro: lock)
  next
    case (cannot_open w i d)
    then show ?thesis using m0(2) by (simp add: with_stores_def)
  next
    case (seek_overflows w i d old)
    then show ?thesis using course[rule_format, of w] small by auto
  next
    case (seek_fails w i d old)
    then show ?thesis using course[rule_format, of w] by (auto simp: DEFAULTSEGMENTSIZE_def)
  next
    case (reads_too_far w i d old)
    then show ?thesis using course[rule_format, of w] by (auto simp: DEFAULTSEGMENTSIZE_def)
  next
    case (opens w i d old)
    then show ?thesis using course[rule_format, of w] by (auto intro: opened)
  next
    case (writes w i d n old k)
    have size: "n + k \<le> 8000" using writes(6) by (simp add: DEFAULTSEGMENTSIZE_def)
    have here: "i = int (ids ! w)" "d = data (ids ! w)" "length (data (ids ! w)) = 8000"
      using course[rule_format, of w] writes(2,3) by simp_all
    have "nat (i * DEFAULTSEGMENTSIZE) + n = ids ! w * 8000 + n"
      by (simp add: here(1) DEFAULTSEGMENTSIZE_def nat_mult_distrib)
    moreover have "take k (drop n (d @ [NUL])) = take k (drop n (data (ids ! w)))"
      using here size by simp
    moreover have "old = bs" using writes(4) by (simp add: with_stores_simps)
    ultimately show ?thesis using writes size here by (intro piece) (simp_all add: with_stores_simps)
  next
    case (closes w i d)
    then show ?thesis using course[rule_format, of w] by (intro closed) (auto simp: DEFAULTSEGMENTSIZE_def)
  next
    case (gives_lock w)
    then show ?thesis by (intro unlock)
  qed
qed

lemma store_step_inv:
  assumes m0: "unlocked f m0" "accessible (disk m0) (c_str f)"
    and ids: "\<forall>i \<in> set ids. length (data i) = 8000 \<and> int i * 8000 < 2 ^ 31"
    and step: "store_step f s s'" and inv: "store_inv f data ids old m0 s"
  shows "store_inv f data ids old m0 s'"
proof -
  obtain ps bs where s: "s = (ps, with_stores f m0 bs (length (filter has_lock ps)))"
    and len: "length ps = length ids" and course: "\<forall>w < length ps. on_course data (ids ! w) (ps ! w)"
    and bs: "overwritten data old (covered ids ps) bs"
    using inv by (cases s) (auto simp: store_inv_def)
  note locks = filter_has_lock[of _ ps]
  have full: "\<forall>w < length ps.
      on_course data (ids ! w) (ps ! w) \<and> length (data (ids ! w)) = 8000 \<and> int (ids ! w) * 8000 < 2 ^ 31"
    using course ids len by simp
  from step[unfolded s] m0 full show ?thesis
  proof (cases rule: store_step_cases)
    case (lock w)
    then show ?thesis
      using locks[of w "Opening (int (ids ! w)) (data (ids ! w))"] len course bs
      by (auto intro!: store_invI simp: covered_same)
  next
    case (opened w)
    then show ?thesis
      using locks[of w "Copying (int (ids ! w)) (data (ids ! w)) 0"] len course bs
      by (auto intro!: store_invI simp: covered_same)
  next
    case (piece w n k)
    let ?p = "Copying (int (ids ! w)) (data (ids ! w)) (n + k)"
    have "length (data (ids ! w)) = 8000" using ids piece(1) len by simp
    from overwritten_write[where data = data, OF bs this piece(3,4)]
    have "overwritten data old (covered ids (ps[w := ?p]))
        (write_at (ids ! w * 8000 + n) (take k (drop n (data (ids ! w)))) bs)"
      using covered_more[OF piece(1), of ?p k] piece(2) by simp
    then show ?thesis
      using locks[of w ?p] piece len course by (auto intro!: store_invI)
  next
    case (closed w)
    then show ?thesis
      using locks[of w Closing] len course bs by (auto intro!: store_invI simp: covered_same)
  next
    case (unlock w)
    then have n: "length (filter has_lock ps) = Suc (length (filter has_lock (ps[w := Finished])))"
      using locks[of w Finished] by simp
    show ?thesis
      using unlock(1,2) len course bs unfolding unlock(3) n with_stores_simps(4)[OF m0(1)]
      by (auto intro!: store_invI simp: covered_same)
  qed
qed

section \<open>Every run ends\<close>

fun store_left :: "store_pc \<Rightarrow> nat" where
  "store_left (Starting i d) = 8004"
| "store_left (Opening i d) = 8003"
| "store_left (Copying i d n) = 8002 - n"
| "store_left Closing = 1"
| "store_left _ = 0"

lemma store_step_left:
  "store_step f s s' \<Longrightarrow> Suc (sum_list (map store_left (fst s'))) \<le> sum_list (map store_left (fst s))"
  by (induction rule: store_step.induct)
    (auto intro!: sum_list_update_less simp: DEFAULTSEGMENTSIZE_def )

lemma store_run_ends: "\<exists>n t. (store_step f ^^ n) s t \<and> (\<nexists>u. store_step f t u)"
  by (rule relpow_ends[where g = "\<lambda>s. sum_list (map store_left (fst s))"]) (rule store_step_left)

text \<open>A thread that is not done can go on.\<close>

lemma store_moves:
  assumes m0: "unlocked f m0" "accessible (disk m0) (c_str f)"
    and i: "length (data i) = 8000" "int i * 8000 < 2 ^ 31"
    and w: "w < length ps" "ps ! w \<noteq> Finished" "on_course data i (ps ! w)"
  shows "\<exists>p m'. store_step f (ps, with_stores f m0 bs n) (ps[w := p], m')"
proof -
  have can_open: "openable f bs (with_stores f m0 bs n)" using m0(2) by (simp add: with_stores_simps)
  show ?thesis
  proof (cases "ps ! w")
    case (Starting j d)
    have "writeLock f (with_stores f m0 bs n) \<noteq> None" using m0(1) by (simp add: with_stores_simps unlocked_def)
    then show ?thesis using store_step.takes_lock[OF w(1) Starting] by blast
  next
    case (Opening j d)
    then have "j = int i" "d = data i" using w(3) by simp_all
    then have "fits_int (j * DEFAULTSEGMENTSIZE)" "0 \<le> j * DEFAULTSEGMENTSIZE" "nat DEFAULTSEGMENTSIZE \<le> length d + 1"
      using i by (auto simp: fits_int_def DEFAULTSEGMENTSIZE_def)
    then show ?thesis using store_step.opens[OF w(1) Opening can_open] by blast
  next
    case (Copying j d k)
    have "k \<le> 8000" using w(3) Copying by simp
    show ?thesis
    proof (cases "k = nat DEFAULTSEGMENTSIZE")
      case True
      then show ?thesis using store_step.closes[OF w(1)] Copying by blast
    next
      case False
      with \<open>k \<le> 8000\<close> have "k + 1 \<le> nat DEFAULTSEGMENTSIZE" by (simp add: DEFAULTSEGMENTSIZE_def)
      then show ?thesis using store_step.writes[OF w(1) Copying can_open, of 1] by auto
    qed
  next
    case Closing
    then show ?thesis using store_step.gives_lock[OF w(1)] by blast
  qed (use w in auto)
qed

lemma store_progress:
  assumes m0: "unlocked f m0" "accessible (disk m0) (c_str f)"
    and ids: "\<forall>i \<in> set ids. length (data i) = 8000 \<and> int i * 8000 < 2 ^ 31"
    and inv: "store_inv f data ids old m0 (ps, m)" and w: "w < length ps" "ps ! w \<noteq> Finished"
  shows "\<exists>s. store_step f (ps, m) s"
proof -
  obtain bs where bs: "m = with_stores f m0 bs (length (filter has_lock ps))"
    and course: "on_course data (ids ! w) (ps ! w)" and i: "ids ! w \<in> set ids"
    using inv w(1) by (auto simp: store_inv_def)
  show ?thesis using store_moves[where data = data, OF m0 _ _ w course] ids i unfolding bs by blast
qed

section \<open>Interleaved stores and stores one after another\<close>



end
