(* ===== verification/Parallel_Stores.thy ===== *)
theory Parallel_Stores
  imports Parallel_Runs Store_Steps
begin

text \<open>
  The workers of \<open>Parallel_Download\<close> with \<open>storeSegmentToFile\<close> in its own steps (\<open>Store_Steps\<close>), not in one: workers
  lock, open, write pieces, close and unlock while others claim, receive, write and mark. These runs
  refine those of \<open>Parallel_Download\<close>, so what holds there of claims, states and disk holds here.
\<close>

section \<open>Workers with stores in pieces\<close>

datatype fine_pc =
    Outer worker_pc
  | InStore "32 word" "32 word list" store_pc     \<comment> \<open>inside the call for a fragment\<close>

type_synonym fine_state = "fine_pc list \<times> file_obj \<times> file_manager"

inductive fine_step :: "(nat \<Rightarrow> string) \<Rightarrow> fine_state \<Rightarrow> fine_state \<Rightarrow> bool"
  for data :: "nat \<Rightarrow> string" where
  outside: "w < length ps \<Longrightarrow> ps ! w = Outer p \<Longrightarrow> (\<forall>k d ks. p \<noteq> Storing k d ks) \<Longrightarrow>
    download_step data ([p], f, m) ([p'], f', m') \<Longrightarrow>
    fine_step data (ps, f, m) (ps[w := Outer p'], f', m')"
| calls_store: "w < length ps \<Longrightarrow> ps ! w = Outer (Storing k d ks) \<Longrightarrow>
    fine_step data (ps, f, m) (ps[w := InStore k ks (Starting (int_of_u32 k) d)], f, m)"
| in_store: "w < length ps \<Longrightarrow> ps ! w = InStore k ks p \<Longrightarrow>
    store_step (fileName (fileTorrent f)) ([p], m) ([p'], m') \<Longrightarrow>
    fine_step data (ps, f, m) (ps[w := InStore k ks p'], f, m')"
| store_returns: "w < length ps \<Longrightarrow> ps ! w = InStore k ks Finished \<Longrightarrow>
    fine_step data (ps, f, m) (ps[w := Outer (Marking k COMPLETE ks)], f, m)"

definition fine_start :: "(nat \<Rightarrow> string) \<Rightarrow> torrent \<Rightarrow> fine_state \<Rightarrow> bool" where
  "fine_start data t s \<longleftrightarrow> (\<exists>ps f m. download_start data t (ps, f, m) \<and> s = (map Outer ps, f, m))"

section \<open>The abstract run\<close>

text \<open>A store takes effect when its last piece is on disk and the stream is closed.\<close>

fun abs_pc :: "fine_pc \<Rightarrow> worker_pc" where
  "abs_pc (Outer p) = p"
| "abs_pc (InStore k ks (Starting i d)) = Storing k d ks"
| "abs_pc (InStore k ks (Opening i d)) = Storing k d ks"
| "abs_pc (InStore k ks (Copying i d n)) = Storing k d ks"
| "abs_pc (InStore k ks p) = Marking k COMPLETE ks"

fun half_written :: "fine_pc \<Rightarrow> nat set" where
  "half_written (InStore k ks (Copying i d n)) = {nat i * 8000..<nat i * 8000 + n}"
| "half_written p = {}"

fun locks_file :: "fine_pc \<Rightarrow> bool" where
  "locks_file (InStore k ks p) = has_lock p"
| "locks_file (Outer p) = False"

fun on_track :: "(nat \<Rightarrow> string) \<Rightarrow> fine_pc \<Rightarrow> bool" where
  "on_track data (InStore k ks p) \<longleftrightarrow> 0 \<le> int_of_u32 k \<and> on_course data (nat (int_of_u32 k)) p"
| "on_track data (Outer p) \<longleftrightarrow> True"

lemma on_trackE:
  assumes "on_track data (InStore k ks p)"
  obtains i where "int_of_u32 k = int i" and "on_course data i p"
  using assms that[of "nat (int_of_u32 k)"] by simp

definition in_pieces :: "fine_pc list \<Rightarrow> nat set" where
  "in_pieces ps = (\<Union>w < length ps. half_written (ps ! w))"

lemma in_pieces_split:
  assumes "w < length ps"
  obtains R where "in_pieces ps = R \<union> half_written (ps ! w)"
    and "\<And>p. in_pieces (ps[w := p]) = R \<union> half_written p"
proof
  have split: "in_pieces qs = (\<Union>v \<in> {..<length qs} - {w}. half_written (qs ! v)) \<union> half_written (qs ! w)"
    if "w < length qs" for qs
    using that by (auto simp: in_pieces_def)
  show "in_pieces ps = (\<Union>v \<in> {..<length ps} - {w}. half_written (ps ! v)) \<union> half_written (ps ! w)"
    using assms by (rule split)
  show "in_pieces (ps[w := p]) = (\<Union>v \<in> {..<length ps} - {w}. half_written (ps ! v)) \<union> half_written p" for p
    using split[of "ps[w := p]"] assms by simp
qed

lemma in_pieces_same:
  assumes "w < length ps" and "half_written p = half_written (ps ! w)"
  shows "in_pieces (ps[w := p]) = in_pieces ps"
  using in_pieces_split[OF assms(1)] assms(2) by metis

text \<open>The disk of the abstract run does not have the pieces yet, nor the lock tables the lock.\<close>

definition fine_rel :: "(nat \<Rightarrow> string) \<Rightarrow> torrent \<Rightarrow> fine_state \<Rightarrow> download_state \<Rightarrow> bool" where
  "fine_rel data t s u \<longleftrightarrow> (case s of (ps, f, m) \<Rightarrow> case u of (qs, g, a) \<Rightarrow>
     qs = map abs_pc ps \<and> g = f \<and> (\<forall>p \<in> set ps. on_track data p) \<and>
     (\<exists>old bs. openable (fileName t) old a \<and> overwritten data old (in_pieces ps) bs \<and>
        m = with_stores (fileName t) a bs (length (filter locks_file ps))))"

lemma fine_relE:
  assumes "fine_rel data t (ps, f, m) u"
  obtains a old bs where "u = (map abs_pc ps, f, a)" and "\<forall>p \<in> set ps. on_track data p"
    and "openable (fileName t) old a" and "overwritten data old (in_pieces ps) bs"
    and "m = with_stores (fileName t) a bs (length (filter locks_file ps))"
  using assms by (cases u) (auto simp: fine_rel_def)

text \<open>One worker moves on.\<close>

lemma fine_relI:
  assumes "w < length ps" and "\<forall>p \<in> set ps. on_track data p" and "on_track data p"
    and "openable (fileName t) old a" and "overwritten data old (in_pieces (ps[w := p])) bs"
    and "m = with_stores (fileName t) a bs (length (filter locks_file (ps[w := p])))"
  shows "fine_rel data t (ps[w := p], f, m) ((map abs_pc ps)[w := abs_pc p], f, a)"
  using assms by (auto simp: fine_rel_def map_update elim: in_set_updateE)

lemma fine_rel_stutter:
  assumes "w < length ps" and "\<forall>p \<in> set ps. on_track data p" and "on_track data p"
    and "openable (fileName t) old a" and "overwritten data old (in_pieces (ps[w := p])) bs"
    and "m = with_stores (fileName t) a bs (length (filter locks_file (ps[w := p])))"
    and "abs_pc p = abs_pc (ps ! w)"
  shows "fine_rel data t (ps[w := p], f, m) (map abs_pc ps, f, a)"
proof -
  have "(map abs_pc ps)[w := abs_pc p] = map abs_pc ps"
    by (metis assms(7) list_update_id map_update)
  with fine_relI[OF assms(1-6)] show ?thesis by simp
qed

lemma with_stores_locks:
  assumes "w < length ps" and "locks_file p = locks_file (ps ! w)"
  shows "length (filter locks_file (ps[w := p])) = length (filter locks_file ps)"
  using count_filter_update[OF assms(1), of locks_file p] assms(2) by (auto split: if_splits)

lemma step_alone:
  assumes "download_step data ([p], f, m) ([p'], f', m')" and "\<forall>k d ks. p \<noteq> Storing k d ks"
  shows "m' = m" and "w < length qs \<Longrightarrow> qs ! w = p \<Longrightarrow> download_step data (qs, f, a) (qs[w := p'], f', a)"
  using assms by (auto elim!: download_step.cases intro: download_step.intros)
    (metis download_step.receives)

text \<open>A whole segment among the pieces is as good as stored before.\<close>

lemma overwritten_absorb:
  assumes "overwritten data old (W \<union> {i * 8000..<i * 8000 + 8000}) bs" and "length (data i) = 8000"
  shows "overwritten data (put_block i (data i) old) W bs"
proof -
  let ?B = "{i * 8000..<i * 8000 + 8000}" and ?new = "put_block i (data i) old"
  have len: "length ?new = max (i * 8000 + 8000) (length old)"
    using assms(2) by (simp add: put_block_def length_write_at)
  have bs: "length old \<le> length bs" "W \<union> ?B \<subseteq> {..<length bs}"
    "length bs = length old \<or> length bs - 1 \<in> W \<union> ?B"
    "\<And>j. j < length bs \<Longrightarrow> bs ! j = (if j \<in> W \<union> ?B then data (j div 8000) ! (j mod 8000)
        else if j < length old then old ! j else NUL)"
    using assms(1) unfolding overwritten_def by blast+
  have "i * 8000 + 7999 \<in> W \<union> ?B" by simp
  then have upto: "i * 8000 + 8000 \<le> length bs" using bs(2) by fastforce
  have "bs ! j = (if j \<in> W then data (j div 8000) ! (j mod 8000)
      else if j < length ?new then ?new ! j else NUL)" if j: "j < length bs" for j
  proof (cases "j \<in> ?B")
    case True
    define r where "r = j - i * 8000"
    have r: "j = r + i * 8000" "r < 8000" using True by (auto simp: r_def)
    then have "j div 8000 = i" "j mod 8000 = r" by simp_all
    moreover have "?new ! j = data i ! r"
      using True len assms(2) nth_write_at[of j "i * 8000" "data i" old] r by (simp add: put_block_def)
    moreover have "j < length ?new" using True len by (simp add: less_max_iff_disj)
    ultimately show ?thesis using bs(4)[OF j] True by simp
  next
    case False
    have "?new ! j = (if j < length old then old ! j else NUL)" if "j < length ?new"
      using False that len assms(2) nth_write_at[of j "i * 8000" "data i" old] by (auto simp: put_block_def)
    then show ?thesis using bs(4)[OF j] False len by auto
  qed
  moreover have "length bs = length ?new \<or> length bs - 1 \<in> W"
    using bs(1,3) upto len by auto
  ultimately show ?thesis
    using bs(1,2) upto len by (simp add: overwritten_def)
qed

section \<open>The simulation\<close>

lemma fine_sim:
  assumes "fine_step data s s'" and "fine_rel data t s u" and "download_inv data t n u"
  shows "\<exists>u'. fine_rel data t s' u' \<and> (u' = u \<or> download_step data u u')"
  using assms
proof (induction rule: fine_step.induct)
  case (outside w ps p f m p' f' m')
  obtain a old bs where rel: "u = (map abs_pc ps, f, a)" "\<forall>p \<in> set ps. on_track data p"
    "openable (fileName t) old a" "overwritten data old (in_pieces ps) bs"
    "m = with_stores (fileName t) a bs (length (filter locks_file ps))"
    by (rule fine_relE[OF outside.prems(1)])
  note alone = step_alone[OF outside(4,3)]
  have "download_step data (map abs_pc ps, f, a) ((map abs_pc ps)[w := p'], f', a)"
    by (rule alone(2)) (use outside(1,2) in simp_all)
  moreover have "fine_rel data t (ps[w := Outer p'], f', m') ((map abs_pc ps)[w := abs_pc (Outer p')], f', a)"
    by (rule fine_relI) (use outside(1,2) rel alone(1) in \<open>simp_all add: in_pieces_same with_stores_locks\<close>)
  ultimately show ?case using rel(1) by auto
next
  case (calls_store w ps k d ks f m)
  obtain a old bs where rel: "u = (map abs_pc ps, f, a)" "\<forall>p \<in> set ps. on_track data p"
    "openable (fileName t) old a" "overwritten data old (in_pieces ps) bs"
    "m = with_stores (fileName t) a bs (length (filter locks_file ps))"
    by (rule fine_relE[OF calls_store.prems(1)])
  have inv: "claims_inv (map abs_pc ps) f" "frame_inv data t n (map abs_pc ps, f, a)"
    "disk_inv data t n (map abs_pc ps, f, a)"
    using calls_store.prems(2) by (simp_all add: download_inv_def rel(1))
  have here: "map abs_pc ps ! w = Storing k d ks" "w < length (map abs_pc ps)" using calls_store(1,2) by simp_all
  then have "Storing k d ks \<in> set (map abs_pc ps)" by (metis nth_mem)
  then have d: "d = data (nat (int_of_u32 k))" using inv(3) unfolding disk_inv_def prod.case by blast
  have "busy_with (map abs_pc ps ! w) = Some (int_of_u32 k)" using here by simp
  from held_segment[OF inv(1,2) here(2) this] obtain i where "int_of_u32 k = int i" .
  then have "fine_rel data t (ps[w := InStore k ks (Starting (int_of_u32 k) d)], f, m) (map abs_pc ps, f, a)"
    using d by (intro fine_rel_stutter) (use calls_store(1,2) rel in \<open>simp_all add: in_pieces_same with_stores_locks\<close>)
  then show ?case using rel(1) by blast
next
  case (in_store w ps k ks p f m p' m')
  obtain a old bs where rel: "u = (map abs_pc ps, f, a)" "\<forall>p \<in> set ps. on_track data p"
    "openable (fileName t) old a" "overwritten data old (in_pieces ps) bs"
    "m = with_stores (fileName t) a bs (length (filter locks_file ps))"
    by (rule fine_relE[OF in_store.prems(1)])
  have frame: "fileTorrent f = t" "unlocked (fileName t) a" "\<forall>i. length (data i) = 8000"
    using in_store.prems(2) by (simp_all add: download_inv_def frame_inv_def rel(1))
  have inv: "claims_inv (map abs_pc ps) f" "frame_inv data t n (map abs_pc ps, f, a)"
    using in_store.prems(2) by (simp_all add: download_inv_def rel(1))
  have track: "on_track data (InStore k ks p)" using rel(2) in_store(1,2) by (metis nth_mem)
  then obtain i where i: "int_of_u32 k = int i" "on_course data i p" by (rule on_trackE)
  have "busy_with (map abs_pc ps ! w) = Some (int_of_u32 k)"
    using in_store(1,2) by (cases p) simp_all
  from held_segment[OF inv(1,2) _ this] in_store(1)
  obtain j where "int_of_u32 k = int j" "int j * 8000 < 2 ^ 31" by auto
  with i have size: "int i * 8000 < 2 ^ 31" by simp
  have course: "\<forall>v < length [p]. on_course data ([i] ! v) ([p] ! v) \<and> length (data ([i] ! v)) = 8000 \<and>
      int ([i] ! v) * 8000 < 2 ^ 31"
    using i frame(3) size by simp
  have access: "accessible (disk a) (c_str (fileName t))" using rel(3) by (simp add: openable_def)
  have step: "store_step (fileName t) ([p], with_stores (fileName t) a bs (length (filter locks_file ps))) ([p'], m')"
    using in_store(3) by (simp add: frame(1) rel(5))
  obtain R where R: "in_pieces ps = R \<union> half_written (ps ! w)" "\<And>p. in_pieces (ps[w := p]) = R \<union> half_written p"
    by (rule in_pieces_split[OF in_store(1)]) blast
  note count = count_filter_update[OF in_store(1), of locks_file]
  have stutter: ?case
    if "abs_pc (InStore k ks p') = abs_pc (InStore k ks p)" "on_course data i p'"
      "overwritten data old (in_pieces (ps[w := InStore k ks p'])) bs'"
      "m' = with_stores (fileName t) a bs' (length (filter locks_file (ps[w := InStore k ks p'])))" for bs'
  proof -
    have "on_track data (InStore k ks p')" using i that(2) by simp
    from fine_rel_stutter[OF in_store(1) rel(2) this rel(3) that(3,4)] that(1) in_store(2)
    show ?thesis using rel(1) by auto
  qed
  from step frame(2) access course show ?case
  proof (cases rule: store_step_cases)
    case (lock v)
    then show ?thesis using count[of "InStore k ks p'"] in_store(2) rel(4) R by (intro stutter[of bs]) auto
  next
    case (opened v)
    then show ?thesis using count[of "InStore k ks p'"] in_store(2) rel(4) R by (intro stutter[of bs]) auto
  next
    case (piece v l c)
    let ?new = "InStore k ks (Copying (int i) (data i) (l + c))"
    have p: "p = Copying (int i) (data i) l" and p': "p' = Copying (int i) (data i) (l + c)"
      and m': "m' = with_stores (fileName t) a (write_at (i * 8000 + l) (take c (drop l (data i))) bs)
        (length (filter locks_file ps))"
      using piece by simp_all
    have "in_pieces (ps[w := ?new]) = in_pieces ps \<union> {i * 8000 + l..<i * 8000 + l + c}"
      using R in_store(2) p by auto
    moreover have "length (filter locks_file (ps[w := ?new])) = length (filter locks_file ps)"
      using in_store(1,2) p by (simp add: with_stores_locks)
    ultimately show ?thesis
      using overwritten_write[where data = data, OF rel(4) _ piece(3,4)] frame(3) piece(4)
      by (intro stutter) (simp_all add: p p' m')
  next
    case (closed v)
    then have p: "p = Copying (int i) (data i) 8000" and p': "p' = Closing"
      and m': "m' = with_stores (fileName t) a bs (length (filter locks_file ps))" by simp_all
    let ?a = "set_file (fileName t) (put_block i (data i) old) a"
    have "in_pieces ps = in_pieces (ps[w := InStore k ks Closing]) \<union> {i * 8000..<i * 8000 + 8000}"
      using R in_store(2) p by auto
    with rel(4) have bs: "overwritten data (put_block i (data i) old) (in_pieces (ps[w := InStore k ks Closing])) bs"
      using frame(3) by (intro overwritten_absorb) simp_all
    have "m' = with_stores (fileName t) ?a bs (length (filter locks_file (ps[w := InStore k ks Closing])))"
      using in_store(1,2) p by (simp add: m' with_stores_locks with_stores_def)
    then have "fine_rel data t (ps[w := InStore k ks Closing], f, m')
        ((map abs_pc ps)[w := abs_pc (InStore k ks Closing)], f, ?a)"
      using i access by (intro fine_relI[OF in_store(1) rel(2) _ _ bs]) simp_all
    moreover have "download_step data (map abs_pc ps, f, a) ((map abs_pc ps)[w := Marking k COMPLETE ks], f, ?a)"
      using storeSegmentToFile_full[OF frame(2) rel(3) size, of "data i" "filePath f"] frame(1,3) i(1) in_store(1,2) p
      by (intro download_step.stores) simp_all
    ultimately show ?thesis using rel(1) p' by auto
  next
    case (unlock v)
    then have p: "p = Closing" and p': "p' = Finished" by simp_all
    have n: "length (filter locks_file ps) = Suc (length (filter locks_file (ps[w := InStore k ks Finished])))"
      using count[of "InStore k ks Finished"] in_store(2) p by simp
    have "m' = with_stores (fileName t) a bs (length (filter locks_file (ps[w := InStore k ks Finished])))"
      using unlock(3) unfolding n with_stores_simps(4)[OF frame(2)] by simp
    then show ?thesis using in_store(2) rel(4) R p by (intro stutter[of bs]) (simp_all add: p')
  qed
next
  case (store_returns w ps k ks f m)
  obtain a old bs where rel: "u = (map abs_pc ps, f, a)" "\<forall>p \<in> set ps. on_track data p"
    "openable (fileName t) old a" "overwritten data old (in_pieces ps) bs"
    "m = with_stores (fileName t) a bs (length (filter locks_file ps))"
    by (rule fine_relE[OF store_returns.prems(1)])
  have "fine_rel data t (ps[w := Outer (Marking k COMPLETE ks)], f, m) (map abs_pc ps, f, a)"
    by (rule fine_rel_stutter) (use store_returns(1,2) rel in \<open>simp_all add: in_pieces_same with_stores_locks\<close>)
  then show ?case using rel(1) by blast
qed

section \<open>What holds of the disk\<close>

lemma fine_rel_start:
  assumes "download_start data t (ps, f, m)"
  shows "fine_rel data t (map Outer ps, f, m) (ps, f, m)"
proof -
  obtain old where old: "openable (fileName t) old m"
    using download_start_inv[OF assms] by (auto simp: download_inv_def disk_inv_def)
  have "with_stores (fileName t) m old 0 = m"
    using old by (cases m) (simp add: with_stores_def set_file_def openable_def fun_upd_idem)
  moreover have "in_pieces (map Outer ps) = {}" by (simp add: in_pieces_def)
  ultimately show ?thesis
    unfolding fine_rel_def prod.case using old overwritten_nothing
    by (intro conjI exI[of _ old]) (simp_all add: o_def)
qed

text \<open>Every run with stores in pieces has an abstract run beside it.\<close>

lemma fine_reachable:
  assumes "reachable (fine_start data t) (fine_step data) s"
  shows "\<exists>u. reachable (download_start data t) (download_step data) u \<and> fine_rel data t s u"
  using assms
proof (induction rule: reachable.induct)
  case (reachable_init s)
  then obtain ps f m where "download_start data t (ps, f, m)" "s = (map Outer ps, f, m)"
    by (auto simp: fine_start_def)
  then show ?case using fine_rel_start reachable.reachable_init by metis
next
  case (reachable_step s s')
  then obtain u where u: "reachable (download_start data t) (download_step data) u" "fine_rel data t s u" by blast
  from fine_sim[OF reachable_step(2) u(2) parallel_download.reachable_inv[OF u(1)]]
  show ?case using u(1) reachable.reachable_step by metis
qed

text \<open>The pieces on disk belong to segments that are being downloaded.\<close>

lemma pieces_of_claimed:
  assumes "fine_rel data t (ps, f, m) (qs, g, a)" and "claims_inv qs f" and "j \<in> in_pieces ps"
  shows "segment_state_of f (int (j div 8000)) = Some DOWNLOADING"
proof -
  obtain w where w: "w < length ps" "j \<in> half_written (ps ! w)"
    using assms(3) by (auto simp: in_pieces_def)
  have track: "on_track data (ps ! w)" and qs: "qs = map abs_pc ps"
    using assms(1) w(1) by (auto simp: fine_rel_def)
  obtain k ks i d n where p: "ps ! w = InStore k ks (Copying i d n)" and j: "j \<in> {nat i * 8000..<nat i * 8000 + n}"
    using w(2) by (cases "ps ! w" rule: half_written.cases) auto
  have "i = int_of_u32 k" "n \<le> 8000" "0 \<le> int_of_u32 k" using track p by auto
  moreover from this j have "j div 8000 = nat i" by (intro div_nat_eqI) auto
  moreover have "holder qs w (int_of_u32 k)" using w(1) p by (simp add: holder_def qs)
  ultimately show ?thesis using assms(2) by (simp add: claims_inv_def)
qed

text \<open>What the disk is in a run with stores in pieces.\<close>

lemma fine_disk:
  assumes R: "reachable (download_start data t) (download_step data) u" and rel: "fine_rel data t (ps, f, m) u"
  obtains bs where "files (disk m) (c_str (fileName t)) = Some bs"
    and "\<forall>i. segment_state_of f (int i) = Some COMPLETE \<longrightarrow> block i bs = data i"
    and "allComplete (segments f) \<longrightarrow> bs = concat (map data [0..<segments_of t])"
proof -
  obtain a old bs where u: "u = (map abs_pc ps, f, a)" and old: "openable (fileName t) old a"
    and bs: "overwritten data old (in_pieces ps) bs"
    and m: "m = with_stores (fileName t) a bs (length (filter locks_file ps))"
    by (rule fine_relE[OF rel])
  have inv: "download_inv data t (segments_of t) (map abs_pc ps, f, a)"
    using parallel_download.reachable_inv[OF R] by (simp add: u)
  then have claims: "claims_inv (map abs_pc ps) f" by (simp add: download_inv_def)
  note pieces = pieces_of_claimed[OF rel[unfolded u] claims]
  obtain old' where "files (disk a) (c_str (fileName t)) = Some old'"
    and done_blocks: "\<And>i. segment_state_of f (int i) = Some COMPLETE \<Longrightarrow> block i old' = data i"
    and all: "allComplete (segments f) \<Longrightarrow> old' = concat (map data [0..<segments_of t])"
    using download_inv_disk[OF inv] by metis
  with old have [simp]: "old' = old" by (simp add: openable_def)
  have "block i bs = data i" if c: "segment_state_of f (int i) = Some COMPLETE" for i
  proof -
    have "j \<notin> in_pieces ps" if "i * 8000 \<le> j" "j < i * 8000 + 8000" for j
    proof -
      have "j div 8000 = i" using that by (intro div_nat_eqI) auto
      then show ?thesis using pieces[of j] c by auto
    qed
    then have "block i bs = block i old"
      using bs by (intro nth_equalityI) (auto simp: nth_block overwritten_def)
    with done_blocks[OF c] show ?thesis by simp
  qed
  moreover have "bs = old" if "allComplete (segments f)"
  proof -
    have "segment_state_of f i \<noteq> Some DOWNLOADING" for i
      using that by (auto simp: segment_state_of_def allComplete_iff inRange_def)
    then have "in_pieces ps = {}" using pieces by blast
    with bs show ?thesis using overwritten_unique overwritten_nothing by metis
  qed
  ultimately show thesis using all that by (auto simp: m with_stores_def)
qed

text \<open>
  C12. The workers may store in pieces: however their calls interleave, down to the pieces in
  which bytes reach the disk, there is a run with the same claims and states in which every
  store is one step. A complete segment is on disk; and when \<open>isComplete\<close> answers true, the file on disk is the
  segments' data in order.
\<close>

theorem stores_in_pieces_correct:
  assumes "reachable (fine_start data t) (fine_step data) (ps, f, m)"
  shows "\<exists>a bs. reachable (download_start data t) (download_step data) (map abs_pc ps, f, a) \<and>
    files (disk m) (c_str (fileName t)) = Some bs \<and>
    {i. i < segments_of t \<and> segment_state_of f (int i) = Some COMPLETE} \<subseteq> {i. block i bs = data i} \<and>
    (\<not> allComplete (segments f) \<or> bs = concat (map data [0..<segments_of t]))"
proof -
  obtain u where R: "reachable (download_start data t) (download_step data) u" and rel: "fine_rel data t (ps, f, m) u"
    using fine_reachable[OF assms] by blast
  obtain a where "u = (map abs_pc ps, f, a)" by (rule fine_relE[OF rel])
  moreover obtain bs where "files (disk m) (c_str (fileName t)) = Some bs"
    "\<forall>i. segment_state_of f (int i) = Some COMPLETE \<longrightarrow> block i bs = data i"
    "allComplete (segments f) \<longrightarrow> bs = concat (map data [0..<segments_of t])"
    by (rule fine_disk[OF R rel])
  ultimately show ?thesis using R by blast
qed

text \<open>A run of one worker that stores one segment.\<close>

definition one_store_path :: "fine_state list" where
  "one_store_path = (let t = File one_torrent ''f''; c = claimed 0 t; d = one_data 0;
      with = with_stores ''f'' one_manager; old = replicate 8000 NUL in
    [([Outer (At [0])], t, with old 0), ([Outer (Fetching 0 [])], c, with old 0),
     ([Outer (Storing 0 d [])], c, with old 0), ([InStore 0 [] (Starting 0 d)], c, with old 0),
     ([InStore 0 [] (Opening 0 d)], c, with old 1), ([InStore 0 [] (Copying 0 d 0)], c, with old 1),
     ([InStore 0 [] (Copying 0 d 8000)], c, with d 1), ([InStore 0 [] Closing], c, with d 1),
     ([InStore 0 [] Finished], c, with d 0), ([Outer (Marking 0 COMPLETE [])], c, with d 0),
     ([Outer (At [])], completed 0 t, with d 0)])"

lemma one_store_start: "with_stores ''f'' one_manager (replicate 8000 NUL) 0 = one_manager"
  using openable_createLocalFile[of "example_manager []" one_torrent]
  by (simp add: one_manager_def one_torrent_def Torrent_hashed_def example_manager_def FileManager_def
      with_stores_def set_file_def openable_def fun_upd_idem)

lemma one_store_ends:
  "one_store_path ! 0 = ([Outer (At [0])], File one_torrent ''f'', one_manager)"
  "one_store_path ! 10 = ([Outer (At [])], completed 0 (File one_torrent ''f''),
     with_stores ''f'' one_manager (one_data 0) 0)"
  by (simp_all add: one_store_path_def Let_def one_store_start)

lemma one_store_steps:
  assumes "n < 10"
  shows "fine_step one_data (one_store_path ! n) (one_store_path ! Suc n)"
proof -
  let ?f = "claimed 0 (File one_torrent ''f'')" and ?W = "with_stores ''f'' one_manager"
  have name: "fileName (fileTorrent ?f) = ''f''"
    by (simp add: File_segments one_torrent_def Torrent_hashed_def)
  have free: "unlocked ''f'' one_manager" and old: "openable ''f'' (replicate 8000 NUL) one_manager"
    using openable_createLocalFile[of "example_manager []" one_torrent]
    by (simp_all add: one_manager_def one_torrent_def Torrent_hashed_def example_manager_def FileManager_def
        unlocked_def readLocked_def writeLocked_def)
  have in_use: "openable ''f'' bs (?W bs n)" for bs n
    using old unfolding with_stores_simps(1) by (simp add: openable_def)
  let ?z = "replicate 8000 NUL" and ?d = "one_data 0"
  have stores: "store_step ''f'' ([Starting 0 ?d], ?W ?z 0) ([Opening 0 ?d], ?W ?z 1)"
    "store_step ''f'' ([Opening 0 ?d], ?W ?z 1) ([Copying 0 ?d 0], ?W ?z 1)"
    "store_step ''f'' ([Copying 0 ?d 0], ?W ?z 1) ([Copying 0 ?d 8000], ?W ?d 1)"
    "store_step ''f'' ([Copying 0 ?d 8000], ?W ?d 1) ([Closing], ?W ?d 1)"
    "store_step ''f'' ([Closing], ?W ?d 1) ([Finished], ?W ?d 0)"
    using takes_lock[of 0 "[Starting 0 ?d]" 0 ?d "''f''" "?W ?z 0"] free
      opens[OF _ _ in_use, of 0 "[Opening 0 ?d]" 0 ?d]
      writes[OF _ _ in_use, of 0 "[Copying 0 ?d 0]" 0 ?d 0 8000 ?z 1]
      closes[of 0 "[Copying 0 ?d 8000]" 0 ?d "''f''"]
      gives_lock[of 0 "[Closing]" "''f''" "?W ?d 1"] with_stores_simps(4)[OF free, of ?d 0]
    by (simp_all add: with_stores_simps unlocked_def fits_int_def one_data_def DEFAULTSEGMENTSIZE_def write_at_def)
  have inside: "fine_step one_data ([InStore 0 [] p], ?f, m) ([InStore 0 [] p'], ?f, m')"
    if "store_step ''f'' ([p], m) ([p'], m')" for p m p' m'
    using in_store[of 0 "[InStore 0 [] p]" 0 "[]" p ?f] that name by simp
  have around: "fine_step one_data ([Outer p], f, m) ([Outer p'], f', m')"
    if "download_step one_data ([p], f, m) ([p'], f', m')" "\<forall>k d ks. p \<noteq> Storing k d ks" for p f m p' f' m'
    using outside[of 0 "[Outer p]" p one_data f m p' f' m'] that by simp
  have any: "download_step one_data ([p], f, m) ([p'], f', m)"
    if "download_step one_data ([p], f, m0) ([p'], f', m1)" "\<forall>k d ks. p \<noteq> Storing k d ks" for p f m p' f' m0 m1
    using step_alone(2)[OF that, of 0 "[p]" m] by simp
  have "fine_step one_data (one_store_path ! 0) (one_store_path ! 1)"
    "fine_step one_data (one_store_path ! 1) (one_store_path ! 2)"
    "fine_step one_data (one_store_path ! 2) (one_store_path ! 3)"
    "fine_step one_data (one_store_path ! 8) (one_store_path ! 9)"
    "fine_step one_data (one_store_path ! 9) (one_store_path ! 10)"
    using around[OF any[OF one_steps(1)]] around[OF any[OF one_steps(2)]] around[OF any[OF one_steps(4)]]
      calls_store[of 0 "[Outer (Storing 0 ?d [])]" 0 ?d "[]"] store_returns[of 0 "[InStore 0 [] Finished]"]
    by (simp_all add: one_store_path_def Let_def int_of_u32_eq)
  moreover have "fine_step one_data (one_store_path ! 3) (one_store_path ! 4)"
    "fine_step one_data (one_store_path ! 4) (one_store_path ! 5)"
    "fine_step one_data (one_store_path ! 5) (one_store_path ! 6)"
    "fine_step one_data (one_store_path ! 6) (one_store_path ! 7)"
    "fine_step one_data (one_store_path ! 7) (one_store_path ! 8)"
    using stores[THEN inside] by (simp_all add: one_store_path_def Let_def)
  moreover have "n \<in> {0, 1, 2, 3, 4, 5, 6, 7, 8, 9}" using assms by auto
  ultimately show ?thesis by (auto simp: eval_nat_numeral)
qed

lemma one_fine_run: "reachable (fine_start one_data one_torrent) (fine_step one_data) (one_store_path ! 10)"
proof -
  have start: "reachable (fine_start one_data one_torrent) (fine_step one_data) (one_store_path ! 0)"
    using one_init by (intro reachable_init) (auto simp: fine_start_def one_store_ends)
  have "reachable (fine_start one_data one_torrent) (fine_step one_data) (one_store_path ! n)" if "n \<le> 10" for n
    using that by (induction n) (use start one_store_steps in \<open>auto intro: reachable_step\<close>)
  then show ?thesis by simp
qed

lemma stores_in_pieces_correct_witness:
  "files (disk (with_stores ''f'' one_manager (one_data 0) 0)) ''f'' = Some (one_data 0)"
  using stores_in_pieces_correct [OF one_fine_run[unfolded one_store_ends]] one_segment one_all
  by (auto simp: one_torrent_def Torrent_hashed_def)

end
