(* ===== verification/Stores_Completion.thy ===== *)
theory Stores_Completion
  imports Parallel_Stores Parallel_Completion
begin

text \<open>
  The downloads of \<open>Parallel_Stores\<close>, whose stores go to disk in pieces: every run ends, and where it ends without
  a peer having failed and the lists cover the file, the file is complete.
\<close>

section \<open>Every run ends\<close>

fun fine_left :: "fine_pc \<Rightarrow> nat" where
  "fine_left (Outer (At ks)) = 8009 * length ks"
| "fine_left (Outer (Fetching k ks)) = 8009 * length ks + 8008"
| "fine_left (Outer (Storing k d ks)) = 8009 * length ks + 8007"
| "fine_left (InStore k ks p) = 8009 * length ks + 2 + store_left p"
| "fine_left (Outer (Marking k st ks)) = 8009 * length ks + 1"

lemma outside_left:
  "download_step data ([p], f, m) ([p'], f', m') \<Longrightarrow> \<forall>k d ks. p \<noteq> Storing k d ks \<Longrightarrow>
   fine_left (Outer p') < fine_left (Outer p)"
  by (auto elim!: download_step.cases)

lemma in_store_left: "store_step f ([p], m) ([p'], m') \<Longrightarrow> store_left p' < store_left p"
  using store_step_left[of f "([p], m)" "([p'], m')"] by simp

lemma fine_step_left:
  "fine_step data s s' \<Longrightarrow> Suc (sum_list (map fine_left (fst s'))) \<le> sum_list (map fine_left (fst s))"
  by (induction rule: fine_step.induct)
    (auto intro!: sum_list_update_less dest: outside_left in_store_left)

section \<open>A worker that is not done can go on\<close>

lemma fine_moves:
  assumes R: "reachable (download_start data t) (download_step data) u" and rel: "fine_rel data t (ps, f, m) u"
    and w: "w < length ps" and busy: "ps ! w \<noteq> Outer (At [])"
    and range: "\<forall>k \<in> set (still_listed (abs_pc (ps ! w))). segment_state_of f (int_of_u32 k) \<noteq> None"
  shows "\<exists>p f' m'. fine_step data (ps, f, m) (ps[w := p], f', m')"
proof -
  obtain a old bs where u: "u = (map abs_pc ps, f, a)" and track: "\<forall>p \<in> set ps. on_track data p"
    and old: "openable (fileName t) old a" and m: "m = with_stores (fileName t) a bs (length (filter locks_file ps))"
    by (rule fine_relE[OF rel])
  have inv: "claims_inv (map abs_pc ps) f" "frame_inv data t (segments_of t) (map abs_pc ps, f, a)"
    using parallel_download.reachable_inv[OF R] by (simp_all add: u download_inv_def)
  have held: "claims_held (map abs_pc ps, f, a)" using held_claims.reachable_inv[OF R] by (simp add: u)
  have frame: "fileTorrent f = t" "unlocked (fileName t) a" "\<forall>i. length (data i) = 8000"
    using inv(2) by (simp_all add: frame_inv_def)
  show ?thesis
  proof (cases "ps ! w")
    case (Outer p)
    show ?thesis
    proof (cases "\<exists>k d ks. p = Storing k d ks")
      case True
      then show ?thesis using fine_step.calls_store[OF w] Outer by blast
    next
      case False
      have "\<exists>q f'. download_step data ([p], f, m) ([p][0 := q], f', m)"
      proof (rule worker_moves_on)
        fix k st ks assume "[p] ! 0 = Marking k st ks"
        then show "segment_state_of f (int_of_u32 k) = Some DOWNLOADING \<and> st \<noteq> DOWNLOADING"
          using marking_held[OF inv(1) held, of w k st ks] w Outer by simp
      qed (use False Outer busy range in auto)
      then show ?thesis using fine_step.outside[OF w Outer, of data f m] False by simp blast
    qed
  next
    case (InStore k ks p)
    have "on_track data (InStore k ks p)" using track w InStore by (metis nth_mem)
    then obtain i where i: "int_of_u32 k = int i" "on_course data i p" by (rule on_trackE)
    have "busy_with (map abs_pc ps ! w) = Some (int_of_u32 k)" using w InStore by (cases p) simp_all
    from held_segment[OF inv _ this] w obtain j where "int_of_u32 k = int j" "int j * 8000 < 2 ^ 31" by auto
    with i have size: "int i * 8000 < 2 ^ 31" by simp
    have access: "accessible (disk a) (c_str (fileName t))" using old by (simp add: openable_def)
    show ?thesis
    proof (cases "p = Finished")
      case True
      then show ?thesis using fine_step.store_returns[OF w] InStore by blast
    next
      case False
      have "\<exists>q m'. store_step (fileName t) ([p], m) ([p][0 := q], m')"
        unfolding m
        by (rule store_moves[where data = data and i = i]) (use False frame(2,3) access size i in simp_all)
      then show ?thesis using fine_step.in_store[OF w InStore, of f m] frame(1) by simp blast
    qed
  qed
qed

text \<open>Lists only shrink.\<close>

lemma still_listed_InStore [simp]: "still_listed (abs_pc (InStore k ks p)) = ks"
  by (cases p) simp_all

lemma outside_listed: "download_step data ([p], f, m) ([p'], f', m') \<Longrightarrow> set (still_listed p') \<subseteq> set (still_listed p)"
  by (auto elim!: download_step.cases)

lemma fine_step_listed:
  assumes "fine_step data s s'" and "\<forall>p \<in> set (fst s). set (still_listed (abs_pc p)) \<subseteq> K"
  shows "\<forall>p \<in> set (fst s'). set (still_listed (abs_pc p)) \<subseteq> K"
proof -
  have move: "\<forall>q \<in> set (ps[w := p]). set (still_listed (abs_pc q)) \<subseteq> K"
    if "\<forall>q \<in> set ps. set (still_listed (abs_pc q)) \<subseteq> K" "w < length ps"
      "set (still_listed (abs_pc p)) \<subseteq> set (still_listed (abs_pc (ps ! w)))" for ps w p
  proof
    fix q assume "q \<in> set (ps[w := p])"
    then show "set (still_listed (abs_pc q)) \<subseteq> K"
      by (rule in_set_updateE) (use that nth_mem in blast)+
  qed
  show ?thesis using assms
  proof (induction rule: fine_step.induct)
    case (outside w ps p f m p' f' m')
    then show ?case using outside_listed[OF outside(4)] unfolding fst_conv by (intro move) simp_all
  qed (unfold fst_conv, (rule move; simp)+)
qed

lemma one_store_run:
  "(fine_step one_data ^^ 10) (map (\<lambda>ks. Outer (At ks)) [[0]], File one_torrent ''f'', one_manager)
    ([Outer (At [])], completed 0 (File one_torrent ''f''), with_stores ''f'' one_manager (one_data 0) 0)"
proof -
  have "(fine_step one_data ^^ 10) (one_store_path ! 0) (one_store_path ! 10)"
    unfolding relpowp_fun_conv by (intro exI[of _ "\<lambda>n. one_store_path ! n"]) (simp add: one_store_steps)
  then show ?thesis unfolding one_store_ends by simp
qed

section \<open>Peers that serve\<close>

definition abs_of :: "fine_state \<Rightarrow> download_state" where
  "abs_of s = (case s of (ps, f, m) \<Rightarrow> (map abs_pc ps, f, m))"

text \<open>A step in which no peer fails.\<close>

definition fine_served_step :: "(nat \<Rightarrow> string) \<Rightarrow> fine_state \<Rightarrow> fine_state \<Rightarrow> bool" where
  "fine_served_step data s s' \<longleftrightarrow> fine_step data s s' \<and> \<not> gives_up_in (abs_of s) (abs_of s')"

lemma fine_rel_workers: "fine_rel data t s u \<Longrightarrow> fst u = fst (abs_of s)"
  by (cases s; cases u) (simp add: fine_rel_def abs_of_def)

lemma fine_served_run:
  assumes "(fine_served_step data)\<^sup>*\<^sup>* s s'" and "fine_rel data t s u"
    and "download_start data t u"
  shows "\<exists>u'. (served_step data)\<^sup>*\<^sup>* u u' \<and> fine_rel data t s' u'"
  using assms(1)
proof (induction rule: rtranclp_induct)
  case base
  then show ?case using assms(2) by blast
next
  case (step s1 s2)
  then obtain u1 where u1: "(served_step data)\<^sup>*\<^sup>* u u1" "fine_rel data t s1 u1" by blast
  have "reachable (download_start data t) (download_step data) u1" by (rule served_reachable[OF assms(3) u1(1)])
  note inv = parallel_download.reachable_inv[OF this]
  have "fine_step data s1 s2" using step(2) by (simp add: fine_served_step_def)
  from fine_sim[OF this u1(2) inv]
  obtain u2 where u2: "fine_rel data t s2 u2" "u2 = u1 \<or> download_step data u1 u2" by blast
  have "\<not> gives_up_in u1 u2"
    using step(2) fine_rel_workers[OF u1(2)] fine_rel_workers[OF u2(1)]
    by (simp add: fine_served_step_def gives_up_in_def)
  then show ?case using u1(1) u2 by (metis rtranclp.rtrancl_into_rtrancl served_step_def)
qed

text \<open>A worker that is not done can go on without its peer failing.\<close>

lemma not_fine_gives_up:
  assumes "w < length ps" and "\<And>k ks. ps ! w \<noteq> Outer (Fetching k ks) \<or> p \<noteq> Outer (Marking k FREE ks)"
  shows "\<not> gives_up_in (abs_of (ps, f, m)) (abs_of (ps[w := p], f', m'))"
proof -
  have pc: "abs_pc q = Fetching k ks \<Longrightarrow> q = Outer (Fetching k ks)"
    "abs_pc q = Marking k FREE ks \<Longrightarrow> q = Outer (Marking k FREE ks)" for q k ks
    by (cases q rule: abs_pc.cases; simp)+
  show ?thesis
    unfolding abs_of_def prod.case map_update
    by (rule not_gives_up) (use assms(1) assms(2) pc in \<open>metis length_map nth_map\<close>)+
qed

lemma fine_served_moves:
  assumes R: "reachable (download_start data t) (download_step data) u" and rel: "fine_rel data t (ps, f, m) u"
    and w: "w < length ps" and busy: "ps ! w \<noteq> Outer (At [])"
    and range: "\<forall>k \<in> set (still_listed (abs_pc (ps ! w))). segment_state_of f (int_of_u32 k) \<noteq> None"
  shows "\<exists>s. fine_served_step data (ps, f, m) s"
proof (cases "\<exists>k ks. ps ! w = Outer (Fetching k ks)")
  case True
  then obtain k ks where at: "ps ! w = Outer (Fetching k ks)" by blast
  let ?r = "fragment_error\<lparr>frs_fileCode := F_FINE, frs_fragment := data (nat (int_of_u32 k))\<rparr>"
  have "download_step data ([Fetching k ks], f, m) ([Storing k (frs_fragment ?r) ks], f, m)"
    using download_step.receives[of 0 "[Fetching k ks]" k ks ?r data f m] by simp
  from fine_step.outside[OF w at _ this] not_fine_gives_up[OF w, of "Outer (Storing k (frs_fragment ?r) ks)"]
  show ?thesis unfolding fine_served_step_def by blast
next
  case False
  obtain p f' m' where "fine_step data (ps, f, m) (ps[w := p], f', m')"
    using fine_moves[OF R rel w busy range] by blast
  with not_fine_gives_up[OF w] False show ?thesis unfolding fine_served_step_def by blast
qed

section \<open>Complete downloads\<close>

text \<open>
  C13. Total correctness with stores in pieces: a download in which no peer fails, and whose lists together hold
  exactly the file's segments, takes at most 8009 steps for each listed fragment, and when no worker can go on, \<open>isComplete\<close> answers true
  and the file on disk is the data in order.
\<close>

theorem stores_in_pieces_complete:
  assumes "download_start data t (map At listed, f0, m0)" and "lists_cover t listed"
    and "(fine_served_step data ^^ n) (map (\<lambda>ks. Outer (At ks)) listed, f0, m0) (ps, f, m)"
  shows "n \<le> 8009 * length (concat listed) \<and>
    ((\<exists>s. fine_served_step data (ps, f, m) s) \<or>
     fst (isComplete f) = Inr True \<and>
     files (disk m) (c_str (fileName t)) = Some (concat (map data [0..<segments_of t])))"
proof -
  let ?start = "(map (\<lambda>ks. Outer (At ks)) listed, f0, m0)"
  have "n + sum_list (map fine_left ps) \<le> sum_list (map fine_left (fst ?start))"
    using relpow_measure[OF assms(3), of "\<lambda>s. sum_list (map fine_left (fst s))"] fine_step_left
    unfolding fine_served_step_def fst_conv by blast
  then have bound: "n \<le> 8009 * length (concat listed)"
    by (simp add: o_def length_concat sum_list_const_mult)
  have "fst (isComplete f) = Inr True \<and>
     files (disk m) (c_str (fileName t)) = Some (concat (map data [0..<segments_of t]))"
    if stuck: "\<nexists>s. fine_served_step data (ps, f, m) s"
  proof -
    have rel0: "fine_rel data t ?start (map At listed, f0, m0)"
      using fine_rel_start[OF assms(1)] by (simp add: o_def)
    obtain u where run: "(served_step data)\<^sup>*\<^sup>* (map At listed, f0, m0) u" and rel: "fine_rel data t (ps, f, m) u"
      using fine_served_run[OF relpowp_imp_rtranclp[OF assms(3)] rel0 assms(1)] by blast
    have R: "reachable (download_start data t) (download_step data) u"
      by (rule served_reachable[OF assms(1) run])
    obtain a where u: "u = (map abs_pc ps, f, a)" by (rule fine_relE[OF rel])
    have done_at: "ps ! w = Outer (At [])" if w: "w < length ps" for w
    proof (rule ccontr)
      assume "ps ! w \<noteq> Outer (At [])"
      moreover have "abs_pc (ps ! w) \<in> set (map abs_pc ps)" using w by simp
      ultimately show False
        using fine_served_moves[OF R rel w] served_range[OF assms(1,2) run[unfolded u]] stuck by blast
    qed
    have "map abs_pc ps = replicate (length ps) (At [])"
      by (rule nth_equalityI) (simp_all add: done_at)
    then have "\<nexists>s. served_step data u s" unfolding u
      by (auto simp: served_step_def elim!: download_step.cases)
    then have all: "allComplete (segments f)"
      using served_end[OF assms(1,2)] run unfolding u by blast
    moreover obtain bs where "files (disk m) (c_str (fileName t)) = Some bs"
      "\<forall>i. segment_state_of f (int i) = Some COMPLETE \<longrightarrow> block i bs = data i"
      "allComplete (segments f) \<longrightarrow> bs = concat (map data [0..<segments_of t])"
      by (rule fine_disk[OF R rel])
    ultimately show ?thesis by (simp add: isComplete_def)
  qed
  with bound show ?thesis by blast
qed

lemma stores_in_pieces_complete_witness:
  "fst (isComplete (completed 0 (File one_torrent ''f''))) = Inr True \<and>
   files (disk (with_stores ''f'' one_manager (one_data 0) 0)) ''f'' = Some (one_data 0)"
proof -
  have "fine_served_step one_data (one_store_path ! n) (one_store_path ! Suc n)" if "n < 10" for n
  proof -
    have "n \<in> {0, 1, 2, 3, 4, 5, 6, 7, 8, 9}" using that by auto
    then have "\<not> gives_up_in (abs_of (one_store_path ! n)) (abs_of (one_store_path ! Suc n))"
      by (auto simp: gives_up_in_def abs_of_def one_store_path_def Let_def)
    then show ?thesis using one_store_steps[OF that] by (simp add: fine_served_step_def)
  qed
  then have "(fine_served_step one_data ^^ 10) (one_store_path ! 0) (one_store_path ! 10)"
    unfolding relpowp_fun_conv by (intro exI[of _ "\<lambda>n. one_store_path ! n"]) simp
  then have run: "(fine_served_step one_data ^^ 10) (map (\<lambda>ks. Outer (At ks)) [[0]], File one_torrent ''f'', one_manager)
      ([Outer (At [])], completed 0 (File one_torrent ''f''), with_stores ''f'' one_manager (one_data 0) 0)"
    unfolding one_store_ends by simp
  have "\<not> fine_served_step one_data ([Outer (At [])], f, m) s" for f m s
    by (auto simp: fine_served_step_def elim!: fine_step.cases download_step.cases)
  moreover have "fileName one_torrent = ''f''" by (simp add: one_torrent_def Torrent_hashed_def)
  ultimately show ?thesis
    using stores_in_pieces_complete [OF _ one_cover run] one_init one_segment by simp
qed

end
