(* ===== verification/Any_Answers.thy ===== *)
theory Any_Answers
  imports Stores_Completion
begin

text \<open>
  Downloads whose peers send what they like. In \<open>Parallel_Download\<close> and \<open>Parallel_Stores\<close> an answer that is not
  \<open>F_ERROR\<close> carries the bytes of its segment; here it carries any bytes, other ones each time, and
  a list may name fragments the file does not have. Undefined behaviour, in \<open>tryToSetStateSegmentStateToDownload\<close> for such
  a fragment or in \<open>storeSegmentToFile\<close> for a short one, ends the process.
\<close>

section \<open>Steps\<close>

text \<open>The fault is that of a process that has crashed; \<open>least\<close> is the least length of the fragments sent.\<close>

type_synonym any_state = "fine_state \<times> fault option"

inductive any_step :: "nat \<Rightarrow> any_state \<Rightarrow> any_state \<Rightarrow> bool" for least :: nat where
  goes_on: "fine_step data s s' \<Longrightarrow> \<forall>i. least \<le> length (data i) \<Longrightarrow> any_step least (s, None) (s', None)"
| list_faults: "w < length ps \<Longrightarrow> ps ! w = Outer (At (k # ks)) \<Longrightarrow>
    tryToSetStateSegmentStateToDownload (int_of_u32 k) f = (Inl e, f') \<Longrightarrow>
    any_step least ((ps, f, m), None) ((ps, f', m), Some e)"
| store_faults: "w < length ps \<Longrightarrow> ps ! w = InStore k ks (Faulty e) \<Longrightarrow>
    any_step least ((ps, f, m), None) ((ps, f, m), Some e)"

fun any_left :: "any_state \<Rightarrow> nat" where
  "any_left (s, None) = Suc (sum_list (map fine_left (fst s)))"
| "any_left (s, Some e) = 0"

lemma any_step_left: "any_step least s s' \<Longrightarrow> Suc (any_left s') \<le> any_left s"
  by (induction rule: any_step.induct) (auto dest: fine_step_left)

section \<open>What every step keeps\<close>

text \<open>A worker in a store, whatever it stores: its segment is the one it claimed.\<close>

fun placed :: "nat \<Rightarrow> fine_pc \<Rightarrow> bool" where
  "placed least (Outer (Storing k d ks)) \<longleftrightarrow> least \<le> length d"
| "placed least (InStore k ks (Starting i d)) \<longleftrightarrow> i = int_of_u32 k \<and> least \<le> length d"
| "placed least (InStore k ks (Opening i d)) \<longleftrightarrow> i = int_of_u32 k \<and> least \<le> length d"
| "placed least (InStore k ks (Copying i d n)) \<longleftrightarrow> i = int_of_u32 k \<and> n \<le> 8000"
| "placed least (InStore k ks (Faulty e)) \<longleftrightarrow> e = Undefined OutOfBounds \<and> least < 7999"
| "placed least p \<longleftrightarrow> True"

text \<open>The file's contents are any; the lock table has one entry for each worker in a store.\<close>

definition locks_of :: "filename \<Rightarrow> nat \<Rightarrow> file_manager \<Rightarrow> bool" where
  "locks_of g n m \<longleftrightarrow> (\<exists>a bs. unlocked g a \<and> accessible (disk a) (c_str g) \<and> m = with_stores g a bs n)"

definition any_inv :: "torrent \<Rightarrow> nat \<Rightarrow> 32 word set \<Rightarrow> fine_state \<Rightarrow> bool" where
  "any_inv t least K s \<longleftrightarrow> (case s of (ps, f, m) \<Rightarrow>
     claims_inv (map abs_pc ps) f \<and> claims_held (map abs_pc ps, f, m) \<and> fileTorrent f = t \<and>
     (\<forall>i. segment_state_of f i = None \<longleftrightarrow> \<not> (0 \<le> i \<and> i < int (segments_of t))) \<and>
     (\<forall>p \<in> set ps. placed least p \<and> set (still_listed (abs_pc p)) \<subseteq> K) \<and>
     locks_of (fileName t) (length (filter locks_file ps)) m)"

lemma any_invI:
  assumes "claims_inv (map abs_pc ps) f" and "claims_held (map abs_pc ps, f, m)" and "fileTorrent f = t"
    and "\<And>i. segment_state_of f i = None \<longleftrightarrow> \<not> (0 \<le> i \<and> i < int (segments_of t))"
    and "\<And>p. p \<in> set ps \<Longrightarrow> placed least p \<and> set (still_listed (abs_pc p)) \<subseteq> K"
    and "locks_of (fileName t) (length (filter locks_file ps)) m"
  shows "any_inv t least K (ps, f, m)"
  using assms by (simp add: any_inv_def)

lemma any_invD:
  assumes "any_inv t least K (ps, f, m)"
  shows "claims_inv (map abs_pc ps) f" and "claims_held (map abs_pc ps, f, m)" and "fileTorrent f = t"
    and "segment_state_of f i = None \<longleftrightarrow> \<not> (0 \<le> i \<and> i < int (segments_of t))"
    and "w < length ps \<Longrightarrow> placed least (ps ! w)"
    and "w < length ps \<Longrightarrow> set (still_listed (abs_pc (ps ! w))) \<subseteq> K"
    and "locks_of (fileName t) (length (filter locks_file ps)) m"
  using assms by (auto simp: any_inv_def)

text \<open>A worker goes on without touching the file object, and with the claim it had.\<close>

lemma any_inv_move:
  assumes "any_inv t least K (ps, f, m)" and "w < length ps"
    and "busy_with (abs_pc p) = busy_with (abs_pc (ps ! w))"
    and "\<And>k ks. abs_pc p \<noteq> Marking k DOWNLOADING ks"
    and "set (still_listed (abs_pc p)) \<subseteq> set (still_listed (abs_pc (ps ! w)))"
    and "placed least p" and "locks_of (fileName t) (length (filter locks_file (ps[w := p]))) m'"
  shows "any_inv t least K (ps[w := p], f, m')"
proof -
  note inv = any_invD[OF assms(1)]
  have w: "w < length (map abs_pc ps)" "busy_with (abs_pc p) = busy_with (map abs_pc ps ! w)"
    using assms(2,3) by simp_all
  have "claims_inv ((map abs_pc ps)[w := abs_pc p]) f" using claims_inv_same[OF inv(1) w] .
  moreover have "claims_held ((map abs_pc ps)[w := abs_pc p], f, m')"
    by (rule claims_held_move[OF inv(2) w assms(4)])
  moreover have "placed least q \<and> set (still_listed (abs_pc q)) \<subseteq> K" if "q \<in> set (ps[w := p])" for q
    using that
  proof (rule in_set_updateE)
    assume "q \<in> set ps"
    then show ?thesis using assms(1) by (simp add: any_inv_def)
  qed (use assms(5,6) inv(6)[OF assms(2)] in auto)
  ultimately show ?thesis using inv(3,4) assms(7) by (simp add: any_inv_def map_update)
qed

lemma download_step_frame:
  assumes "download_step data (ps, f, m) (ps', f', m')"
  shows "fileTorrent f' = fileTorrent f" and "segment_state_of f' i = None \<longleftrightarrow> segment_state_of f i = None"
proof -
  have "fileTorrent f' = fileTorrent f \<and> (segment_state_of f' i = None \<longleftrightarrow> segment_state_of f i = None)"
    using assms
  proof cases
    case (claims w k ks)
    then show ?thesis using claim_True[where f = f and f' = f'] by auto
  next
    case (skips w k ks)
    then have "f' = f" by (blast dest: claim_False)
    then show ?thesis by simp
  next
    case (marks w k st ks u)
    then show ?thesis using set_state_ok[where f = f and f' = f'] by auto
  qed simp_all
  then show "fileTorrent f' = fileTorrent f" and "segment_state_of f' i = None \<longleftrightarrow> segment_state_of f i = None"
    by blast+
qed

text \<open>A step inside a store.\<close>

lemma store_step_placed:
  assumes "store_step g ([p], m) ([p'], m')" and "locks_of g n m" and "placed least (InStore k ks p)"
    and "0 \<le> int_of_u32 k" and "int_of_u32 k * 8000 < 2 ^ 31"
    and "n' + (if has_lock p then 1 else 0) = n + (if has_lock p' then 1 else 0)"
  shows "placed least (InStore k ks p') \<and> locks_of g n' m'"
proof -
  obtain a bs where a: "unlocked g a" "accessible (disk a) (c_str g)" and m: "m = with_stores g a bs n"
    using assms(2) by (auto simp: locks_of_def)
  have lock: "locks_of g l (with_stores g a b l)" for b l using a by (auto simp: locks_of_def)
  have fits: "fits_int (int_of_u32 k * DEFAULTSEGMENTSIZE)" "0 \<le> int_of_u32 k * DEFAULTSEGMENTSIZE"
    using assms(4,5) by (simp_all add: fits_int_def DEFAULTSEGMENTSIZE_def)
  from assms(1) show ?thesis
  proof cases
    case (takes_lock w i d)
    then show ?thesis using assms(3,6) lock by (auto simp: m with_stores_simps split: if_splits)
  next
    case (cannot_open w i d)
    then show ?thesis using a by (simp add: m with_stores_def)
  next
    case (seek_overflows w i d old)
    then show ?thesis using assms(3) fits by auto
  next
    case (seek_fails w i d old)
    then show ?thesis using assms(3) fits by auto
  next
    case (reads_too_far w i d old)
    then show ?thesis using assms(3,6) lock by (auto simp: m DEFAULTSEGMENTSIZE_def)
  next
    case (opens w i d old)
    then show ?thesis using assms(3,6) lock by (auto simp: m)
  next
    case (writes w i d l old j)
    then show ?thesis using assms(3,6) lock by (auto simp: m with_stores_simps DEFAULTSEGMENTSIZE_def)
  next
    case (closes w i d)
    then show ?thesis using assms(6) lock by (auto simp: m)
  next
    case (gives_lock w)
    then have "n = Suc n'" using assms(6) by simp
    then show ?thesis using gives_lock a lock by (auto simp: m with_stores_simps)
  qed
qed

text \<open>The segment of a worker in a store is in the file.\<close>

lemma busy_InStore: "busy_with (abs_pc (InStore k ks p)) = Some (int_of_u32 k)"
  by (cases p) simp_all

lemma in_store_range:
  assumes "any_inv t least K (ps, f, m)" and "tsize t < 2 ^ 31" and "w < length ps" and "ps ! w = InStore k ks p"
  shows "0 \<le> int_of_u32 k" and "int_of_u32 k * 8000 < 2 ^ 31"
proof -
  note inv = any_invD[OF assms(1)]
  have "holder (map abs_pc ps) w (int_of_u32 k)" using assms(3,4) by (simp add: holder_def busy_InStore)
  then have "segment_state_of f (int_of_u32 k) \<noteq> None" using inv(1) by (auto simp: claims_inv_def)
  then have k: "0 \<le> int_of_u32 k" "int_of_u32 k < int (segments_of t)" using inv(4) by simp_all
  have "unat (tsize t) < 2 ^ 31" using assms(2) by (simp add: word_less_nat_alt)
  then have "int (segments_of t) * 8000 < 2 ^ 31 + 8000" using segments_of_bounds(2)[OF assms(2)] by simp
  then show "0 \<le> int_of_u32 k" and "int_of_u32 k * 8000 < 2 ^ 31" using k by simp_all
qed

lemma fine_step_any_inv:
  assumes "fine_step data s s'" and "\<forall>i. least \<le> length (data i)" and "tsize t < 2 ^ 31" and "any_inv t least K s"
  shows "any_inv t least K s'"
  using assms
proof (induction rule: fine_step.induct)
  case (outside w ps p f m p' f' m')
  note inv = any_invD[OF outside.prems(3)] and alone = step_alone[OF outside(4,3)]
  have step: "download_step data (map abs_pc ps, f, m) ((map abs_pc ps)[w := p'], f', m)"
    by (rule alone(2)) (use outside(1,2) in simp_all)
  have p': "placed least (Outer p')" using outside(3,4) outside.prems(1) by (auto elim!: download_step.cases)
  have shrunk: "set (still_listed p') \<subseteq> K"
    using outside_listed[OF outside(4)] inv(6)[OF outside(1)] outside(2) by auto
  show ?case
  proof (rule any_invI)
    show "placed least q \<and> set (still_listed (abs_pc q)) \<subseteq> K" if "q \<in> set (ps[w := Outer p'])" for q
      using that by (rule in_set_updateE) (use p' shrunk outside.prems(3) in \<open>auto simp: any_inv_def\<close>)
    show "locks_of (fileName t) (length (filter locks_file (ps[w := Outer p']))) m'"
      using inv(7) alone(1) outside(1,2) by (simp add: with_stores_locks)
    show "claims_inv (map abs_pc (ps[w := Outer p'])) f'"
      using download_step_claims[OF step] inv(1) by (simp add: map_update)
    show "claims_held (map abs_pc (ps[w := Outer p']), f', m')"
      using download_step_held[OF step inv(2)] by (simp add: map_update claims_held_def)
  qed (use download_step_frame[OF step] inv(3,4) in simp_all)
next
  case (calls_store w ps k d ks f m)
  have "placed least (Outer (Storing k d ks))"
    using any_invD(5)[OF calls_store.prems(3) calls_store(1)] calls_store(2) by simp
  then show ?case
    using any_invD(7)[OF calls_store.prems(3)] calls_store(1,2)
    by (intro any_inv_move[OF calls_store.prems(3)]) (simp_all add: with_stores_locks)
next
  case (in_store w ps k ks p f m p' m')
  note inv = any_invD[OF in_store.prems(3)] and range = in_store_range[OF in_store.prems(3,2) in_store(1,2)]
  let ?q = "InStore k ks p'"
  have "store_step (fileName t) ([p], m) ([p'], m')" using in_store(3) inv(3) by simp
  moreover have "placed least (InStore k ks p)" using inv(5)[OF in_store(1)] in_store(2) by simp
  moreover have "length (filter locks_file (ps[w := ?q])) + (if has_lock p then 1 else 0) =
      length (filter locks_file ps) + (if has_lock p' then 1 else 0)"
    using count_filter_update[OF in_store(1), of locks_file ?q] in_store(2) by simp
  ultimately have after: "placed least ?q \<and> locks_of (fileName t) (length (filter locks_file (ps[w := ?q]))) m'"
    by (rule store_step_placed[OF _ inv(7) _ range])
  have "abs_pc ?q \<noteq> Marking j DOWNLOADING js" for j js by (cases p') simp_all
  with after in_store(1,2) show ?case
    by (intro any_inv_move[OF in_store.prems(3)]) (simp_all add: busy_InStore)
next
  case (store_returns w ps k ks f m)
  then show ?case
    using any_invD(7)[OF store_returns.prems(3)]
    by (intro any_inv_move[OF store_returns.prems(3)]) (simp_all add: with_stores_locks)
qed

section \<open>A worker that is not done can go on\<close>

lemma store_can_move:
  assumes "locks_of g n m" and "placed least (InStore k ks p)"
    and "0 \<le> int_of_u32 k" and "int_of_u32 k * 8000 < 2 ^ 31" and "p \<noteq> Finished" and "\<And>e. p \<noteq> Faulty e"
  shows "\<exists>p' m'. store_step g ([p], m) ([p'], m')"
proof -
  obtain a bs where a: "unlocked g a" "accessible (disk a) (c_str g)" and m: "m = with_stores g a bs n"
    using assms(1) by (auto simp: locks_of_def)
  have can_open: "openable g bs m" using a by (simp add: m with_stores_simps)
  have alone: "0 < length [p]" "[p] ! 0 = p" "[p][0 := q] = [q]" for q by simp_all
  have fits: "fits_int (int_of_u32 k * DEFAULTSEGMENTSIZE)" "0 \<le> int_of_u32 k * DEFAULTSEGMENTSIZE"
    using assms(3,4) by (simp_all add: fits_int_def DEFAULTSEGMENTSIZE_def)
  show ?thesis
  proof (cases p)
    case (Starting i d)
    have "writeLock g m \<noteq> None" using a by (simp add: m with_stores_simps unlocked_def)
    then show ?thesis using store_step.takes_lock[of 0 "[p]" i d g m] Starting by auto
  next
    case (Opening i d)
    with assms(2) fits have i: "fits_int (i * DEFAULTSEGMENTSIZE)" "0 \<le> i * DEFAULTSEGMENTSIZE" by simp_all
    show ?thesis
    proof (cases "length d + 1 < nat DEFAULTSEGMENTSIZE")
      case True
      then show ?thesis using store_step.reads_too_far[of 0 "[p]" i d g bs m] Opening can_open i by auto
    next
      case False
      then show ?thesis using store_step.opens[of 0 "[p]" i d g bs m] Opening can_open i by auto
    qed
  next
    case (Copying i d l)
    show ?thesis
    proof (cases "l = 8000")
      case True
      then show ?thesis using store_step.closes[of 0 "[p]" i d g m] Copying by (auto simp: DEFAULTSEGMENTSIZE_def)
    next
      case False
      with Copying assms(2) have "l + 1 \<le> nat DEFAULTSEGMENTSIZE" by (simp add: DEFAULTSEGMENTSIZE_def)
      then show ?thesis using store_step.writes[of 0 "[p]" i d l g bs m 1] Copying can_open by auto
    qed
  next
    case Closing
    then show ?thesis using store_step.gives_lock[of 0 "[p]" g m] by auto
  qed (use assms(5,6) in blast)+
qed

lemma any_moves:
  assumes inv: "any_inv t least K (ps, f, m)" and size: "tsize t < 2 ^ 31"
    and w: "w < length ps" and busy: "ps ! w \<noteq> Outer (At [])"
  shows "\<exists>s. any_step least ((ps, f, m), None) s"
proof -
  let ?data = "\<lambda>_ :: nat. replicate least NUL"
  have goes: ?thesis if "fine_step ?data (ps, f, m) s" for s by (rule exI, rule any_step.goes_on[OF that]) simp
  have outer: ?thesis if "ps ! w = Outer p" "\<forall>k d ks. p \<noteq> Storing k d ks" "download_step ?data ([p], f, m) ([p'], f', m')"
    for p p' f' m'
    by (rule goes[OF fine_step.outside[OF w that(1,2,3)]])
  show ?thesis
  proof (cases "ps ! w")
    case (Outer p)
    show ?thesis
    proof (cases p)
      case (At ks)
      with busy Outer obtain k ks' where p: "p = At (k # ks')" by (cases ks) auto
      show ?thesis
      proof (cases "segment_state_of f (int_of_u32 k)")
        case None
        from any_step.list_faults[OF w _ file_segments.claim_bad[OF None]] show ?thesis using Outer p by blast
      next
        case (Some st)
        show ?thesis
        proof (cases "st = FREE")
          case True
          then obtain f' where "tryToSetStateSegmentStateToDownload (int_of_u32 k) f = (Inr True, f')"
            using file_segments.claim_free Some by blast
          from download_step.claims[of 0 "[p]" k ks', OF _ _ this, of ?data m] show ?thesis
            using p by (intro outer[OF Outer]) simp_all
        next
          case False
          from download_step.skips[of 0 "[p]" k ks', OF _ _ file_segments.claim_busy[OF Some False], of ?data m]
          show ?thesis using p by (intro outer[OF Outer]) simp_all
        qed
      qed
    next
      case (Fetching k ks)
      then show ?thesis
        using download_step.gives_up[of 0 "[p]" k ks fragment_error ?data f m]
        by (intro outer[OF Outer]) (simp_all add: fragment_error_def)
    next
      case (Storing k d ks)
      then show ?thesis using goes fine_step.calls_store[OF w] Outer by blast
    next
      case (Marking k st ks)
      have "segment_state_of f (int_of_u32 k) = Some DOWNLOADING \<and> st \<noteq> DOWNLOADING"
        by (rule marking_held[OF any_invD(1,2)[OF inv], of w k st ks]) (use w Outer Marking in simp_all)
      then obtain f' where "setSegmentState (int_of_u32 k) st f = (Inr (), f')" using file_segments.put_ok by blast
      from download_step.marks[of 0 "[p]" k st ks, OF _ _ this, of ?data m] show ?thesis
        using Marking by (intro outer[OF Outer]) simp_all
    qed
  next
    case (InStore k ks p)
    have at: "placed least (InStore k ks p)" using any_invD(5)[OF inv w] InStore by simp
    note range = in_store_range[OF inv size w InStore]
    consider "p = Finished" | e where "p = Faulty e" | "p \<noteq> Finished" "\<And>e. p \<noteq> Faulty e" by blast
    then show ?thesis
    proof cases
      case 1
      then show ?thesis using goes fine_step.store_returns[OF w] InStore by blast
    next
      case (2 e)
      then show ?thesis using any_step.store_faults[OF w] InStore by blast
    next
      case 3
      obtain p' m' where "store_step (fileName t) ([p], m) ([p'], m')"
        using store_can_move[OF any_invD(7)[OF inv] at range 3] by blast
      then show ?thesis using goes fine_step.in_store[OF w InStore] any_invD(3)[OF inv] by blast
    qed
  qed
qed

section \<open>Every download settles or crashes\<close>

text \<open>What a state is, with the process alive or crashed.\<close>

definition any_sound :: "torrent \<Rightarrow> nat \<Rightarrow> 32 word set \<Rightarrow> any_state \<Rightarrow> bool" where
  "any_sound t least K s \<longleftrightarrow>
     (case snd s of
        None \<Rightarrow> any_inv t least K (fst s)
      | Some e \<Rightarrow> e = Undefined OutOfBounds \<and>
          (least < 7999 \<or> \<not> int_of_u32 ` K \<subseteq> {0..<int (segments_of t)}))"

lemma any_step_sound:
  assumes "any_step least s s'" and "tsize t < 2 ^ 31" and "any_sound t least K s"
  shows "any_sound t least K s'"
  using assms
proof (induction rule: any_step.induct)
  case (goes_on data s s')
  then show ?case using fine_step_any_inv by (simp add: any_sound_def)
next
  case (list_faults w ps k ks f e f' m)
  have inv: "any_inv t least K (ps, f, m)" using list_faults.prems(2) by (simp add: any_sound_def)
  have unknown: "segment_state_of f (int_of_u32 k) = None"
  proof (rule ccontr)
    assume "segment_state_of f (int_of_u32 k) \<noteq> None"
    then obtain st where "segment_state_of f (int_of_u32 k) = Some st" by blast
    then show False
      using file_segments.claim_free[of f "int_of_u32 k"] file_segments.claim_busy[of f "int_of_u32 k" st] list_faults(3)
      by (cases "st = FREE") auto
  qed
  then have "int_of_u32 k \<notin> {0..<int (segments_of t)}" using any_invD(4)[OF inv] by simp
  moreover have "k \<in> K" using any_invD(6)[OF inv list_faults(1)] list_faults(2) by simp
  ultimately show ?case
    using file_segments.claim_bad[OF unknown] list_faults(3) by (auto simp: any_sound_def)
next
  case (store_faults w ps k ks e f m)
  have inv: "any_inv t least K (ps, f, m)" using store_faults.prems(2) by (simp add: any_sound_def)
  then show ?case using any_invD(5)[OF inv store_faults(1)] store_faults(2) by (simp add: any_sound_def)
qed

lemma any_sound_start:
  assumes "tsize t < 2 ^ 31" and "unlocked (fileName t) m" and "accessible (disk m) (c_str (fileName t))"
  shows "any_sound t least (set (concat listed))
    ((map (\<lambda>ks. Outer (At ks)) listed, File t path, createLocalFile t m), None)"
proof -
  define data :: "nat \<Rightarrow> string" where "data = (\<lambda>_. replicate 8000 NUL)"
  let ?m = "createLocalFile t m" and ?z = "replicate (unat (tsize t)) NUL"
  have start: "download_start data t (map At listed, File t path, ?m)"
    using assms by (auto simp: download_start_def data_def)
  note inv = download_start_inv[OF start] and held = download_start_held[OF start]
  have "with_stores (fileName t) ?m ?z 0 = ?m"
    using openable_createLocalFile[OF assms(3)]
    by (cases ?m) (simp add: with_stores_def set_file_def openable_def fun_upd_idem)
  moreover have "unlocked (fileName t) ?m" "accessible (disk ?m) (c_str (fileName t))"
    using openable_createLocalFile[OF assms(3)] assms(2) by (simp_all add: openable_def)
  ultimately have "locks_of (fileName t) 0 ?m" unfolding locks_of_def by metis
  moreover have "claims_inv (map At listed) (File t path)" "fileTorrent (File t path) = t"
    "segment_state_of (File t path) i = None \<longleftrightarrow> \<not> (0 \<le> i \<and> i < int (segments_of t))" for i
    using inv unfolding download_inv_def frame_inv_def prod.case fst_conv snd_conv by blast+
  ultimately show ?thesis
    using held by (auto simp: any_sound_def any_inv_def o_def)
qed

text \<open>
  C14. Whatever peers list and answer, if the torrent is smaller than 2 GiB: a download takes at most 8009 steps for each
  listed fragment and one more. When nothing can go on, every worker is at the end of its list, no segment is left
  claimed and no thread has the file's lock; or the process has crashed, by an access out of bounds, and that
  can only happen if a peer listed a fragment the file does not have or sent one of fewer than 7999 bytes.
\<close>

theorem any_answers_settle:
  assumes "tsize t < 2 ^ 31" and "unlocked (fileName t) m0" and "accessible (disk m0) (c_str (fileName t))"
    and "(any_step least ^^ n) ((map (\<lambda>ks. Outer (At ks)) listed, File t path, createLocalFile t m0), None)
      ((ps, f, m), crash)"
  shows "n \<le> 8009 * length (concat listed) + 1 \<and>
    ((\<exists>s. any_step least ((ps, f, m), crash) s) \<or>
     crash = None \<and> set ps \<subseteq> {Outer (At [])} \<and> (\<nexists>i. segment_state_of f i = Some DOWNLOADING) \<and>
       unlocked (fileName t) m \<or>
     crash = Some (Undefined OutOfBounds) \<and>
       (least < 7999 \<or> \<not> int_of_u32 ` set (concat listed) \<subseteq> {0..<int (segments_of t)}))"
proof -
  let ?start = "((map (\<lambda>ks. Outer (At ks)) listed, File t path, createLocalFile t m0), None :: fault option)"
  have "n + any_left ((ps, f, m), crash) \<le> any_left ?start"
    using relpow_measure[OF assms(4), of any_left] any_step_left by blast
  then have bound: "n \<le> 8009 * length (concat listed) + 1"
    by (simp add: o_def length_concat sum_list_const_mult)
  have sound: "any_sound t least (set (concat listed)) ((ps, f, m), crash)"
    by (rule rtranclp_keeps[where P = "any_sound t least (set (concat listed))",
          OF relpowp_imp_rtranclp[OF assms(4)] any_sound_start[OF assms(1-3)]])
      (rule any_step_sound[OF _ assms(1)])
  show ?thesis
  proof (cases crash)
    case None
    then have inv: "any_inv t least (set (concat listed)) (ps, f, m)" using sound by (simp add: any_sound_def)
    have "set ps \<subseteq> {Outer (At [])} \<and> (\<nexists>i. segment_state_of f i = Some DOWNLOADING) \<and> unlocked (fileName t) m"
      if stuck: "\<nexists>s. any_step least ((ps, f, m), None) s"
    proof -
      have done_at: "ps ! w = Outer (At [])" if "w < length ps" for w
        using any_moves[OF inv assms(1) that] stuck by blast
      then have idle: "set ps \<subseteq> {Outer (At [])}" by (auto simp: in_set_conv_nth)
      then have "filter locks_file ps = []" by (auto simp: filter_empty_conv)
      then have "unlocked (fileName t) m"
        using any_invD(7)[OF inv]
        by (auto simp: locks_of_def with_stores_def unlocked_def set_file_def readLocked_def writeLocked_def)
      moreover have "\<nexists>i. segment_state_of f i = Some DOWNLOADING"
        using any_invD(2)[OF inv] done_at by (auto simp: claims_held_def holder_def)
      ultimately show ?thesis using idle by blast
    qed
    then show ?thesis using bound None by blast
  next
    case (Some e)
    then show ?thesis using sound bound by (simp add: any_sound_def)
  qed
qed

lemma any_run:
  assumes "\<forall>i. least \<le> length (data i)"
  shows "(fine_step data ^^ n) s s' \<Longrightarrow> (any_step least ^^ n) (s, None) (s', None)"
proof (induction n arbitrary: s')
  case (Suc n)
  then obtain u where u: "(fine_step data ^^ n) s u" "fine_step data u s'" by auto
  from Suc.IH[OF u(1)] any_step.goes_on[OF u(2) assms] show ?case by (rule relpowp_Suc_I)
qed simp

lemma any_answers_settle_witness:
  "10 \<le> 8009 * length (concat [[0 :: 32 word]]) + (1 :: nat) \<and>
   set [Outer (At [])] \<subseteq> {Outer (At [])} \<and>
   (\<nexists>i. segment_state_of (completed 0 (File one_torrent ''f'')) i = Some DOWNLOADING) \<and>
   unlocked ''f'' (with_stores ''f'' one_manager (one_data 0) 0)"
proof -
  have name: "fileName one_torrent = ''f''" by (simp add: one_torrent_def Torrent_hashed_def)
  have run: "(any_step 8000 ^^ 10) ((map (\<lambda>ks. Outer (At ks)) [[0]], File one_torrent ''f'',
        createLocalFile one_torrent (example_manager [])), None)
      (([Outer (At [])], completed 0 (File one_torrent ''f''), with_stores ''f'' one_manager (one_data 0) 0), None)"
    using any_run[OF _ one_store_run, of 8000] by (simp add: one_data_def one_manager_def)
  have "\<not> any_step 8000 (([Outer (At [])], f, m), None) s" for f m s
    by (auto elim!: any_step.cases fine_step.cases download_step.cases)
  moreover have "unlocked ''f'' (example_manager [])" "accessible (disk (example_manager [])) (c_str ''f'')"
    by (simp_all add: example_manager_def FileManager_def unlocked_def readLocked_def writeLocked_def)
  moreover have "tsize one_torrent < 2 ^ 31" by (simp add: one_torrent_def Torrent_hashed_def)
  ultimately show ?thesis
    using any_answers_settle [OF _ _ _ run] one_segment by (simp add: name int_of_u32_eq)
qed

end
