(* ===== verification/Fragment_Transfer.thy ===== *)
theory Fragment_Transfer
  imports Responder Download
begin

text \<open>
  One fragment on its way from one client to another: the answer of \<open>ResponderThread::respond\<close>, the request
  of \<open>CSocket::requestFragment\<close>, and what \<open>DownloadWorker::work\<close> makes of it. The answer is built from a C string,
  so what arrives ends at the first zero byte.
\<close>

section \<open>A segment as a C string\<close>

lemma length_takeWhile_less: "\<exists>x \<in> set xs. \<not> P x \<Longrightarrow> length (takeWhile P xs) < length xs"
  by (induction xs) auto

lemma c_str_segment:
  assumes "length bytes = 8000"
  shows "length (c_str (bytes @ rest)) < 7999 \<longleftrightarrow> NUL \<in> set (take 7999 bytes)"
    and "NUL \<notin> set (take 7999 bytes) \<Longrightarrow> take 8000 (c_str (bytes @ rest) @ [NUL]) = bytes"
proof -
  obtain front c where bytes: "bytes = front @ [c]" "length front = 7999"
    using assms by (cases bytes rule: rev_cases) auto
  have front: "take 7999 bytes = front" using bytes by simp
  have long: "c_str (bytes @ rest) = front @ c_str (c # rest)" if "NUL \<notin> set front"
  proof -
    have "takeWhile (\<lambda>c. c \<noteq> NUL) (front @ (c # rest)) = front @ takeWhile (\<lambda>c. c \<noteq> NUL) (c # rest)"
      using that by (intro takeWhile_append2) auto
    then show ?thesis by (simp only: c_str_def bytes(1) append_assoc append_Cons append_Nil)
  qed
  show "length (c_str (bytes @ rest)) < 7999 \<longleftrightarrow> NUL \<in> set (take 7999 bytes)"
  proof (cases "NUL \<in> set front")
    case True
    then have "c_str (bytes @ rest) = takeWhile (\<lambda>c. c \<noteq> NUL) front"
      using bytes(1) by (simp add: c_str_def takeWhile_append1)
    moreover have "length (takeWhile (\<lambda>c. c \<noteq> NUL) front) < length front"
      using True by (intro length_takeWhile_less) auto
    ultimately show ?thesis using True front bytes(2) by simp
  next
    case False
    then show ?thesis using long front bytes(2) by simp
  qed
  show "take 8000 (c_str (bytes @ rest) @ [NUL]) = bytes" if "NUL \<notin> set (take 7999 bytes)"
    using that front long bytes by (cases "c = NUL") (simp_all add: c_str_def)
qed

section \<open>From responder to worker\<close>

definition fragment_request_for :: "torrent \<Rightarrow> 32 word \<Rightarrow> tcp_message" where
  "fragment_request_for t k = \<lparr>code = CC_FRAGMENT_REQUEST,
     contents = FragmentRequest \<lparr>frq_hashedTorrent = hashed t, frq_fragNum = k\<rparr>\<rparr>"

lemma served_fragment:
  assumes "distinct (map file_hash held)" and "lookupBy file_hash (hashed t) held = Some g"
    and "int_of_u32 k = int i" and "i < length (segments g)" and "segState (segments g ! i) = COMPLETE"
    and "cstring_at (segData (segments g ! i)) = Some bs"
  shows "respond_from cstring_at held (fragment_request_for t k) = fragment_reply
    \<lparr>frs_hashedTorrent = hashed t, frs_fragNum = k, frs_fileCode = F_FINE, frs_fragment = bs\<rparr>"
  using assms
  by (simp add: respond_from_def fragment_files_eq fragment_request_for_def fragment_reply_def Let_def
      default_fragment_response_def inRange_def)

text \<open>
  C3. A segment travels from client to client exactly if none of its first 7999 bytes is zero. Let the
  peer have the file and the segment complete in memory, and its answer arrive whole and in time:
  then either the worker puts the segment's bytes on disk and marks it complete, or it
  reads past the end of the string it got.
\<close>

theorem fragment_transfer:
  assumes "distinct (map file_hash held)" and "lookupBy file_hash (hashed t) held = Some g"
    and "unat k < length (segments g)" and "segState (segments g ! unat k) = COMPLETE"
    and "cstring_at (segData (segments g ! unat k)) = Some (c_str (bytes @ rest))" and "length bytes = 8000"
    and "respond_from cstring_at held (fragment_request_for t k) = Inr (Some reply)"
    and "sockSelectSet s" and "net_events s = Readable w (Some bs) # es" and "w \<le> recvTimeout s"
    and "parse (overlay (take MAX_MESSAGE_SIZE bs) (readBuffer s)) (int (length (take MAX_MESSAGE_SIZE bs))) = reply"
    and "free_segment f (unat k)"
    and "unlocked (fileName (fileTorrent f)) m" and "openable (fileName (fileTorrent f)) old m"
  shows "\<exists>w'. work_fragments parse t [k] \<lparr>wk_file = f, wk_manager = m, wk_sock = s\<rparr> =
      Some (if NUL \<in> set (take 7999 bytes) then Inl (Undefined OutOfBounds) else Inr (), w') \<and>
    (NUL \<in> set (take 7999 bytes) \<or> wk_file w' = completed (unat k) f \<and>
       wk_manager w' = set_file (fileName (fileTorrent f)) (put_block (unat k) bytes old) m)"
proof -
  let ?d = "c_str (bytes @ rest)" and ?n = "fileName (fileTorrent f)"
  have bound: "int (unat k) * 8000 < 2 ^ 31" using assms(12) by (simp only: free_segment_def)
  have i: "int_of_u32 k = int (unat k)" by (rule int_of_u32_small[OF small_offset[OF bound]])
  have "reply = \<lparr>code = CC_FRAGMENT_RESPONSE, contents = FragmentResponse
      \<lparr>frs_hashedTorrent = hashed t, frs_fragNum = k, frs_fileCode = F_FINE, frs_fragment = ?d\<rparr>\<rparr>"
    using served_fragment[where cstring_at = cstring_at, OF assms(1,2) i assms(3-5)] assms(7)
    by (simp add: fragment_reply_def)
  then have "fragment_answer reply =
      \<lparr>frs_hashedTorrent = hashed t, frs_fragNum = k, frs_fileCode = F_FINE, frs_fragment = ?d\<rparr>"
    by (simp add: fragment_answer_def)
  then obtain r s' where req: "requestFragment parse t k s = (Inr r, s')"
    and r: "frs_fileCode r = F_FINE" "frs_fragment r = ?d"
    using fragment_request.answered(1)[where parse = parse, OF assms(8-10), of t k] assms(11)
    by (cases "requestFragment parse t k s") auto
  show ?thesis
  proof (cases "NUL \<in> set (take 7999 bytes)")
    case True
    then have "length (frs_fragment r) < 7999" using c_str_segment(1)[OF assms(6)] r(2) by simp
    then have "storeSegmentToFile ?n (filePath f) (int (unat k)) (frs_fragment r) m =
        Some (Inl (Undefined OutOfBounds), m\<lparr>writeLockedFiles := writeLockedFiles m @ [?n]\<rparr>)"
      using assms(13,14) bound by (intro storeSegmentToFile_short(1))
    then show ?thesis
      using True req r(1) claim_free_segment[OF assms(12)] by (simp add: i Let_def del: of_nat_unat)
  next
    case False
    then have len: "7999 \<le> length (frs_fragment r)" and cut: "take 8000 (frs_fragment r @ [NUL]) = bytes"
      using c_str_segment[OF assms(6), of rest] r(2) by (simp_all add: not_less)
    have "storeSegmentToFile ?n (filePath f) (int (unat k)) (frs_fragment r) m =
        Some (Inr (), set_file ?n (put_block (unat k) bytes old) m)"
      using storeSegmentToFile_long[OF assms(13,14) bound len] cut by simp
    then show ?thesis
      using False req r(1) claim_free_segment[OF assms(12)] complete_claimed_segment[OF assms(12)]
      by (simp add: i Let_def del: of_nat_unat)
  qed
qed

lemma fragment_transfer_witness:
  "\<exists>w'. work_fragments (\<lambda>_ _. \<lparr>code = CC_FRAGMENT_RESPONSE, contents = FragmentResponse
        \<lparr>frs_hashedTorrent = 3, frs_fragNum = 0, frs_fileCode = F_FINE, frs_fragment = replicate 8000 CHR ''a''\<rparr>\<rparr>)
      (Torrent_hashed 3 8000 ''f'') [0]
      \<lparr>wk_file = example_file, wk_manager = example_manager [],
       wk_sock = snd (connect_to (example_env (arrivals [(0, ''x'')])) ''10.0.0.7'' 59096)\<rparr> = Some (Inr (), w') \<and>
    wk_manager w' = set_file ''f'' (put_block 0 (replicate 8000 CHR ''a'') []) (example_manager [])"
proof -
  let ?a = "replicate 8000 CHR ''a''" and ?t = "Torrent_hashed 3 8000 ''f''"
  let ?r = "\<lparr>code = CC_FRAGMENT_RESPONSE, contents = FragmentResponse
        \<lparr>frs_hashedTorrent = 3, frs_fragNum = 0, frs_fileCode = F_FINE, frs_fragment = ?a\<rparr>\<rparr>"
  let ?s = "snd (connect_to (example_env (arrivals [(0, ''x'')])) ''10.0.0.7'' 59096)"
  let ?mem = "\<lambda>_ :: int. Some (c_str (?a @ [NUL]))"
  have name: "fileName (fileTorrent example_file) = ''f''" by (simp add: example_file_def Torrent_hashed_def)
  have str: "c_str (?a @ [NUL]) = ?a"
    unfolding c_str_def by (subst takeWhile_append2) simp_all
  have held: "distinct (map file_hash [complete_file])"
    "lookupBy file_hash (hashed ?t) [complete_file] = Some complete_file"
    "unat (0 :: 32 word) < length (segments complete_file)"
    "segState (segments complete_file ! unat (0 :: 32 word)) = COMPLETE"
    by (simp_all add: complete_file_eq file_hash_def Torrent_hashed_def Segment_def)
  have "respond_from ?mem [complete_file] (fragment_request_for ?t 0) = fragment_reply
      \<lparr>frs_hashedTorrent = hashed ?t, frs_fragNum = 0, frs_fileCode = F_FINE, frs_fragment = c_str (?a @ [NUL])\<rparr>"
    by (rule served_fragment[OF held(1,2), of 0 0]) (use held in \<open>simp_all add: int_of_u32_eq\<close>)
  then have reply: "respond_from ?mem [complete_file] (fragment_request_for ?t 0) = Inr (Some ?r)"
    unfolding str by (simp add: fragment_reply_def Torrent_hashed_def)
  have sock: "sockSelectSet ?s" "net_events ?s = Readable 0 (Some ''x'') # []" "0 \<le> recvTimeout ?s"
    by (simp_all add: connect_to_def example_env_def start_def BaseSocket_def arrivals_def DEFAULT_RECV_TIMEOUT_def)
  have mine: "free_segment example_file (unat (0 :: 32 word))"
    "unlocked (fileName (fileTorrent example_file)) (example_manager [])"
    "openable (fileName (fileTorrent example_file)) [] (example_manager [])"
    by (simp_all add: free_segment_def example_file_def Segment_def example_manager_def FileManager_def
        unlocked_def readLocked_def writeLocked_def openable_def Torrent_hashed_def)
  show ?thesis
    using fragment_transfer [where parse = "\<lambda>_ _. ?r" and cstring_at = ?mem, OF held refl _ reply sock refl mine] name
    by auto
qed

end
