(* ===== verification/Spec2Isabelle.thy ===== *)
theory Spec2Isabelle
  imports Client_Main Tracker_Process File_Calls Parallel_Completion Any_Answers Fragment_Transfer
begin

text \<open>
  A verification library for the p2p-network repository: a tracker (\<open>src/src/server\<close>) that knows which
  client owns which torrent, and a client (\<open>src/src/client\<close>) that asks it for peers, fetches the
  8000-byte segments of a file from them, and serves its own. Both speak protobuf messages over
  TCP (\<open>src/src/shared\<close>). The code is modelled as it is written; where it does not do what it is meant
  to, the theorems say what it does.

  Theories, in the order they build on one another.

  \<^item> \<open>Prelude\<close>: how a C++ statement can end (\<open>fault\<close>: undefined behaviour, exception, exit, terminate), operations on a
  state (\<open>op\<close>), range-for loops, vector indexing, reachability and the contract of an invariant
  (\<open>invariant_system\<close>), lookup by key.
  \<^item> \<open>Streams\<close>: the file system, binary file streams with their flags, little-endian object
  representations (\<open>byte_codec\<close>). \<open>Keyed_Tables\<close>: the contract of a vector used as a table.
  \<^item> \<open>Messages\<close> (\<open>GeneralTypes.h\<close>, \<open>TcpMessage.proto\<close>, \<open>sharedUtils.*\<close>) and \<open>Torrents\<close> (\<open>Torrent.*\<close>): the data
  on the wire and on disk. \<open>Options\<close>: ports on the command line.
  \<^item> \<open>Server_Database\<close> (\<open>server/database\<close>): the tracker's clients and torrents with their mutex; \<open>Serving\<close>: the
  receive loop both programs share (\<open>message_handler\<close> is its contract); \<open>Tracker\<close> (\<open>TrackerThread.*\<close>): the answer to each
  message; \<open>Tracker_Threads\<close>: the database operations of many threads, one table entry per step; \<open>Tracker_Service\<close>:
  the threads with the statements of \<open>respond\<close> and \<open>handleSeedNotification\<close> around those operations;
  \<open>Server_Main\<close> (\<open>server/main.cpp\<close>): start-up and the accept loop; \<open>Tracker_Process\<close>: that loop and the threads of
  \<open>Tracker_Service\<close> it starts as one process (\<open>process_step\<close>).
  \<^item> \<open>Client_File\<close> (\<open>client/file/Segment.*, PeerInfo.h, File.*\<close>): a file's segments and their states;
  \<open>File_Calls\<close>: any sequence of calls on one file, and the kind of value each returns;
  \<open>Client_Database\<close> (\<open>client/database\<close>): the list of files, its file format, and the unit test
  \<open>database_save_read\<close> of \<open>client/tests\<close>; \<open>File_Manager\<close>
  (\<open>client/file/FileManager.*\<close>): locks on file names, and segments on disk; \<open>Store_Steps\<close>: any number of
  threads inside \<open>storeSegmentToFile\<close>, whose bytes reach the disk in pieces.
  \<^item> \<open>Sockets\<close> (\<open>BaseSocket.*, SSocket.*, CSocket.*\<close>): a client's requests (\<open>socket_request\<close> is
  their contract); \<open>Responder\<close> (\<open>ResponderThread.*\<close>): the answers to other clients; \<open>Download\<close>
  (\<open>client/download\<close>): one worker, and the manager; \<open>Parallel_Download\<close>: the loop of \<open>work\<close> run by any number of
  workers on one file; \<open>Parallel_Runs\<close>: one worker alone as such a run, how many steps a run takes, and
  where it ends; \<open>Parallel_Completion\<close>: downloads in which no peer fails; \<open>Parallel_Stores\<close>: the same workers with
  the steps of \<open>Store_Steps\<close> for each store; \<open>Stores_Completion\<close>: these end,
  and have every segment if no peer fails and the lists cover the file; \<open>Any_Answers\<close>: the same workers with peers that
  list and send anything (\<open>any_step\<close>); \<open>Fragment_Transfer\<close>: one segment from a responder to a worker;
  \<open>Client_Main\<close> (\<open>client/main.cpp\<close>, \<open>RequestHandler.*\<close>): the client from its command line over menu and listener to
  the thread of the download manager a download starts.
  \<^item> This theory: what client, tracker and responder do to each other.

  How the code maps to the model. A class is a record of its members, a method an operation that
  returns the outcome with the state left behind; a record field keeps the member's name, with a
  prefix where two classes share it. Integers keep their width (\<open>32 word\<close>, \<open>64 word\<close>, \<open>16 word\<close>), and \<open>int\<close> is an
  \<open>int\<close> with the conversions written out. Uninitialised variables are arguments (\<open>junk\<close>). An operation that blocks for
  ever, or a loop that does, has the result \<open>None\<close>. Operations under one lock are single steps; where a
  method has several critical sections the step relations (\<open>accept_step\<close>, \<open>race_step\<close>, \<open>lock_step\<close>,
  \<open>store_step\<close>, \<open>download_step\<close>, \<open>fine_step\<close>, \<open>any_step\<close>, \<open>db_thread_step\<close>, \<open>service_step\<close>, \<open>process_step\<close>) interleave them. Reachable states come from any sequence of the operations.

  What is not in the repository is a parameter: \<open>std_hash\<close>, the protobuf parser (\<open>parse\<close>), the results of
  system calls and of \<open>select\<close>, \<open>read\<close>, \<open>send\<close>, \<open>recv\<close> and \<open>accept\<close> in the order they come, the validity of memory
  (\<open>cstring_at\<close>, \<open>memory\<close>).

  What the lemmas show. Data: round trips of torrent and database files, the cut of a file into
  segments, writing and reading segments in any order. Tables: the tracker's database refines a map
  from addresses to torrents, its addresses stay distinct, and interleaved calls are as good as
  calls one after the other, until one of them is \<open>addTorrent\<close>, which stops all others; the tracker with all its threads answers as if it took one message at
  a time, and as a process, from its first \<open>accept\<close>, only \<open>OK\<close> and empty lists. Protocol: the answer to every message of
  tracker and responder on every branch, what holds over whole connections, and which segments survive
  the way from client to client. Concurrency: a
  segment is claimed once, states only advance, a parallel download puts every complete segment on
  disk, ends, leaves no claim behind, and is complete if no peer fails and the lists cover the file, with stores in one
  step or in pieces; whatever peers send, it settles or crashes; the lock tables account for the threads and for
  the locks left behind; and the
  interleavings in which the locks, the accept loop and the atomic segment state fail; a connection
  overtaken in the accept loop is lost for ever. Time: all
  answers on one socket share five seconds. Ends: how the client's process can end, and that no download it
  starts fetches anything.

  Fuel. Only the salting loop of \<open>addTorrent\<close> takes fuel, and one round is always enough, since it ends in the self-lock
  (\<open>addTorrent_locks_itself\<close>). The menu loops are
  partial functions; all other loops are structural or have a measure.

  Not modelled: logging and its set-up, prompts, the generated protobuf code, \<open>SIGPIPE\<close>, allocation failure,
  \<open>client/CLI.cpp\<close> (commented out as a whole), the tests that only compare constants, build files.
  What \<open>getpeername\<close> leaves in the address is a parameter, the same each time for one connection; that a failed call
  leaves it uninitialised is not given a meaning of its own.
  \<open>Parallel_Download\<close> takes a store for one step; \<open>Store_Steps\<close> and \<open>Parallel_Stores\<close> show that this loses nothing:
  stores of different segments write different bytes. How often and in which portions a stream
  flushes is left open there (any positive number of bytes per step). In \<open>Tracker_Threads\<close> who holds the mutex
  is read off the threads; the loop of \<open>handleSeedNotification\<close>, which runs without it, is in \<open>Tracker_Service\<close>, one
  torrent per step; the size \<open>deleteClient\<close> logs without it is left out. In \<open>Tracker_Service\<close> and \<open>Tracker_Process\<close>
  messages arrive whole, and a thread whose client is gone has no further step (\<open>Tracker\<close> has the
  receive loop of one thread with its errors). A data race is not given a meaning
  of its own: a step reads what the last step left.
\<close>

section \<open>Client against tracker\<close>

lemma connect_to_open:
  "connect_to env a p = (OPEN, s) \<Longrightarrow> sockSelectSet s \<and> recvTimeout s = 5000000"
  by (auto simp: connect_to_def start_def DEFAULT_RECV_TIMEOUT_def split: if_splits)

text \<open>
  C37. A client that reaches the program's own tracker and gets its answer crashes: in every state
  the tracker can be in, the list sent for the torrent is empty, and the client reads its first
  element before it looks for peers.
\<close>

theorem download_faults_on_tracker_list:
  assumes "reachable initial_db tracker_step d" and "mutex d = Unlocked"
    and "connect_to env (ip (trackerAddress m)) (port (trackerAddress m)) = (OPEN, s)"
    and "net_events s = Readable w (Some bs) # es" and "w \<le> 5000000"
    and "respond std_hash fuel conn \<lparr>code = CS_SEEDLIST_REQUEST,
        contents = SeedlistRequest (hashed (fileTorrent (dm_file m)))\<rparr> d = Some (Inr (Some reply), d')"
    and "parse (overlay (take MAX_MESSAGE_SIZE bs) (readBuffer s))
        (int (length (take MAX_MESSAGE_SIZE bs))) = reply"
  shows "start_manager parse env rounds m = Some (Inl (Undefined RepeatedIndex), m)"
proof -
  let ?h = "hashed (fileTorrent (dm_file m))"
  note open_sock = connect_to_open[OF assms(3)]
  have "nobody_owns d" using assms(1) by (rule tracker_history.reachable_inv)
  from respond_nobody_owns[OF this assms(6)] have "announces_nobody reply" by simp
  moreover have "code reply = CS_SEEDLIST_RESPONSE"
    using assms(2,6) by (auto simp: respond_def op_simps)
  ultimately have "seedlist_answer reply = Inl (Undefined RepeatedIndex)"
    by (cases "contents reply") (auto simp: seedlist_answer_def announces_nobody_def
        default_seedlist_response_def)
  moreover have "fst (sendSeedlistRequest parse ?h s) = seedlist_answer reply"
    using seedlist_request.answered(1)[of s w bs es parse ?h] open_sock assms(4,5,7) by simp
  ultimately have "fst (sendSeedlistRequest parse ?h s) = Inl (Undefined RepeatedIndex)" by simp
  then show ?thesis using assms(3) by (simp add: start_manager_def updatePeersAndStartWorkers_def)
qed

lemma download_faults_on_tracker_list_witness:
  "start_manager (\<lambda>_ _. \<lparr>code = CS_SEEDLIST_RESPONSE, contents = SeedlistResponse default_seedlist_response\<rparr>)
      (example_env (arrivals [(7, ''x'')])) [] example_dm =
    Some (Inl (Undefined RepeatedIndex), example_dm)"
proof -
  let ?reply = "\<lparr>code = CS_SEEDLIST_RESPONSE, contents = SeedlistResponse default_seedlist_response\<rparr>"
  let ?env = "example_env (arrivals [(7, ''x'')])"
  let ?s = "snd (connect_to ?env ''10.0.0.1'' 59095)"
  have start: "reachable initial_db tracker_step Server_empty"
    by (rule reachable_init) (simp add: initial_db_def)
  have conn: "connect_to ?env (ip (trackerAddress example_dm)) (port (trackerAddress example_dm)) = (OPEN, ?s)"
    by (simp add: connect_to_def example_env_def start_def BaseSocket_def example_dm_def)
  have ev: "net_events ?s = Readable 7 (Some ''x'') # []"
    by (simp add: connect_to_def example_env_def start_def BaseSocket_def arrivals_def)
  have answer: "respond (\<lambda>_. 0) 1 example_connection \<lparr>code = CS_SEEDLIST_REQUEST,
      contents = SeedlistRequest (hashed (fileTorrent (dm_file example_dm)))\<rparr> Server_empty =
      Some (Inr (Some ?reply), Server_empty)"
    by (simp add: respond_def op_simps Server_empty_def)
  show ?thesis
    by (rule download_faults_on_tracker_list [OF start _ conn ev _ answer]) (simp_all add: Server_empty_def)
qed

section \<open>Client against client\<close>

text \<open>An answer that lists nothing.\<close>

lemma work_nothing_listed:
  assumes "ipV4Address peer \<noteq> []"
    and "connect_to env (ipV4Address peer) (of_int (peerPort peer)) = (OPEN, s)"
    and "net_events s = Readable w (Some bs) # es" and "w \<le> 5000000"
    and "parse (overlay (take MAX_MESSAGE_SIZE bs) (readBuffer s))
        (int (length (take MAX_MESSAGE_SIZE bs))) = reply"
    and "code reply = CC_LIST_RESPONSE" and "lr_fragments (listResponse_of (contents reply)) = []"
  shows "work parse env peer t (f, m) = Some (Inr True, f, m)"
proof -
  note open_sock = connect_to_open[OF assms(2)]
  have "fst (requestFragmentsList parse t s) = Inr (listResponse_of (contents reply))"
    using list_request.answered(1)[of s w bs es parse t] open_sock assms(3-6) by simp
  then show ?thesis using assms(1,2,7) by (auto simp: work_def split: prod.split)
qed

text \<open>
  C38. No client of this program downloads anything from another. Whatever files the peer's database held,
  properly cut, a list request either faults in the responder or is answered with an empty list, and
  then the worker finishes with the file, the disk and the locks as they were.
\<close>

theorem worker_learns_nothing_from_any_database:
  assumes "ipV4Address peer \<noteq> []"
    and "connect_to env (ipV4Address peer) (of_int (peerPort peer)) = (OPEN, s)"
    and "net_events s = Readable w (Some bs) # es" and "w \<le> 5000000"
    and "\<forall>g \<in> set held. well_cut g"
    and "respond_from cstring_at held \<lparr>code = CC_LIST_REQUEST, contents = ListRequest (hashed t)\<rparr> =
      Inr (Some reply)"
    and "parse (overlay (take MAX_MESSAGE_SIZE bs) (readBuffer s))
        (int (length (take MAX_MESSAGE_SIZE bs))) = reply"
  shows "work parse env peer t (f, m) = Some (Inr True, f, m)"
  using work_nothing_listed[where parse = parse, OF assms(1-4,7)] assms(6) list_request_never_lists[OF assms(5)]
  by (auto simp: Let_def split: if_splits)

lemma worker_learns_nothing_from_any_database_witness:
  "work (\<lambda>_ _. \<lparr>code = CC_LIST_RESPONSE, contents = ListResponse
        \<lparr>lr_hashedTorrent = 3, lr_fileCode = F_FRAG_COMPLETE, lr_fragments = []\<rparr>\<rparr>)
      (example_env (arrivals [(7, ''x'')])) example_peer (Torrent_hashed 3 8000 ''f'')
      (example_file, example_manager []) = Some (Inr True, example_file, example_manager [])"
proof -
  let ?reply = "\<lparr>code = CC_LIST_RESPONSE, contents = ListResponse
        \<lparr>lr_hashedTorrent = 3, lr_fileCode = F_FRAG_COMPLETE, lr_fragments = []\<rparr>\<rparr>"
  let ?env = "example_env (arrivals [(7, ''x'')])"
  let ?s = "snd (connect_to ?env ''10.0.0.7'' 59096)"
  have ip: "ipV4Address example_peer \<noteq> []" by (simp add: example_peer_def PeerInfo_def)
  have conn: "connect_to ?env (ipV4Address example_peer) (of_int (peerPort example_peer)) = (OPEN, ?s)"
    by (simp add: connect_to_def example_env_def start_def BaseSocket_def example_peer_def PeerInfo_def)
  have ev: "net_events ?s = Readable 7 (Some ''x'') # []"
    by (simp add: connect_to_def example_env_def start_def BaseSocket_def arrivals_def)
  have cut: "\<forall>g \<in> set [example_file]. well_cut g" by (simp add: well_cut_def example_file_def)
  have answer: "respond_from (\<lambda>_. None) [example_file] \<lparr>code = CC_LIST_REQUEST,
      contents = ListRequest (hashed (Torrent_hashed 3 8000 ''f''))\<rparr> = Inr (Some ?reply)"
    using list_request_never_lists[OF cut] by (simp add: example_file_def has_complete_def Torrent_hashed_def)
  show ?thesis
    by (rule worker_learns_nothing_from_any_database [OF ip conn ev _ cut answer]) simp_all
qed

text \<open>
  In particular from the responder as it is, over its test database.
\<close>

theorem worker_learns_nothing_from_responder:
  assumes "ipV4Address peer \<noteq> []"
    and "connect_to env (ipV4Address peer) (of_int (peerPort peer)) = (OPEN, s)"
    and "net_events s = Readable w (Some bs) # es" and "w \<le> 5000000"
    and "Responder_respond cstring_at \<lparr>code = CC_LIST_REQUEST, contents = ListRequest (hashed t)\<rparr> u =
      Some (Inr (Some reply), u')"
    and "parse (overlay (take MAX_MESSAGE_SIZE bs) (readBuffer s))
        (int (length (take MAX_MESSAGE_SIZE bs))) = reply"
  shows "work parse env peer t (f, m) = Some (Inr True, f, m)"
  using work_nothing_listed[where parse = parse, OF assms(1-4,6)] assms(5)
  by (auto simp: Responder_respond_def respond_testdb)

end
